(* ===== verification/Prelude.thy ===== *)
theory Prelude
  imports Main "HOL-Library.Word" "HOL-Library.AList" "HOL-Library.Char_ord"
    "HOL-Library.List_Lexorder" "HOL-Library.Option_ord" "HOL-Library.Product_Lexorder"
    "HOL-Library.Code_Target_Numeral"
begin

text \<open>
  What the components share: results, machine integers, time, the hash map and the ordered set of
  the Rust standard library, and the text formatting the log and error messages use.

  \<^item> A Rust \<open>Result\<close> is a sum, \<open>Inl\<close> the error; \<open>res_bind\<close> is the \<open>?\<close> operator.
  \<^item> \<open>usize\<close> and \<open>u64\<close> values are natural numbers; the additions the code makes wrap at
    \<open>2 ^ 64\<close> (the release profile has no overflow checks). \<open>i64\<close> values are integers, with the
    two's complement reading of a cast or of an overflowing sum written out by \<open>to_i64\<close>.
  \<^item> A \<open>Duration\<close> is its number of nanoseconds, an \<open>Instant\<close> the number of nanoseconds since
    the origin of the monotonic clock. Seconds of an \<open>Instant\<close> are an \<open>i64\<close>, which bounds
    \<open>checked_add\<close> and \<open>checked_sub\<close>.
  \<^item> A \<open>HashMap\<close> is an association list with distinct keys (\<open>AList.update\<close>,
    \<open>AList.delete\<close>, \<open>map_of\<close>), a \<open>BTreeSet\<close> a strictly sorted list, a \<open>VecDeque\<close> a list
    with its front first.
  \<^item> A \<open>String\<close> is the list of its UTF-8 bytes, so that \<open>length\<close> is Rust's \<open>len()\<close>.
\<close>

named_theorems res_simps \<open>case distinctions on results\<close>
named_theorems time_simps \<open>saturating and checked operations on instants\<close>
named_theorems wire_simps \<open>reads from a byte stream\<close>

type_synonym byte = "8 word"
type_synonym octets = "byte list"
type_synonym instant = int
type_synonym duration = nat

subsection \<open>Results\<close>

definition res_bind :: "'e + 'a \<Rightarrow> ('a \<Rightarrow> 'e + 'b) \<Rightarrow> 'e + 'b" where
  "res_bind r f = (case r of Inl e \<Rightarrow> Inl e | Inr x \<Rightarrow> f x)"

definition map_err :: "('e \<Rightarrow> 'f) \<Rightarrow> 'e + 'a \<Rightarrow> 'f + 'a" where
  "map_err f r = (case r of Inl e \<Rightarrow> Inl (f e) | Inr x \<Rightarrow> Inr x)"

text \<open>\<open>Option::transpose\<close> after a fallible \<open>map\<close>: an absent option is not an error.\<close>

definition try_opt :: "('a \<Rightarrow> 'e + 'b) \<Rightarrow> 'a option \<Rightarrow> 'e + 'b option" where
  "try_opt f x = (case x of None \<Rightarrow> Inr None | Some v \<Rightarrow> res_bind (f v) (\<lambda>y. Inr (Some y)))"

definition is_ok :: "'e + 'a \<Rightarrow> bool" where
  "is_ok r = (case r of Inl _ \<Rightarrow> False | Inr _ \<Rightarrow> True)"

subsection \<open>Machine integers\<close>

definition usize_add :: "nat \<Rightarrow> nat \<Rightarrow> nat" where
  "usize_add a b = (a + b) mod 2 ^ 64"

definition to_i64 :: "int \<Rightarrow> int" where
  "to_i64 x = (x + 2 ^ 63) mod 2 ^ 64 - 2 ^ 63"

definition i64_range :: "int \<Rightarrow> bool" where
  "i64_range x \<longleftrightarrow> - (2 ^ 63) \<le> x \<and> x < 2 ^ 63"

subsection \<open>Durations and instants\<close>

definition from_secs :: "nat \<Rightarrow> duration" where
  "from_secs s = s * 1000000000"

definition from_millis :: "nat \<Rightarrow> duration" where
  "from_millis ms = ms * 1000000"

definition as_millis :: "duration \<Rightarrow> nat" where
  "as_millis d = d div 1000000"

text \<open>\<open>Instant::duration_since\<close>: zero when the argument is later.\<close>

definition duration_since :: "instant \<Rightarrow> instant \<Rightarrow> duration" where
  "duration_since a b = nat (a - b)"

definition instant_range :: "instant \<Rightarrow> bool" where
  "instant_range t \<longleftrightarrow> i64_range (t div 1000000000)"

definition instant_checked_add :: "instant \<Rightarrow> duration \<Rightarrow> instant option" where
  "instant_checked_add t d = (if instant_range (t + int d) then Some (t + int d) else None)"

definition instant_checked_sub :: "instant \<Rightarrow> duration \<Rightarrow> instant option" where
  "instant_checked_sub t d = (if instant_range (t - int d) then Some (t - int d) else None)"

subsection \<open>Ordered sets\<close>

definition bt_insert :: "'a::linorder \<Rightarrow> 'a list \<Rightarrow> 'a list" where
  "bt_insert x xs = (if x \<in> set xs then xs else insort x xs)"

definition bt_remove :: "'a::linorder \<Rightarrow> 'a list \<Rightarrow> 'a list" where
  "bt_remove x xs = remove1 x xs"

definition bt_first :: "'a list \<Rightarrow> 'a option" where
  "bt_first xs = (case xs of [] \<Rightarrow> None | x # _ \<Rightarrow> Some x)"

subsection \<open>Formatting\<close>

definition digit_char :: "nat \<Rightarrow> char" where
  "digit_char d = char_of (d + (if d < 10 then 48 else 87))"

fun show_nat :: "nat \<Rightarrow> string" where
  "show_nat n = (if n < 10 then [digit_char n] else show_nat (n div 10) @ [digit_char (n mod 10)])"

text \<open>\<open>{:016x}\<close> of a \<open>u64\<close>: sixteen lower-case hexadecimal digits.\<close>

fun hex_digits :: "nat \<Rightarrow> nat \<Rightarrow> string" where
  "hex_digits 0 n = []"
| "hex_digits (Suc k) n = hex_digits k (n div 16) @ [digit_char (n mod 16)]"

fun dec_digits :: "nat \<Rightarrow> nat \<Rightarrow> string" where
  "dec_digits 0 n = []"
| "dec_digits (Suc k) n = dec_digits k (n div 10) @ [digit_char (n mod 10)]"

definition trim_zeros :: "string \<Rightarrow> string" where
  "trim_zeros s = rev (dropWhile (\<lambda>c. c = CHR ''0'') (rev s))"

text \<open>The \<open>Debug\<close> form of a \<open>Duration\<close>: seconds, milli-, micro- or nanoseconds, with the
  fraction in decimal and its trailing zeros dropped.\<close>

definition show_decimal :: "nat \<Rightarrow> nat \<Rightarrow> nat \<Rightarrow> string \<Rightarrow> string" where
  "show_decimal whole k frac suffix =
     (let f = trim_zeros (dec_digits k frac)
      in show_nat whole @ (if f = [] then [] else ''.'' @ f) @ suffix)"

definition debug_duration :: "duration \<Rightarrow> string" where
  "debug_duration d =
     (if d \<ge> 1000000000 then show_decimal (d div 1000000000) 9 (d mod 1000000000) ''s''
      else if d \<ge> 1000000 then show_decimal (d div 1000000) 6 (d mod 1000000) ''ms''
      else if d \<ge> 1000 then show_decimal (d div 1000) 3 (d mod 1000) [CHR 0xC2, CHR 0xB5, CHR ''s'']
      else show_decimal d 0 0 ''ns'')"

declare show_nat.simps [simp del]

subsection \<open>Results: lemmas\<close>

lemma res_bind_Inl [simp]: "res_bind (Inl e) f = Inl e"
  by (simp add: res_bind_def)

lemma res_bind_Inr [simp]: "res_bind (Inr x) f = f x"
  by (simp add: res_bind_def)

lemma res_bind_eq_Inr [res_simps]: "res_bind r f = Inr y \<longleftrightarrow> (\<exists>x. r = Inr x \<and> f x = Inr y)"
  by (cases r) auto

lemma res_bind_eq_Inl [res_simps]:
  "res_bind r f = Inl e \<longleftrightarrow> r = Inl e \<or> (\<exists>x. r = Inr x \<and> f x = Inl e)"
  by (cases r) auto

lemma map_err_simps [simp]: "map_err f (Inl e) = Inl (f e)" "map_err f (Inr x) = Inr x"
  by (simp_all add: map_err_def)

lemma map_err_eq_Inr [res_simps]: "map_err f r = Inr y \<longleftrightarrow> r = Inr y"
  by (cases r) auto

lemma try_opt_simps [simp]:
  "try_opt f None = Inr None"
  "try_opt f (Some v) = res_bind (f v) (\<lambda>y. Inr (Some y))"
  by (simp_all add: try_opt_def)

lemma is_ok_simps [simp]: "\<not> is_ok (Inl e)" "is_ok (Inr x)"
  by (simp_all add: is_ok_def)

subsection \<open>Integers and time: lemmas\<close>

text \<open>The powers as numerals, for evaluation.\<close>

lemma to_i64_code [code]: "to_i64 x = (x + 9223372036854775808) mod 18446744073709551616 - 9223372036854775808"
  by (simp add: to_i64_def)

lemma i64_range_code [code]: "i64_range x \<longleftrightarrow> - 9223372036854775808 \<le> x \<and> x < 9223372036854775808"
  by (simp add: i64_range_def)

lemma usize_add_code [code]: "usize_add a b = (a + b) mod 18446744073709551616"
  by (simp add: usize_add_def)

lemma usize_add_exact: "a + b < 2 ^ 64 \<Longrightarrow> usize_add a b = a + b"
  by (simp add: usize_add_def)

lemma to_i64_id: "i64_range x \<Longrightarrow> to_i64 x = x"
  by (simp add: to_i64_def i64_range_def)

lemma to_i64_range: "i64_range (to_i64 x)"
  using pos_mod_bound [of "2 ^ 64" "x + 2 ^ 63"] pos_mod_sign [of "2 ^ 64" "x + 2 ^ 63"]
  by (simp add: to_i64_def i64_range_def)

lemma duration_since_le_iff [time_simps]: "duration_since a b \<le> d \<longleftrightarrow> a - b \<le> int d"
  by (auto simp: duration_since_def)

lemma duration_since_gt_iff [time_simps]: "d < duration_since a b \<longleftrightarrow> int d < a - b"
  by (auto simp: duration_since_def)

lemma instant_checked_add_Some [time_simps]:
  "instant_checked_add t d = Some u \<longleftrightarrow> u = t + int d \<and> instant_range u"
  by (auto simp: instant_checked_add_def)

lemma instant_checked_sub_Some [time_simps]:
  "instant_checked_sub t d = Some u \<longleftrightarrow> u = t - int d \<and> instant_range u"
  by (auto simp: instant_checked_sub_def)

subsection \<open>Association lists and ordered sets: lemmas\<close>

lemma map_of_alist_update [simp]: "map_of (AList.update k v m) = (map_of m)(k \<mapsto> v)"
  by (rule AList.update_conv')

lemma map_of_alist_delete [simp]: "map_of (AList.delete k m) = (map_of m)(k := None)"
  by (rule AList.delete_conv')

lemma distinct_alist_update [simp]:
  "distinct (map fst m) \<Longrightarrow> distinct (map fst (AList.update k v m))"
  by (rule AList.distinct_update)

lemma distinct_alist_delete [simp]:
  "distinct (map fst m) \<Longrightarrow> distinct (map fst (AList.delete k m))"
  by (rule AList.distinct_delete)

lemma fst_set_map_of: "fst ` set m = dom (map_of m)"
  by (simp add: dom_map_of_conv_image_fst)

lemma length_alist_dom: "distinct (map fst m) \<Longrightarrow> length m = card (dom (map_of m))"
  using distinct_card [of "map fst m"] by (simp add: dom_map_of_conv_image_fst)

lemma length_alist_update:
  assumes "distinct (map fst m)"
  shows "length (AList.update k v m) = (if k \<in> dom (map_of m) then length m else Suc (length m))"
  using assms by (simp add: length_alist_dom insert_absorb finite_dom_map_of)

lemma length_alist_delete:
  assumes "distinct (map fst m)" "k \<in> dom (map_of m)"
  shows "Suc (length (AList.delete k m)) = length m"
proof -
  have "Suc (card (dom (map_of m) - {k})) = card (dom (map_of m))"
    using assms(2) by (simp only: card_Suc_Diff1 finite_dom_map_of)
  with assms show ?thesis by (simp add: length_alist_dom)
qed

lemma length_alist_delete_le: "length (AList.delete k m) \<le> length m"
  by (simp add: AList.delete_eq)

lemma set_bt_insert [simp]: "set (bt_insert x xs) = insert x (set xs)"
  by (auto simp: bt_insert_def set_insort_key)

lemma strict_sorted_bt_insert:
  "sorted xs \<Longrightarrow> distinct xs \<Longrightarrow> sorted (bt_insert x xs) \<and> distinct (bt_insert x xs)"
  by (simp add: bt_insert_def sorted_insort distinct_insort)

lemma set_bt_remove: "distinct xs \<Longrightarrow> set (bt_remove x xs) = set xs - {x}"
  by (simp add: bt_remove_def)

lemma strict_sorted_bt_remove:
  "sorted xs \<Longrightarrow> distinct xs \<Longrightarrow> sorted (bt_remove x xs) \<and> distinct (bt_remove x xs)"
  by (simp add: bt_remove_def sorted_remove1)

lemma bt_first_least:
  "sorted xs \<Longrightarrow> bt_first xs = Some x \<Longrightarrow> y \<in> set xs \<Longrightarrow> x \<le> y"
  by (auto simp: bt_first_def split: list.splits)

lemma in_take_iff_distinct:
  assumes "distinct xs"
  shows "x \<in> set (take n xs) \<longleftrightarrow> x \<in> set xs \<and> x \<notin> set (drop n xs)"
proof -
  have "set xs = set (take n xs) \<union> set (drop n xs)" by (metis append_take_drop_id set_append)
  moreover have "set (take n xs) \<inter> set (drop n xs) = {}"
    using assms by (simp add: set_take_disj_set_drop_if_distinct)
  ultimately show ?thesis by auto
qed

subsection \<open>Formatting: lemmas\<close>

lemma length_hex_digits [simp]: "length (hex_digits k n) = k"
  by (induction k arbitrary: n) simp_all

lemma length_dec_digits [simp]: "length (dec_digits k n) = k"
  by (induction k arbitrary: n) simp_all

lemma length_show_nat: "n < 10 ^ k \<Longrightarrow> 0 < k \<Longrightarrow> length (show_nat n) \<le> k"
proof (induction n arbitrary: k rule: show_nat.induct)
  case (1 n)
  show ?case
  proof (cases "n < 10")
    case True
    with "1.prems" show ?thesis by (simp add: show_nat.simps [of n])
  next
    case False
    with "1.prems" obtain j where k: "k = Suc j" "0 < j"
      by (cases k; cases "k - 1") auto
    have "n div 10 < 10 ^ j"
      using "1.prems"(1) k(1) by (simp add: less_mult_imp_div_less mult.commute)
    with "1.IH" [OF False] k(2) have "length (show_nat (n div 10)) \<le> j" by blast
    with False k(1) show ?thesis by (simp add: show_nat.simps [of n])
  qed
qed

lemma digit_char_inj: "a < 16 \<Longrightarrow> b < 16 \<Longrightarrow> digit_char a = digit_char b \<Longrightarrow> a = b"
proof -
  assume a: "a < 16" and b: "b < 16" and eq: "digit_char a = digit_char b"
  from eq have "of_char (digit_char a) = (of_char (digit_char b) :: nat)" by simp
  with a b show ?thesis by (auto simp: digit_char_def split: if_splits)
qed

lemma show_nat_nonempty [simp]: "show_nat n \<noteq> []" "[] \<noteq> show_nat n"
  by (simp_all add: show_nat.simps [of n])

lemma show_nat_inj: "show_nat m = show_nat n \<Longrightarrow> m = n"
proof (induction m arbitrary: n rule: show_nat.induct)
  case (1 m)
  show ?case
  proof (cases "m < 10 \<or> n < 10")
    case True
    with "1.prems" show ?thesis
      by (auto simp: show_nat.simps [of m] show_nat.simps [of n]
          dest: digit_char_inj [rotated 2] split: if_splits)
  next
    case False
    with "1.prems" have "show_nat (m div 10) = show_nat (n div 10)"
      and "digit_char (m mod 10) = digit_char (n mod 10)"
      by (simp_all add: show_nat.simps [of m] show_nat.simps [of n])
    with "1.IH" [of "n div 10"] False have "m div 10 = n div 10" "m mod 10 = n mod 10"
      by (auto dest: digit_char_inj [rotated 2])
    then show ?thesis by (metis div_mult_mod_eq)
  qed
qed

lemma hex_digits_inj:
  "hex_digits k m = hex_digits k n \<Longrightarrow> m < 16 ^ k \<Longrightarrow> n < 16 ^ k \<Longrightarrow> m = n"
proof (induction k arbitrary: m n)
  case 0
  then show ?case by simp
next
  case (Suc k)
  have "m div 16 < 16 ^ k" "n div 16 < 16 ^ k"
    using Suc.prems by (simp_all add: less_mult_imp_div_less mult.commute)
  with Suc have "m div 16 = n div 16" "m mod 16 = n mod 16"
    by (auto dest: digit_char_inj [rotated 2])
  then show ?case by (metis div_mult_mod_eq)
qed

end
