(* ===== verification/Policy_Core.thy ===== *)
theory Policy_Core
  imports Prelude
begin

text \<open>
  The seam between connectors and policies: the normalised action (core/action.rs), the identity a
  request is accounted to (core/identity.rs) and the policy chain (core/policy.rs).

  A policy of the program is an object behind a lock; here it is a value that \<open>evaluate\<close> takes
  and returns. The clock readings a chain makes are given by position (\<open>clk i\<close> is the reading of
  the \<open>i\<close>-th policy that runs). The locale \<open>policy_interface\<close> states what a client of a
  \<open>Policy\<close> may rely on: an invariant of the policy's state that every evaluation keeps.
\<close>

subsection \<open>Actions\<close>

datatype operation_kind =
    AccountLock | AccountUnlock | Delete | Create | PasswordReset | Rename

record action =
  backend :: string
  operation :: operation_kind
  target :: string
  blast_radius :: nat

subsection \<open>Identities\<close>

datatype identity = Identity (identity_name: string)

instantiation identity :: linorder
begin

definition less_eq_identity :: "identity \<Rightarrow> identity \<Rightarrow> bool" where
  "less_eq_identity a b \<longleftrightarrow> identity_name a \<le> identity_name b"

definition less_identity :: "identity \<Rightarrow> identity \<Rightarrow> bool" where
  "less_identity a b \<longleftrightarrow> identity_name a < identity_name b"

instance
  by standard
    (auto simp: less_eq_identity_def less_identity_def identity.expand)

end

datatype ip_addr = V4 byte byte byte byte | V6 "16 word list"

record socket_addr =
  sock_ip :: ip_addr
  sock_port :: "16 word"

text \<open>\<open>Display\<close> of an address. An IPv6 address is written with its first longest run of at least
  two zero segments replaced by \<open>::\<close>, an IPv4-mapped one with its dotted tail.\<close>

definition show_v4 :: "byte \<Rightarrow> byte \<Rightarrow> byte \<Rightarrow> byte \<Rightarrow> string" where
  "show_v4 a b c d =
     show_nat (unat a) @ ''.'' @ show_nat (unat b) @ ''.'' @ show_nat (unat c) @ ''.'' @ show_nat (unat d)"

fun show_hex :: "nat \<Rightarrow> string" where
  "show_hex n = (if n < 16 then [digit_char n] else show_hex (n div 16) @ [digit_char (n mod 16)])"

declare show_hex.simps [simp del]

fun show_segments :: "16 word list \<Rightarrow> string" where
  "show_segments [] = []"
| "show_segments [s] = show_hex (unat s)"
| "show_segments (s # ss) = show_hex (unat s) @ '':'' @ show_segments ss"

fun zero_span :: "16 word list \<Rightarrow> nat \<Rightarrow> nat \<times> nat \<Rightarrow> nat \<times> nat \<Rightarrow> nat \<times> nat" where
  "zero_span [] i longest current = longest"
| "zero_span (s # ss) i longest current =
     (if s = 0 then
        (let cur = (if snd current = 0 then (i, 1) else (fst current, snd current + 1))
         in zero_span ss (Suc i) (if snd cur > snd longest then cur else longest) cur)
      else zero_span ss (Suc i) longest (0, 0))"

definition show_v6 :: "16 word list \<Rightarrow> string" where
  "show_v6 ss =
     (if length ss = 8 \<and> take 6 ss = [0, 0, 0, 0, 0, 0xFFFF] then
        ''::ffff:'' @ show_v4 (ucast (drop_bit 8 (ss ! 6))) (ucast (ss ! 6))
                              (ucast (drop_bit 8 (ss ! 7))) (ucast (ss ! 7))
      else
        (case zero_span ss 0 (0, 0) (0, 0) of (start, len) \<Rightarrow>
           if len > 1 then show_segments (take start ss) @ ''::'' @ show_segments (drop (start + len) ss)
           else show_segments ss))"

definition show_ip :: "ip_addr \<Rightarrow> string" where
  "show_ip ip = (case ip of V4 a b c d \<Rightarrow> show_v4 a b c d | V6 ss \<Rightarrow> show_v6 ss)"

definition from_peer_addr :: "socket_addr \<Rightarrow> identity" where
  "from_peer_addr addr = Identity (''ip:'' @ show_ip (sock_ip addr))"

definition from_bind_dn :: "string \<Rightarrow> identity" where
  "from_bind_dn dn = Identity (''dn:'' @ dn)"

subsection \<open>The policy chain\<close>

datatype decision = Allow | Block (block_reason: string)

record policy_context =
  ctx_identity :: identity

type_synonym 'p evaluator = "'p \<Rightarrow> instant \<Rightarrow> action \<Rightarrow> policy_context \<Rightarrow> decision \<times> 'p"

fun evaluate_all ::
  "'p evaluator \<Rightarrow> (nat \<Rightarrow> instant) \<Rightarrow> 'p list \<Rightarrow> action \<Rightarrow> policy_context \<Rightarrow> decision \<times> 'p list"
where
  "evaluate_all ev clk [] a ctx = (Allow, [])"
| "evaluate_all ev clk (p # ps) a ctx =
     (case ev p (clk 0) a ctx of
        (Block reason, p') \<Rightarrow> (Block reason, p' # ps)
      | (Allow, p') \<Rightarrow>
          (case evaluate_all ev (\<lambda>i. clk (Suc i)) ps a ctx of (d, ps') \<Rightarrow> (d, p' # ps')))"

subsection \<open>Lemmas\<close>

lemma length_evaluate_all [simp]: "length (snd (evaluate_all ev clk ps a ctx)) = length ps"
proof (induction ps arbitrary: clk)
  case Nil
  then show ?case by simp
next
  case (Cons p ps)
  from Cons.IH [of "\<lambda>i. clk (Suc i)"] show ?case
    by (auto split: prod.splits decision.splits)
qed

text \<open>An allowed action was allowed by every policy of the chain, each at its own clock reading,
  and every policy has advanced.\<close>

lemma evaluate_all_Allow_nth:
  assumes "evaluate_all ev clk ps a ctx = (Allow, ps')" and "i < length ps"
  shows "ev (ps ! i) (clk i) a ctx = (Allow, ps' ! i)"
  using assms
proof (induction ps arbitrary: clk ps' i)
  case Nil
  then show ?case by simp
next
  case (Cons p ps)
  then show ?case
    by (cases i) (auto split: prod.splits decision.splits)
qed

text \<open>A blocked action was allowed by the policies before the blocking one, whose reason is the
  chain's; the policies after it are untouched.\<close>

lemma evaluate_all_Block:
  assumes "evaluate_all ev clk ps a ctx = (Block r, ps')"
  shows "\<exists>i < length ps. ev (ps ! i) (clk i) a ctx = (Block r, ps' ! i)
           \<and> (\<forall>j < i. ev (ps ! j) (clk j) a ctx = (Allow, ps' ! j))
           \<and> drop (Suc i) ps' = drop (Suc i) ps"
  using assms
proof (induction ps arbitrary: clk ps')
  case Nil
  then show ?case by simp
next
  case (Cons p ps)
  obtain d p' where ev: "ev p (clk 0) a ctx = (d, p')" by (cases "ev p (clk 0) a ctx")
  show ?case
  proof (cases d)
    case (Block r')
    with ev Cons.prems show ?thesis by (intro exI [of _ 0]) auto
  next
    case Allow
    with ev Cons.prems obtain qs where qs: "ps' = p' # qs"
      and rest: "evaluate_all ev (\<lambda>i. clk (Suc i)) ps a ctx = (Block r, qs)"
      by (auto split: prod.splits)
    from Cons.IH [OF rest] obtain i where "i < length ps"
      "ev (ps ! i) (clk (Suc i)) a ctx = (Block r, qs ! i)"
      "\<forall>j < i. ev (ps ! j) (clk (Suc j)) a ctx = (Allow, qs ! j)"
      "drop (Suc i) qs = drop (Suc i) ps" by blast
    with qs Allow ev show ?thesis
      by (intro exI [of _ "Suc i"]) (auto simp: less_Suc_eq_0_disj)
  qed
qed

text \<open>The interface of a \<open>Policy\<close>: an invariant kept by every evaluation. Under it a chain keeps
  the invariant of every member, blocked or not.\<close>

locale policy_interface =
  fixes ev :: "'p evaluator" and inv :: "'p \<Rightarrow> bool"
  assumes inv_evaluate: "inv p \<Longrightarrow> inv (snd (ev p now a ctx))"
begin

lemma chain_inv: "list_all inv ps \<Longrightarrow> list_all inv (snd (evaluate_all ev clk ps a ctx))"
proof (induction ps arbitrary: clk)
  case Nil
  then show ?case by simp
next
  case (Cons p ps)
  have "inv (snd (ev p (clk 0) a ctx))" using Cons.prems by (auto intro: inv_evaluate)
  moreover have "list_all inv (snd (evaluate_all ev (\<lambda>i. clk (Suc i)) ps a ctx))"
    using Cons by simp
  ultimately show ?case using Cons.prems by (auto split: prod.splits decision.splits)
qed

end

lemma show_nat_no_dot: "CHR ''.'' \<notin> set (show_nat n)"
proof (induction n rule: show_nat.induct)
  case (1 n)
  have "digit_char d \<noteq> CHR ''.''" if "d < 10" for d
  proof
    assume "digit_char d = CHR ''.''"
    then have "of_char (digit_char d) = (of_char CHR ''.'' :: nat)" by simp
    with that show False by (simp add: digit_char_def)
  qed
  from this [of n] this [of "n mod 10"] 1 show ?case by (auto simp: show_nat.simps [of n])
qed

lemma append_sep_eq:
  assumes "c \<notin> set xs" "c \<notin> set xs'" and "xs @ c # ys = xs' @ c # ys'"
  shows "xs = xs' \<and> ys = ys'"
  using assms
proof (induction xs arbitrary: xs')
  case Nil
  then show ?case by (cases xs') auto
next
  case (Cons x xs)
  then show ?case by (cases xs') auto
qed

lemma show_v4_inj:
  assumes "show_v4 a b c d = show_v4 a' b' c' d'"
  shows "a = a' \<and> b = b' \<and> c = c' \<and> d = d'"
proof -
  note nd = show_nat_no_dot
  from assms have "show_nat (unat a) @ CHR ''.'' # (show_nat (unat b) @ CHR ''.'' # (show_nat (unat c) @ CHR ''.'' # show_nat (unat d)))
    = show_nat (unat a') @ CHR ''.'' # (show_nat (unat b') @ CHR ''.'' # (show_nat (unat c') @ CHR ''.'' # show_nat (unat d')))"
    by (simp add: show_v4_def)
  note s1 = append_sep_eq [OF nd nd this]
  note s2 = append_sep_eq [OF nd nd conjunct2 [OF s1]]
  note s3 = append_sep_eq [OF nd nd conjunct2 [OF s2]]
  from s1 s2 s3 show ?thesis by (metis show_nat_inj word_unat_eq_iff)
qed

text \<open>Identity namespaces: the identity of a peer depends on its address and not on its port,
  two IPv4 peers share an identity only when they share an address, two bind DNs only when they are
  equal, and no bind DN, however it is spelt, collides with any peer's identity.\<close>

theorem identity_namespaces:
  "from_peer_addr \<lparr>sock_ip = ip, sock_port = p\<rparr> = from_peer_addr \<lparr>sock_ip = ip, sock_port = q\<rparr>
   \<and> (from_peer_addr \<lparr>sock_ip = V4 a b c d, sock_port = p\<rparr>
        = from_peer_addr \<lparr>sock_ip = V4 a' b' c' d', sock_port = q\<rparr>
      \<longleftrightarrow> (a, b, c, d) = (a', b', c', d'))
   \<and> (from_bind_dn m = from_bind_dn n \<longleftrightarrow> m = n)
   \<and> from_bind_dn n \<noteq> from_peer_addr addr"
  by (auto simp: from_peer_addr_def from_bind_dn_def show_ip_def dest: show_v4_inj)

end
