(* ===== verification/Connector.thy ===== *)
theory Connector
  imports Policy_Core
begin

text \<open>
  core/connector.rs and core/net.rs: the \<open>Connector\<close> trait between raw bytes and normalized actions,
  the streams it reads, and the plain or TLS stream of either hop.

  A stream to read from is the bytes that arrive and how they end; \<open>read_exact\<close> is the only read the
  code makes. The trait is a record of functions; its contract, which the relay relies on, is the
  locale \<open>frame_connector\<close>.
\<close>

subsection \<open>Streams\<close>

datatype io_error = UnexpectedEof | OtherIo string

datatype stream_end = Eof | Broken string

record stream_in =
  incoming :: octets
  ending :: stream_end

text \<open>tokio's \<open>read_exact\<close>: all of the bytes or an error; what arrived before the error is gone.\<close>

definition read_exact :: "nat \<Rightarrow> stream_in \<Rightarrow> (io_error + octets) \<times> stream_in" where
  "read_exact n s =
     (if n \<le> length (incoming s) then (Inr (take n (incoming s)), s\<lparr>incoming := drop n (incoming s)\<rparr>)
      else (Inl (case ending s of Eof \<Rightarrow> UnexpectedEof | Broken e \<Rightarrow> OtherIo e), s\<lparr>incoming := []\<rparr>))"

text \<open>A stream of a connection that is plain or TLS delegates each poll to the one it is.\<close>

datatype ('p, 't) maybe_tls_stream = Plain 'p | Tls 't

type_synonym ('s, 'r) poll = "'s \<Rightarrow> 'r \<times> 's"

definition maybe_tls_poll :: "('p, 'r) poll \<Rightarrow> ('t, 'r) poll \<Rightarrow> (('p, 't) maybe_tls_stream, 'r) poll" where
  "maybe_tls_poll plain tls s =
     (case s of
        Plain p \<Rightarrow> (case plain p of (r, p') \<Rightarrow> (r, Plain p'))
      | Tls t \<Rightarrow> (case tls t of (r, t') \<Rightarrow> (r, Tls t')))"

definition mtls_poll_read where
  "mtls_poll_read plain tls = maybe_tls_poll plain tls"

definition mtls_poll_write ::
  "(octets \<Rightarrow> ('p, 'r) poll) \<Rightarrow> (octets \<Rightarrow> ('t, 'r) poll) \<Rightarrow> octets \<Rightarrow> (('p, 't) maybe_tls_stream, 'r) poll" where
  "mtls_poll_write plain tls buf = maybe_tls_poll (plain buf) (tls buf)"

definition mtls_poll_flush where
  "mtls_poll_flush plain tls = maybe_tls_poll plain tls"

definition mtls_poll_shutdown where
  "mtls_poll_shutdown plain tls = maybe_tls_poll plain tls"

subsection \<open>Errors\<close>

text \<open>The \<open>anyhow\<close> errors of a connection, one constructor per place that raises one; a context string
  is kept where the code attaches it.\<close>

datatype conn_error =
    Io io_error
  | Context string conn_error
  | BerError
  | UnsupportedLength nat
  | FrameTooLong nat
  | NoRejection
  | StartTlsClosed
  | StartTlsUnexpected
  | StartTlsRejected nat
  | TlsError
  | TimedOut duration

definition with_context :: "string \<Rightarrow> conn_error + 'a \<Rightarrow> conn_error + 'a" where
  "with_context c r = map_err (Context c) r"

subsection \<open>The trait\<close>

type_synonym message_id = "32 word"

record connector =
  read_frame :: "stream_in \<Rightarrow> (conn_error + octets option) \<times> stream_in"
  decode :: "octets \<Rightarrow> conn_error + action option"
  build_rejection :: "octets \<Rightarrow> string \<Rightarrow> conn_error + octets"
  upgrade_request :: "octets \<Rightarrow> conn_error + octets option"
  bind_request :: "octets \<Rightarrow> conn_error + (message_id \<times> string) option"
  bind_response :: "octets \<Rightarrow> conn_error + (message_id \<times> bool) option"

text \<open>The default bodies of the three optional hooks.\<close>

definition default_upgrade_request :: "octets \<Rightarrow> conn_error + octets option" where
  "default_upgrade_request frame = Inr None"

definition default_bind_request :: "octets \<Rightarrow> conn_error + (message_id \<times> string) option" where
  "default_bind_request frame = Inr None"

definition default_bind_response :: "octets \<Rightarrow> conn_error + (message_id \<times> bool) option" where
  "default_bind_response frame = Inr None"

subsection \<open>The contract\<close>

text \<open>What the relay relies on: reading a frame takes its bytes off the stream, all of them and no
  others, and reports a clean end only where nothing is left; a frame that claims an identity is not
  an action of its own; and an action that is decoded can be answered, the encoder permitting.\<close>

locale frame_connector =
  fixes C :: connector
    and encodes :: bool
  assumes frame_bytes: "read_frame C s = (Inr (Some f), s') \<Longrightarrow>
        f \<noteq> [] \<and> incoming s = f @ incoming s' \<and> ending s' = ending s"
    and clean_end: "read_frame C s = (Inr None, s') \<Longrightarrow> incoming s = [] \<and> ending s = Eof \<and> s' = s"
    and bind_forwarded: "bind_request C f = Inr (Some b) \<Longrightarrow> decode C f = Inr None"
    and rejectable: "encodes \<Longrightarrow> decode C f = Inr (Some a) \<Longrightarrow> is_ok (build_rejection C f r)"
begin

text \<open>Every frame taken shortens what is left, so a relay loop over finite input ends.\<close>

lemma frame_shortens: "read_frame C s = (Inr (Some f), s') \<Longrightarrow> length (incoming s') < length (incoming s)"
  using frame_bytes by fastforce

end

end
