(* ===== verification/Upstream_Pool.thy ===== *)
theory Upstream_Pool
  imports Policy_Core "HOL-Library.Multiset"
begin

text \<open>
  core/upstream_pool.rs: the targets a connector balances its connections over.

  The pool keeps, per target, the number of live connections (an \<open>AtomicUsize\<close>, a 64 bit word that
  wraps) and the end of its failure cooldown. \<open>candidates\<close> orders all targets, the healthy ones first
  by the configured strategy; \<open>mark_failed\<close> starts a cooldown, \<open>mark_connected\<close> ends it and counts the
  connection, and dropping the guard it returned uncounts it. An index out of range and an overflow of
  the clock panic in the code; these are the value \<^const>\<open>None\<close>.

  Shown: the order is a permutation with the healthy targets in front, round robin gives each healthy
  target its turn, least connections sorts, a failed target is passed over for its cooldown and no
  longer, and the counts are the numbers of live guards in every reachable state.
\<close>

subsection \<open>State\<close>

definition DEFAULT_FAILURE_COOLDOWN_SECS :: nat where
  "DEFAULT_FAILURE_COOLDOWN_SECS = 30"

datatype load_balance_strategy = RoundRobin | Random | LeastConnections

definition default_strategy :: load_balance_strategy where
  "default_strategy = RoundRobin"

type_synonym usize = "64 word"

record upstream_target =
  t_addr :: socket_addr
  active_connections :: usize
  down_until :: "instant option"

record candidate =
  index :: nat
  c_addr :: socket_addr

record upstream_pool =
  targets :: "upstream_target list"
  strategy :: load_balance_strategy
  cooldown :: duration
  round_robin_counter :: usize

definition pool_new :: "socket_addr list \<Rightarrow> load_balance_strategy \<Rightarrow> duration \<Rightarrow> upstream_pool option" where
  "pool_new addrs s cd =
     (if addrs = [] then None
      else Some \<lparr>targets = map (\<lambda>a. \<lparr>t_addr = a, active_connections = 0, down_until = None\<rparr>) addrs,
                 strategy = s, cooldown = cd, round_robin_counter = 0\<rparr>)"

subsection \<open>Operations\<close>

text \<open>\<open>now\<close> is the clock reading of the call.\<close>

definition is_healthy :: "upstream_pool \<Rightarrow> instant \<Rightarrow> nat \<Rightarrow> bool" where
  "is_healthy p now i =
     (case down_until (targets p ! i) of None \<Rightarrow> True | Some until \<Rightarrow> now \<ge> until)"

text \<open>Each target is checked with a reading \<open>clk i\<close> of its own; \<open>shuffle\<close> is the random permutation
  \<open>rand\<close> applies.\<close>

definition candidates ::
  "(nat \<Rightarrow> instant) \<Rightarrow> (nat list \<Rightarrow> nat list) \<Rightarrow> upstream_pool \<Rightarrow> candidate list \<times> upstream_pool" where
  "candidates clk shuffle p =
     (let ids = [0..<length (targets p)];
          healthy = filter (\<lambda>i. is_healthy p (clk i) i) ids;
          down = filter (\<lambda>i. \<not> is_healthy p (clk i) i) ids;
          (order, p') =
            (case strategy p of
               RoundRobin \<Rightarrow>
                 if healthy \<noteq> [] then
                   (rotate (unat (round_robin_counter p) mod length healthy) healthy,
                    p\<lparr>round_robin_counter := round_robin_counter p + 1\<rparr>)
                 else (healthy, p)
             | Random \<Rightarrow> (shuffle healthy, p)
             | LeastConnections \<Rightarrow> (sort_key (\<lambda>i. unat (active_connections (targets p ! i))) healthy, p))
      in (map (\<lambda>i. \<lparr>index = i, c_addr = t_addr (targets p ! i)\<rparr>) (order @ down), p'))"

text \<open>The first component says whether the transition from healthy to down is logged.\<close>

definition mark_failed :: "instant \<Rightarrow> instant \<Rightarrow> nat \<Rightarrow> upstream_pool \<Rightarrow> (bool \<times> upstream_pool) option" where
  "mark_failed now1 now2 i p =
     (if i < length (targets p) then
        let t = targets p ! i;
            was_healthy = (case down_until t of None \<Rightarrow> True | Some until \<Rightarrow> now1 \<ge> until)
        in (case instant_checked_add now2 (cooldown p) of
              None \<Rightarrow> None
            | Some until \<Rightarrow> Some (was_healthy, p\<lparr>targets := (targets p)[i := t\<lparr>down_until := Some until\<rparr>]\<rparr>))
      else None)"

text \<open>\<open>mark_connected\<close> returns whether recovery is logged, the count it publishes and the pool; the
  guard is the index.\<close>

definition mark_connected :: "instant \<Rightarrow> nat \<Rightarrow> upstream_pool \<Rightarrow> (bool \<times> usize \<times> upstream_pool) option" where
  "mark_connected now i p =
     (if i < length (targets p) then
        let t = targets p ! i;
            was_down = (case down_until t of None \<Rightarrow> False | Some until \<Rightarrow> now < until);
            n = active_connections t + 1
        in Some (was_down, n, p\<lparr>targets := (targets p)[i := t\<lparr>down_until := None, active_connections := n\<rparr>]\<rparr>)
      else None)"

definition guard_drop :: "nat \<Rightarrow> upstream_pool \<Rightarrow> (usize \<times> upstream_pool) option" where
  "guard_drop i p =
     (if i < length (targets p) then
        let t = targets p ! i; n = active_connections t - 1
        in Some (n, p\<lparr>targets := (targets p)[i := t\<lparr>active_connections := n\<rparr>]\<rparr>)
      else None)"

subsection \<open>The order of candidates\<close>

definition healthy_ids :: "(nat \<Rightarrow> instant) \<Rightarrow> upstream_pool \<Rightarrow> nat list" where
  "healthy_ids clk p = filter (\<lambda>i. is_healthy p (clk i) i) [0..<length (targets p)]"

definition down_ids :: "(nat \<Rightarrow> instant) \<Rightarrow> upstream_pool \<Rightarrow> nat list" where
  "down_ids clk p = filter (\<lambda>i. \<not> is_healthy p (clk i) i) [0..<length (targets p)]"

definition order_healthy :: "(nat list \<Rightarrow> nat list) \<Rightarrow> upstream_pool \<Rightarrow> nat list \<Rightarrow> nat list" where
  "order_healthy shuffle p hs =
     (case strategy p of
        RoundRobin \<Rightarrow> rotate (unat (round_robin_counter p) mod length hs) hs
      | Random \<Rightarrow> shuffle hs
      | LeastConnections \<Rightarrow> sort_key (\<lambda>i. unat (active_connections (targets p ! i))) hs)"

lemma candidates_order:
  "map index (fst (candidates clk shuffle p)) = order_healthy shuffle p (healthy_ids clk p) @ down_ids clk p"
  by (auto simp: candidates_def Let_def order_healthy_def healthy_ids_def down_ids_def comp_def
      split: load_balance_strategy.splits)

lemma candidates_addr:
  "c \<in> set (fst (candidates clk shuffle p)) \<Longrightarrow> c_addr c = t_addr (targets p ! index c)"
  by (auto simp: candidates_def Let_def split: prod.splits)

lemma candidates_targets [simp]:
  "targets (snd (candidates clk shuffle p)) = targets p"
  "strategy (snd (candidates clk shuffle p)) = strategy p"
  "cooldown (snd (candidates clk shuffle p)) = cooldown p"
  by (auto simp: candidates_def Let_def split: load_balance_strategy.splits)

lemma mset_rotate [simp]: "mset (rotate n xs) = mset xs"
proof (induction n)
  case (Suc n)
  have "mset (rotate1 ys) = mset ys" for ys :: "'a list" by (cases ys) simp_all
  with Suc show ?case by simp
qed simp

lemma mset_order_healthy:
  assumes "\<And>xs. mset (shuffle xs) = mset xs"
  shows "mset (order_healthy shuffle p hs) = mset hs"
  by (cases "strategy p") (simp_all add: order_healthy_def assms)

lemma mset_candidates:
  assumes "\<And>xs. mset (shuffle xs) = mset xs"
  shows "mset (map index (fst (candidates clk shuffle p))) = mset [0..<length (targets p)]"
  unfolding candidates_order mset_append mset_order_healthy [OF assms] healthy_ids_def down_ids_def
  by (metis mset_filter multiset_partition)

subsection \<open>The interface a dialler relies on\<close>

text \<open>Whoever walks the candidates and stops at the first one that answers reaches a target whenever
  one can be reached, and tries none twice.\<close>

locale target_pool =
  fixes cands :: "'env \<Rightarrow> 'p \<Rightarrow> nat list"
    and size_of :: "'p \<Rightarrow> nat"
    and ok :: "'env \<Rightarrow> bool"
  assumes all_targets: "ok env \<Longrightarrow> mset (cands env p) = mset [0..<size_of p]"
begin

lemma cands_distinct: "ok env \<Longrightarrow> distinct (cands env p)"
  using all_targets by (metis distinct_upt mset_eq_imp_distinct_iff)

lemma cands_set: "ok env \<Longrightarrow> set (cands env p) = {..<size_of p}"
  using all_targets [of env p] by (metis atLeast0LessThan atLeast_upt mset_eq_setD set_upt)

lemma cands_length: "ok env \<Longrightarrow> length (cands env p) = size_of p"
  using all_targets [of env p] by (metis diff_zero length_upt size_mset)

lemma some_answers: "ok env \<Longrightarrow> (\<exists>i \<in> set (cands env p). up i) \<longleftrightarrow> (\<exists>i < size_of p. up i)"
  using cands_set by auto

lemma cands_nonempty: "ok env \<Longrightarrow> size_of p > 0 \<Longrightarrow> cands env p \<noteq> []"
  using cands_length [of env p] by auto

end

definition permutes_lists :: "(nat list \<Rightarrow> nat list) \<Rightarrow> bool" where
  "permutes_lists f \<longleftrightarrow> (\<forall>xs. mset (f xs) = mset xs)"

interpretation pool: target_pool
  "\<lambda>(clk, shuffle) p. map index (fst (candidates clk shuffle p))"
  "\<lambda>p. length (targets p)" "\<lambda>(clk, shuffle). permutes_lists shuffle"
  using mset_candidates by unfold_locales (auto simp: permutes_lists_def simp del: mset_map mset_upt)

subsection \<open>Turns\<close>

text \<open>\<open>n\<close> calls of \<open>candidates\<close> one after the other while no target fails or recovers.\<close>

fun first_choices :: "(nat \<Rightarrow> instant) \<Rightarrow> (nat list \<Rightarrow> nat list) \<Rightarrow> nat \<Rightarrow> upstream_pool \<Rightarrow> nat list" where
  "first_choices clk shuffle 0 p = []"
| "first_choices clk shuffle (Suc n) p =
     (case candidates clk shuffle p of (cs, p') \<Rightarrow> index (hd cs) # first_choices clk shuffle n p')"

lemma candidates_round_robin:
  assumes "strategy p = RoundRobin" "healthy_ids clk p \<noteq> []"
  shows "snd (candidates clk shuffle p) = p\<lparr>round_robin_counter := round_robin_counter p + 1\<rparr>"
    and "index (hd (fst (candidates clk shuffle p)))
       = healthy_ids clk p ! (unat (round_robin_counter p) mod length (healthy_ids clk p))"
proof -
  let ?h = "healthy_ids clk p" and ?c = "unat (round_robin_counter p)"
  show "snd (candidates clk shuffle p) = p\<lparr>round_robin_counter := round_robin_counter p + 1\<rparr>"
    using assms by (simp add: candidates_def Let_def healthy_ids_def)
  have "map index (fst (candidates clk shuffle p)) = rotate (?c mod length ?h) ?h @ down_ids clk p"
    unfolding candidates_order by (simp add: order_healthy_def assms(1))
  then have "index (hd (fst (candidates clk shuffle p))) = hd (rotate (?c mod length ?h) ?h)"
    using assms(2) by (metis append_is_Nil_conv hd_append hd_map list.map_disc_iff rotate_is_Nil_conv)
  then show "index (hd (fst (candidates clk shuffle p))) = ?h ! (?c mod length ?h)"
    using assms(2) by (simp add: hd_rotate_conv_nth)
qed

lemma healthy_ids_counter [simp]: "healthy_ids clk (p\<lparr>round_robin_counter := c\<rparr>) = healthy_ids clk p"
  by (simp add: healthy_ids_def is_healthy_def)

lemma first_choices_round_robin:
  assumes "strategy p = RoundRobin" "healthy_ids clk p \<noteq> []" "unat (round_robin_counter p) + n \<le> 2 ^ 64"
  shows "first_choices clk shuffle n p
     = map (\<lambda>j. healthy_ids clk p ! ((unat (round_robin_counter p) + j) mod length (healthy_ids clk p))) [0..<n]"
  using assms
proof (induction n arbitrary: p)
  case (Suc n)
  let ?q = "p\<lparr>round_robin_counter := round_robin_counter p + 1\<rparr>"
  note rr = candidates_round_robin [OF Suc.prems(1,2), of shuffle]
  have cs: "first_choices clk shuffle (Suc n) p = index (hd (fst (candidates clk shuffle p))) # first_choices clk shuffle n ?q"
    using rr(1) by (auto split: prod.splits)
  show ?case
  proof (cases n)
    case 0
    then show ?thesis using cs rr(2) by simp
  next
    case (Suc m)
    have "unat (round_robin_counter p) + 1 < 2 ^ 64" using Suc.prems(3) Suc by simp
    then have c: "unat (round_robin_counter p + 1) = unat (round_robin_counter p) + 1"
      by (simp add: unat_word_ariths)
    have "first_choices clk shuffle n ?q
       = map (\<lambda>j. healthy_ids clk p ! ((unat (round_robin_counter p) + 1 + j) mod length (healthy_ids clk p))) [0..<n]"
      using Suc.IH [of ?q] Suc.prems c by simp
    then show ?thesis using cs rr(2) by (simp add: upt_conv_Cons flip: map_Suc_upt del: upt_Suc)
  qed
qed simp

subsection \<open>Live connections\<close>

text \<open>The pool and the guards alive, under any sequence of calls from any connection.\<close>

inductive pool_reach :: "socket_addr list \<Rightarrow> upstream_pool \<Rightarrow> nat multiset \<Rightarrow> bool" for addrs where
  pool_start: "pool_new addrs s cd = Some p \<Longrightarrow> pool_reach addrs p {#}"
| pool_select: "pool_reach addrs p G \<Longrightarrow> pool_reach addrs (snd (candidates clk shuffle p)) G"
| pool_fail: "pool_reach addrs p G \<Longrightarrow> mark_failed now1 now2 i p = Some (logged, p') \<Longrightarrow> pool_reach addrs p' G"
| pool_connect: "pool_reach addrs p G \<Longrightarrow> mark_connected now i p = Some (logged, n, p')
     \<Longrightarrow> pool_reach addrs p' (add_mset i G)"
| pool_close: "pool_reach addrs p G \<Longrightarrow> i \<in># G \<Longrightarrow> guard_drop i p = Some (n, p') \<Longrightarrow> pool_reach addrs p' (G - {#i#})"

definition counts_live :: "socket_addr list \<Rightarrow> upstream_pool \<Rightarrow> nat multiset \<Rightarrow> bool" where
  "counts_live addrs p G \<longleftrightarrow> map t_addr (targets p) = addrs \<and> addrs \<noteq> []
     \<and> (\<forall>i < length addrs. active_connections (targets p ! i) = of_nat (count G i))
     \<and> set_mset G \<subseteq> {..<length addrs}"

lemma counts_live_length: "counts_live addrs p G \<Longrightarrow> length (targets p) = length addrs"
  by (auto simp: counts_live_def)

lemma counts_live_fail:
  "counts_live addrs p G \<Longrightarrow> mark_failed now1 now2 i p = Some (logged, p') \<Longrightarrow> counts_live addrs p' G"
  by (auto simp: counts_live_def mark_failed_def Let_def map_update nth_list_update
      split: if_splits option.splits intro!: list_update_same_conv [THEN iffD2])

lemma counts_live_connect:
  assumes "counts_live addrs p G" "mark_connected now i p = Some (logged, n, p')"
  shows "counts_live addrs p' (add_mset i G)"
  using assms counts_live_length [OF assms(1)]
  by (auto simp: counts_live_def mark_connected_def Let_def map_update nth_list_update
      split: if_splits intro!: list_update_same_conv [THEN iffD2])

lemma counts_live_close:
  assumes "counts_live addrs p G" "i \<in># G" "guard_drop i p = Some (n, p')"
  shows "counts_live addrs p' (G - {#i#})"
proof -
  have "of_nat (count G i - 1) = (of_nat (count G i) - 1 :: usize)"
    using assms(2) by (simp add: of_nat_diff Suc_le_eq)
  then show ?thesis
    using assms counts_live_length [OF assms(1)]
    by (auto simp: counts_live_def guard_drop_def Let_def map_update nth_list_update
        split: if_splits intro!: list_update_same_conv [THEN iffD2] dest: in_diffD)
qed

lemma pool_reach_counts: "pool_reach addrs p G \<Longrightarrow> counts_live addrs p G"
proof (induction rule: pool_reach.induct)
  case (pool_start s cd p)
  then show ?case by (auto simp: pool_new_def counts_live_def comp_def split: if_splits)
next
  case (pool_select p G clk shuffle)
  then show ?case by (simp add: counts_live_def)
qed (blast intro: counts_live_fail counts_live_connect counts_live_close)+

subsection \<open>Properties\<close>

text \<open>C24 The order of candidates: every configured target exactly once, the healthy ones first, the
  ones in their cooldown after them in configuration order, each with its own address.\<close>

theorem candidates_permutation:
  assumes "permutes_lists shuffle"
  shows "mset (map index (fst (candidates clk shuffle p))) = mset [0..<length (targets p)]
    \<and> (\<exists>hs. map index (fst (candidates clk shuffle p)) = hs @ down_ids clk p \<and> mset hs = mset (healthy_ids clk p))
    \<and> (\<forall>c \<in> set (fst (candidates clk shuffle p)). c_addr c = t_addr (targets p ! index c))"
  using mset_candidates [of shuffle clk p] mset_order_healthy [of shuffle] candidates_order candidates_addr assms
  unfolding permutes_lists_def by blast

definition demo_addr :: "16 word \<Rightarrow> socket_addr" where
  "demo_addr port = \<lparr>sock_ip = V4 127 0 0 1, sock_port = port\<rparr>"

definition demo_pool :: "load_balance_strategy \<Rightarrow> upstream_pool" where
  "demo_pool s = \<lparr>targets = [\<lparr>t_addr = demo_addr 1, active_connections = 4, down_until = None\<rparr>,
      \<lparr>t_addr = demo_addr 2, active_connections = 0, down_until = Some 90\<rparr>,
      \<lparr>t_addr = demo_addr 3, active_connections = 2, down_until = Some 10\<rparr>],
    strategy = s, cooldown = 30, round_robin_counter = 0\<rparr>"

theorem candidates_permutation_witness:
  "mset (map index (fst (candidates (\<lambda>_. 20) rev (demo_pool Random)))) = mset [0, 1, 2]
   \<and> map index (fst (candidates (\<lambda>_. 20) rev (demo_pool Random))) = [2, 0, 1]"
proof -
  have "permutes_lists rev" by (simp add: permutes_lists_def)
  moreover have "map index (fst (candidates (\<lambda>_. 20) rev (demo_pool Random))) = [2, 0, 1]" by code_simp
  ultimately show ?thesis
    using candidates_permutation [of rev "\<lambda>_. 20" "demo_pool Random"] by (simp add: demo_pool_def upt_rec)
qed

text \<open>C31 Round robin is fair: over as many consecutive selections as there are healthy targets, each
  healthy target is the first choice exactly once, wherever the counter stands, as long as it does
  not wrap on the way.\<close>

theorem round_robin_fair:
  assumes "strategy p = RoundRobin" "healthy_ids clk p \<noteq> []"
    and "unat (round_robin_counter p) + length (healthy_ids clk p) \<le> 2 ^ 64"
  shows "mset (first_choices clk shuffle (length (healthy_ids clk p)) p) = mset (healthy_ids clk p)"
proof -
  let ?h = "healthy_ids clk p" and ?c = "unat (round_robin_counter p)"
  have "first_choices clk shuffle (length ?h) p = rotate ?c ?h"
    unfolding first_choices_round_robin [OF assms]
    by (intro nth_equalityI) (simp_all add: nth_rotate add.commute)
  then show ?thesis by simp
qed

theorem round_robin_fair_witness:
  "mset (first_choices (\<lambda>_. 20) id 2 (demo_pool RoundRobin)) = mset [0, 2]"
proof -
  have h: "healthy_ids (\<lambda>_. 20) (demo_pool RoundRobin) = [0, 2]" by code_simp
  have "unat (round_robin_counter (demo_pool RoundRobin)) + 2 \<le> 2 ^ 64" "strategy (demo_pool RoundRobin) = RoundRobin"
    by (simp_all add: demo_pool_def)
  with round_robin_fair [of "demo_pool RoundRobin" "\<lambda>_. 20" id] h show ?thesis by (simp add: numeral_2_eq_2)
qed

text \<open>Least connections: the healthy targets come in the order of their active connections.\<close>

theorem least_connections_sorted:
  assumes "strategy p = LeastConnections"
  shows "\<exists>hs. map index (fst (candidates clk shuffle p)) = hs @ down_ids clk p
           \<and> mset hs = mset (healthy_ids clk p)
           \<and> sorted (map (\<lambda>i. unat (active_connections (targets p ! i))) hs)"
  unfolding candidates_order by (simp add: order_healthy_def assms)

theorem least_connections_sorted_witness:
  "\<exists>hs. map index (fst (candidates (\<lambda>_. 20) id (demo_pool LeastConnections))) = hs @ [1]
      \<and> sorted (map (\<lambda>i. unat (active_connections (targets (demo_pool LeastConnections) ! i))) hs)"
proof -
  have "down_ids (\<lambda>_. 20) (demo_pool LeastConnections) = [1]" by code_simp
  then show ?thesis
    using least_connections_sorted [of "demo_pool LeastConnections" "\<lambda>_. 20" id] by (auto simp: demo_pool_def)
qed

text \<open>Passive health: a target whose dial failed is out of the healthy tier for every reading of the
  clock before the end of its cooldown and back in it from then on, no other target is affected, and
  a successful dial brings a target back at once.\<close>

theorem cooldown_exact:
  assumes "mark_failed now1 now2 i p = Some (logged, p')" "mark_connected now3 i p' = Some (logged', n, p'')"
  shows "(is_healthy p' t i \<longleftrightarrow> now2 + int (cooldown p) \<le> t)
    \<and> is_healthy p'' t i
    \<and> (\<forall>j. j \<noteq> i \<longrightarrow> is_healthy p' t j = is_healthy p t j \<and> is_healthy p'' t j = is_healthy p t j)"
proof -
  from assms(1) have i: "i < length (targets p)"
    and p': "targets p' = (targets p)[i := (targets p ! i)\<lparr>down_until := Some (now2 + int (cooldown p))\<rparr>]"
    by (auto simp: mark_failed_def instant_checked_add_def Let_def split: if_splits)
  from assms(2) have p'': "targets p'' = (targets p')[i := (targets p' ! i)\<lparr>down_until := None, active_connections := n\<rparr>]"
    by (auto simp: mark_connected_def Let_def split: if_splits)
  from i show ?thesis by (simp add: is_healthy_def p'' p')
qed

theorem cooldown_exact_witness:
  "\<exists>l p'. mark_failed 20 21 0 (demo_pool Random) = Some (l, p') \<and> \<not> is_healthy p' 50 0 \<and> is_healthy p' 51 0"
proof -
  obtain l p' where f: "mark_failed 20 21 0 (demo_pool Random) = Some (l, p')"
    by (auto simp: mark_failed_def demo_pool_def instant_checked_add_def instant_range_def i64_range_def)
  then have "length (targets p') = 3" by (auto simp: mark_failed_def demo_pool_def Let_def split: option.splits)
  then obtain l' n p'' where "mark_connected 30 0 p' = Some (l', n, p'')"
    by (auto simp: mark_connected_def Let_def)
  note cooldown_exact [OF f this]
  from this [of 50] this [of 51] f show ?thesis by (auto simp: demo_pool_def)
qed

text \<open>C12 The connection counts are exact: in every state the pool can reach, whatever the order of
  selections, failures, connections and closed connections, each target's count is the number of live
  guards on it, the configured addresses are unchanged and there is at least one target.\<close>

theorem active_connections_exact:
  assumes "pool_reach addrs p G" "i < length addrs" "count G i < 2 ^ 64"
  shows "unat (active_connections (targets p ! i)) = count G i
    \<and> map t_addr (targets p) = addrs \<and> targets p \<noteq> []"
  using pool_reach_counts [OF assms(1)] assms(2,3)
  by (auto simp: counts_live_def unat_of_nat)

theorem active_connections_exact_witness:
  "\<exists>p. pool_reach [demo_addr 1, demo_addr 2] p {#1, 1#} \<and> unat (active_connections (targets p ! 1)) = 2"
proof -
  let ?A = "[demo_addr 1, demo_addr 2]"
  obtain p0 where p0: "pool_new ?A RoundRobin 30 = Some p0" by (simp add: pool_new_def)
  then have r0: "pool_reach ?A p0 {#}" by (rule pool_start)
  have "length (targets p0) = 2" using p0 by (auto simp: pool_new_def)
  then obtain l1 n1 p1 where "mark_connected 5 1 p0 = Some (l1, n1, p1)"
    by (auto simp: mark_connected_def Let_def)
  from pool_connect [OF r0 this] have r1: "pool_reach ?A p1 {#1#}" by simp
  then have "length (targets p1) = 2" using pool_reach_counts counts_live_length by fastforce
  then obtain l2 n2 p2 where "mark_connected 6 1 p1 = Some (l2, n2, p2)"
    by (auto simp: mark_connected_def Let_def)
  from pool_connect [OF r1 this] have r2: "pool_reach ?A p2 {#1, 1#}" by simp
  from active_connections_exact [OF r2, of 1] r2 show ?thesis by auto
qed

end
