(* ===== verification/Rust_Text.thy ===== *)
theory Rust_Text
  imports Prelude
begin

text \<open>
  The text functions of the Rust standard library that the LDAP connector uses: UTF-8 validation and
  lossy decoding, trimming of white space, lower casing, parsing of a \<open>u32\<close>, searching and splitting.

  A \<open>&str\<close> is the list of its UTF-8 bytes. Lower casing is written out for ASCII; on text with a
  non-ASCII character it is the function \<open>unicode\<close>, which stands for the Unicode tables.
\<close>

definition bytes_of_string :: "string \<Rightarrow> octets" where
  "bytes_of_string s = map (\<lambda>c. word_of_nat (of_char c)) s"

definition string_of_bytes :: "octets \<Rightarrow> string" where
  "string_of_bytes bs = map (\<lambda>b. char_of (unat b)) bs"

subsection \<open>UTF-8\<close>

definition utf8_width :: "nat \<Rightarrow> nat" where
  "utf8_width b =
     (if b < 0x80 then 1 else if 0xC2 \<le> b \<and> b \<le> 0xDF then 2 else if 0xE0 \<le> b \<and> b \<le> 0xEF then 3
      else if 0xF0 \<le> b \<and> b \<le> 0xF4 then 4 else 0)"

definition utf8_cont :: "nat \<Rightarrow> bool" where
  "utf8_cont b \<longleftrightarrow> 0x80 \<le> b \<and> b \<le> 0xBF"

definition utf8_second :: "nat \<Rightarrow> nat \<Rightarrow> bool" where
  "utf8_second b0 b1 \<longleftrightarrow>
     (if b0 = 0xE0 then 0xA0 \<le> b1 \<and> b1 \<le> 0xBF else if b0 = 0xED then 0x80 \<le> b1 \<and> b1 \<le> 0x9F
      else if b0 = 0xF0 then 0x90 \<le> b1 \<and> b1 \<le> 0xBF else if b0 = 0xF4 then 0x80 \<le> b1 \<and> b1 \<le> 0x8F
      else utf8_cont b1)"

text \<open>The first piece of a byte sequence: a whole character, or the longest invalid part that is
  replaced as one.\<close>

definition utf8_chunk :: "nat list \<Rightarrow> bool \<times> nat" where
  "utf8_chunk bs =
     (let w = utf8_width (bs ! 0); has = (\<lambda>i P. i < length bs \<and> P (bs ! i)) in
      if w = 0 then (False, 1)
      else if w = 1 then (True, 1)
      else if \<not> has 1 (utf8_second (bs ! 0)) then (False, 1)
      else if w = 2 then (True, 2)
      else if \<not> has 2 utf8_cont then (False, 2)
      else if w = 3 then (True, 3)
      else if \<not> has 3 utf8_cont then (False, 3)
      else (True, 4))"

lemma utf8_chunk_pos [simp]: "snd (utf8_chunk bs) > 0"
  by (simp add: utf8_chunk_def Let_def)

function utf8_chunks :: "nat list \<Rightarrow> (bool \<times> nat list) list" where
  "utf8_chunks [] = []"
| "utf8_chunks (b # bs) =
     (let (ok, n) = utf8_chunk (b # bs) in (ok, take n (b # bs)) # utf8_chunks (drop n (b # bs)))"
  by pat_completeness auto

termination
proof (relation "measure length", goal_cases)
  case (2 b bs x ok n)
  then have "n > 0" using utf8_chunk_pos [of "b # bs"] by (metis snd_conv)
  then show ?case by simp
qed simp

definition from_utf8 :: "octets \<Rightarrow> string option" where
  "from_utf8 bs =
     (if list_all fst (utf8_chunks (map unat bs)) then Some (string_of_bytes bs) else None)"

definition from_utf8_lossy :: "octets \<Rightarrow> string" where
  "from_utf8_lossy bs =
     concat (map (\<lambda>(ok, piece). if ok then map char_of piece else map char_of [0xEF, 0xBF, 0xBD :: nat])
       (utf8_chunks (map unat bs)))"

subsection \<open>White space\<close>

text \<open>The characters with the property \<open>White_Space\<close>, encoded.\<close>

definition white_space :: "string list" where
  "white_space = map (map char_of)
     ([[9], [10], [11], [12], [13], [32], [0xC2, 0x85], [0xC2, 0xA0], [0xE1, 0x9A, 0x80]]
      @ map (\<lambda>i. [0xE2, 0x80, 0x80 + i]) [0..<11]
      @ [[0xE2, 0x80, 0xA8], [0xE2, 0x80, 0xA9], [0xE2, 0x80, 0xAF], [0xE2, 0x81, 0x9F], [0xE3, 0x80, 0x80 :: nat]])"

definition starts_with :: "string \<Rightarrow> string \<Rightarrow> bool" where
  "starts_with s p \<longleftrightarrow> take (length p) s = p"

function strip_all :: "string list \<Rightarrow> string \<Rightarrow> string" where
  "strip_all ps s =
     (case find (\<lambda>p. p \<noteq> [] \<and> starts_with s p) ps of
        None \<Rightarrow> s
      | Some p \<Rightarrow> strip_all ps (drop (length p) s))"
  by pat_completeness auto

termination
proof (relation "measure (length \<circ> snd)", goal_cases)
  case (2 ps s p)
  then have "p \<noteq> []" "take (length p) s = p" by (auto simp: find_Some_iff starts_with_def)
  then show ?case by (cases s) auto
qed simp

declare strip_all.simps [simp del]

definition trim :: "string \<Rightarrow> string" where
  "trim s = rev (strip_all (map rev white_space) (rev (strip_all white_space s)))"

subsection \<open>Case, numbers, searching\<close>

definition is_ascii :: "string \<Rightarrow> bool" where
  "is_ascii s = list_all (\<lambda>c. of_char c < (128 :: nat)) s"

definition ascii_lower :: "char \<Rightarrow> char" where
  "ascii_lower c = (let n = of_char c :: nat in if 65 \<le> n \<and> n \<le> 90 then char_of (n + 32) else c)"

definition to_lowercase :: "(string \<Rightarrow> string) \<Rightarrow> string \<Rightarrow> string" where
  "to_lowercase unicode s = (if is_ascii s then map ascii_lower s else unicode s)"

fun digits_value :: "nat \<Rightarrow> string \<Rightarrow> nat option" where
  "digits_value acc [] = Some acc"
| "digits_value acc (c # cs) =
     (let d = of_char c in
      if 48 \<le> d \<and> d \<le> (57 :: nat) then digits_value (10 * acc + (d - 48)) cs else None)"

text \<open>\<open>str::parse::<u32>\<close>: an optional plus sign, at least one digit, no overflow.\<close>

definition parse_u32 :: "string \<Rightarrow> 32 word option" where
  "parse_u32 s =
     (let ds = (case s of c # cs \<Rightarrow> if c = CHR ''+'' then cs else s | [] \<Rightarrow> s) in
      if ds = [] then None
      else case digits_value 0 ds of
             None \<Rightarrow> None
           | Some n \<Rightarrow> if n < 2 ^ 32 then Some (word_of_nat n) else None)"

text \<open>\<open>str::find\<close> of a text and \<open>str::rfind\<close> of a character, as byte positions.\<close>

fun find_str :: "string \<Rightarrow> string \<Rightarrow> nat option" where
  "find_str p [] = (if p = [] then Some 0 else None)"
| "find_str p (c # cs) = (if starts_with (c # cs) p then Some 0 else map_option Suc (find_str p cs))"

fun rfind_char :: "char \<Rightarrow> string \<Rightarrow> nat option" where
  "rfind_char x [] = None"
| "rfind_char x (c # cs) =
     (case rfind_char x cs of Some n \<Rightarrow> Some (Suc n) | None \<Rightarrow> if c = x then Some 0 else None)"

definition split_first :: "char \<Rightarrow> string \<Rightarrow> string" where
  "split_first x s = takeWhile (\<lambda>c. c \<noteq> x) s"

subsection \<open>Lemmas\<close>

lemma ascii_lower_idem [simp]: "ascii_lower (ascii_lower c) = ascii_lower c"
  by (simp add: ascii_lower_def Let_def of_char_of)

lemma ascii_lower_not_upper: "\<not> (65 \<le> (of_char (ascii_lower c) :: nat) \<and> (of_char (ascii_lower c) :: nat) \<le> 90)"
  by (simp add: ascii_lower_def Let_def of_char_of)

lemma is_ascii_lower [simp]: "is_ascii (map ascii_lower s) = is_ascii s"
  by (induction s) (auto simp: is_ascii_def ascii_lower_def Let_def of_char_of)

lemma to_lowercase_ascii [simp]: "is_ascii s \<Longrightarrow> to_lowercase u s = map ascii_lower s"
  by (simp add: to_lowercase_def)

lemma find_str_Some: "find_str p s = Some n \<Longrightarrow> starts_with (drop n s) p \<and> n \<le> length s"
  by (induction p s arbitrary: n rule: find_str.induct) (auto simp: starts_with_def split: if_splits)

lemma find_str_first: "find_str p s = Some n \<Longrightarrow> m < n \<Longrightarrow> \<not> starts_with (drop m s) p"
proof (induction p s arbitrary: n m rule: find_str.induct)
  case (2 p c cs)
  then show ?case by (cases m) (auto split: if_splits)
qed (simp split: if_splits)

lemma rfind_char_None: "rfind_char x s = None \<longleftrightarrow> x \<notin> set s"
  by (induction s) (auto split: option.splits)

lemma rfind_char_Some: "rfind_char x s = Some n \<Longrightarrow> n < length s \<and> s ! n = x \<and> x \<notin> set (drop (Suc n) s)"
proof (induction x s arbitrary: n rule: rfind_char.induct)
  case (2 x c cs)
  then show ?case
  proof (cases "rfind_char x cs")
    case None
    then have "x \<notin> set cs" by (simp add: rfind_char_None)
    with None "2.prems" show ?thesis by (auto split: if_splits)
  qed auto
qed simp

end
