(* ===== verification/Observe.thy ===== *)
theory Observe
  imports Upstream_Pool Rust_Text
begin

text \<open>
  core/audit.rs and core/metrics.rs: what a decision leaves in the log and in the counters.

  The recorder behind the \<open>metrics\<close> facade is modelled by its registry: counters are 64 bit words,
  gauges numbers, and the one histogram the list of what was recorded. Names and labels are the ones
  the code uses.
\<close>

subsection \<open>The audit log\<close>

definition MAX_LOGGED_FIELD_LEN :: nat where
  "MAX_LOGGED_FIELD_LEN = 512"

definition is_char_boundary :: "string \<Rightarrow> nat \<Rightarrow> bool" where
  "is_char_boundary s i \<longleftrightarrow>
     i = 0 \<or> i = length s \<or> (i < length s \<and> \<not> utf8_cont (of_char (s ! i)))"

fun boundary_below :: "string \<Rightarrow> nat \<Rightarrow> nat" where
  "boundary_below s 0 = 0"
| "boundary_below s (Suc i) = (if is_char_boundary s (Suc i) then Suc i else boundary_below s i)"

definition truncate_for_log :: "string \<Rightarrow> string" where
  "truncate_for_log value =
     (if length value \<le> MAX_LOGGED_FIELD_LEN then value
      else take (boundary_below value MAX_LOGGED_FIELD_LEN) value
             @ ''... ('' @ show_nat (length value) @ '' bytes total)'')"

datatype log_level = Info | Warn

record log_line =
  level :: log_level
  l_identity :: string
  l_backend :: string
  l_operation :: operation_kind
  l_target :: string
  l_blast_radius :: nat
  l_reason :: "string option"
  l_message :: string

definition log_decision :: "identity \<Rightarrow> action \<Rightarrow> decision \<Rightarrow> log_line" where
  "log_decision ident a d =
     (let line = \<lparr>level = Info, l_identity = truncate_for_log (identity_name ident), l_backend = backend a,
                  l_operation = operation a, l_target = truncate_for_log (target a),
                  l_blast_radius = blast_radius a, l_reason = None, l_message = ''action allowed''\<rparr>
      in case d of
           Allow \<Rightarrow> line
         | Block reason \<Rightarrow> line\<lparr>level := Warn, l_reason := Some reason, l_message := ''action blocked''\<rparr>)"

subsection \<open>Metrics\<close>

definition CONNECTIONS_ACTIVE :: string where
  "CONNECTIONS_ACTIVE = ''ai_protect_connections_active''"
definition CONNECTIONS_TOTAL :: string where
  "CONNECTIONS_TOTAL = ''ai_protect_connections_total''"
definition POLICY_DECISIONS_TOTAL :: string where
  "POLICY_DECISIONS_TOTAL = ''ai_protect_policy_decisions_total''"
definition UPSTREAM_CONNECT_SECONDS :: string where
  "UPSTREAM_CONNECT_SECONDS = ''ai_protect_upstream_connect_duration_seconds''"
definition TLS_HANDSHAKE_FAILURES_TOTAL :: string where
  "TLS_HANDSHAKE_FAILURES_TOTAL = ''ai_protect_tls_handshake_failures_total''"
definition UPSTREAM_TARGET_ACTIVE_CONNECTIONS :: string where
  "UPSTREAM_TARGET_ACTIVE_CONNECTIONS = ''ai_protect_upstream_target_active_connections''"
definition UPSTREAM_TARGET_FAILURES_TOTAL :: string where
  "UPSTREAM_TARGET_FAILURES_TOTAL = ''ai_protect_upstream_target_failures_total''"

type_synonym metric_key = "string \<times> (string \<times> string) list"

record registry =
  counters :: "metric_key \<Rightarrow> 64 word"
  gauges :: "metric_key \<Rightarrow> int"
  histograms :: "metric_key \<Rightarrow> duration list"

definition counter_inc :: "metric_key \<Rightarrow> registry \<Rightarrow> registry" where
  "counter_inc k r = r\<lparr>counters := (counters r)(k := counters r k + 1)\<rparr>"

definition gauge_add :: "metric_key \<Rightarrow> int \<Rightarrow> registry \<Rightarrow> registry" where
  "gauge_add k d r = r\<lparr>gauges := (gauges r)(k := gauges r k + d)\<rparr>"

definition gauge_set :: "metric_key \<Rightarrow> int \<Rightarrow> registry \<Rightarrow> registry" where
  "gauge_set k v r = r\<lparr>gauges := (gauges r)(k := v)\<rparr>"

definition connection_guard_open :: "registry \<Rightarrow> registry" where
  "connection_guard_open r = gauge_add (CONNECTIONS_ACTIVE, []) 1 (counter_inc (CONNECTIONS_TOTAL, []) r)"

definition connection_guard_drop :: "registry \<Rightarrow> registry" where
  "connection_guard_drop r = gauge_add (CONNECTIONS_ACTIVE, []) (- 1) r"

fun operation_label :: "operation_kind \<Rightarrow> string" where
  "operation_label AccountLock = ''account_lock''"
| "operation_label AccountUnlock = ''account_unlock''"
| "operation_label Delete = ''delete''"
| "operation_label Create = ''create''"
| "operation_label PasswordReset = ''password_reset''"
| "operation_label Rename = ''rename''"

definition decision_key :: "action \<Rightarrow> decision \<Rightarrow> metric_key" where
  "decision_key a d =
     (POLICY_DECISIONS_TOTAL,
      [(''decision'', case d of Allow \<Rightarrow> ''allow'' | Block _ \<Rightarrow> ''block''),
       (''backend'', backend a), (''operation'', operation_label (operation a))])"

definition record_decision :: "action \<Rightarrow> decision \<Rightarrow> registry \<Rightarrow> registry" where
  "record_decision a d r = counter_inc (decision_key a d) r"

definition record_upstream_connect :: "duration \<Rightarrow> registry \<Rightarrow> registry" where
  "record_upstream_connect elapsed r =
     r\<lparr>histograms := (histograms r)((UPSTREAM_CONNECT_SECONDS, []) := histograms r (UPSTREAM_CONNECT_SECONDS, []) @ [elapsed])\<rparr>"

definition record_tls_handshake_failure :: "string \<Rightarrow> registry \<Rightarrow> registry" where
  "record_tls_handshake_failure hop r = counter_inc (TLS_HANDSHAKE_FAILURES_TOTAL, [(''hop'', hop)]) r"

definition show_socket_addr :: "socket_addr \<Rightarrow> string" where
  "show_socket_addr a =
     (case sock_ip a of
        V4 _ _ _ _ \<Rightarrow> show_ip (sock_ip a)
      | V6 _ \<Rightarrow> ''['' @ show_ip (sock_ip a) @ '']'')
     @ '':'' @ show_nat (unat (sock_port a))"

definition set_upstream_target_active_connections :: "socket_addr \<Rightarrow> usize \<Rightarrow> registry \<Rightarrow> registry" where
  "set_upstream_target_active_connections a n r =
     gauge_set (UPSTREAM_TARGET_ACTIVE_CONNECTIONS, [(''target'', show_socket_addr a)]) (int (unat n)) r"

definition record_upstream_target_failure :: "socket_addr \<Rightarrow> registry \<Rightarrow> registry" where
  "record_upstream_target_failure a r =
     counter_inc (UPSTREAM_TARGET_FAILURES_TOTAL, [(''target'', show_socket_addr a)]) r"

subsection \<open>Lemmas\<close>

lemma boundary_below_le: "boundary_below s n \<le> n"
  by (induction s n rule: boundary_below.induct) auto

lemma boundary_below_boundary: "is_char_boundary s (boundary_below s n)"
  by (induction s n rule: boundary_below.induct) (auto simp: is_char_boundary_def)

lemma boundary_below_greatest: "m \<le> n \<Longrightarrow> is_char_boundary s m \<Longrightarrow> m \<le> boundary_below s n"
proof (induction s n rule: boundary_below.induct)
  case (2 s i)
  then show ?case by (cases "m = Suc i") auto
qed simp

subsection \<open>Properties\<close>

text \<open>A logged field is bounded whatever a client sends: it is the value itself, or at most its
  first 512 bytes, cut at the last character boundary there is, followed by the true length.\<close>

theorem logged_field_bounded:
  assumes "length v < 2 ^ 64"
  shows "length (truncate_for_log v) \<le> 512 + 38
    \<and> (\<exists>n \<le> 512. is_char_boundary v n \<and> (\<forall>m \<le> 512. is_char_boundary v m \<longrightarrow> m \<le> n)
          \<and> truncate_for_log v = take n v @ ''... ('' @ show_nat (length v) @ '' bytes total)'')
       \<or> (length v \<le> 512 \<and> truncate_for_log v = v)"
proof (cases "length v \<le> 512")
  case True
  then show ?thesis by (simp add: truncate_for_log_def MAX_LOGGED_FIELD_LEN_def)
next
  case False
  let ?n = "boundary_below v 512"
  have t: "truncate_for_log v = take ?n v @ ''... ('' @ show_nat (length v) @ '' bytes total)''"
    using False by (simp add: truncate_for_log_def MAX_LOGGED_FIELD_LEN_def)
  have "length (show_nat (length v)) \<le> 20" using assms by (intro length_show_nat) simp_all
  then have "length (truncate_for_log v) \<le> 512 + 38" using boundary_below_le [of v 512] by (simp add: t)
  with t boundary_below_le boundary_below_boundary boundary_below_greatest show ?thesis by blast
qed

theorem logged_field_bounded_witness:
  "length (truncate_for_log (replicate 600 CHR ''x'')) \<le> 550"
  using logged_field_bounded [of "replicate 600 CHR ''x''"] by simp

end
