(* ===== verification/Proxy_Conn.thy ===== *)
theory Proxy_Conn
  imports Connector Observe
begin

text \<open>
  proxy.rs, one connection: the bind state shared by the two relay directions, the handling of a client
  frame and of an upstream frame, and the two relay loops running against each other.

  The two directions are futures of one task under \<open>select!\<close>: code between two \<open>await\<close>s is atomic, the
  awaits are the reads and writes. A frame is therefore handled in two steps, a turn that reads and
  decides, and the write; the steps of the two directions interleave in any order, a timeout or an
  error ends the connection, and the end of one direction cancels the other in the middle of a write.
  The ghost fields record the client frames handled and the decision on each, the upstream frames read,
  and the whole frames sent to the client.
\<close>

subsection \<open>Limits and timeouts\<close>

record connection_limits =
  max_connections :: nat
  io_timeout :: duration
  shutdown_timeout :: duration

definition default_connection_limits :: connection_limits where
  "default_connection_limits =
     \<lparr>max_connections = 1024, io_timeout = from_secs 60, shutdown_timeout = from_secs 30\<rparr>"

text \<open>A future under a deadline: it completes with a value, or the deadline expires first.\<close>

datatype 'a timed = Done 'a | Expired

definition with_timeout :: "duration \<Rightarrow> (conn_error + 'a) timed \<Rightarrow> conn_error + 'a" where
  "with_timeout t r = (case r of Done x \<Rightarrow> x | Expired \<Rightarrow> Inl (TimedOut t))"

subsection \<open>Bind state\<close>

record bind_state =
  bs_identity :: identity
  bs_pending :: "(message_id \<times> string) list"

definition MAX_PENDING_BINDS :: nat where
  "MAX_PENDING_BINDS = 1024"

definition min_key :: "(message_id \<times> string) list \<Rightarrow> message_id option" where
  "min_key m = (case map fst m of [] \<Rightarrow> None | k # ks \<Rightarrow> Some (fold min ks k))"

definition stage_pending_bind ::
  "message_id \<Rightarrow> string \<Rightarrow> (message_id \<times> string) list \<Rightarrow> (message_id \<times> string) list" where
  "stage_pending_bind mid dn pending =
     (let room =
        (if length pending \<ge> MAX_PENDING_BINDS \<and> map_of pending mid = None then
           (case min_key pending of None \<Rightarrow> pending | Some oldest \<Rightarrow> AList.delete oldest pending)
         else pending)
      in AList.update mid dn room)"

definition resolve_pending_bind :: "connector \<Rightarrow> octets \<Rightarrow> bind_state \<Rightarrow> conn_error + bind_state" where
  "resolve_pending_bind C frame b =
     res_bind (bind_response C frame) (\<lambda>answer.
       case answer of
         None \<Rightarrow> Inr b
       | Some (mid, success) \<Rightarrow>
           (case map_of (bs_pending b) mid of
              None \<Rightarrow> Inr b
            | Some dn \<Rightarrow>
                let b1 = b\<lparr>bs_pending := AList.delete mid (bs_pending b)\<rparr>
                in Inr (if success then b1\<lparr>bs_identity := from_bind_dn dn\<rparr> else b1)))"

subsection \<open>Handling a client frame\<close>

text \<open>What the connections share: the policies, the audit log and the metrics.\<close>

record 'p shared =
  policies :: "'p list"
  audit :: "log_line list"
  metrics :: registry

datatype emission = To_upstream octets | To_client octets

definition stage_claim :: "(message_id \<times> string) option \<Rightarrow> bind_state \<Rightarrow> bind_state" where
  "stage_claim claim b =
     (case claim of
        None \<Rightarrow> b
      | Some (mid, dn) \<Rightarrow> b\<lparr>bs_pending := stage_pending_bind mid dn (bs_pending b)\<rparr>)"

definition decide ::
  "'p evaluator \<Rightarrow> (nat \<Rightarrow> instant) \<Rightarrow> action \<Rightarrow> identity \<Rightarrow> 'p shared \<Rightarrow> decision \<times> 'p shared" where
  "decide ev clk a ident sh =
     (case evaluate_all ev clk (policies sh) a \<lparr>ctx_identity = ident\<rparr> of
        (d, ps) \<Rightarrow> (d, sh\<lparr>policies := ps, audit := audit sh @ [log_decision ident a d],
                         metrics := record_decision a d (metrics sh)\<rparr>))"

text \<open>The result is what is to be written and where, with the decision if there was one.\<close>

definition handle_client_frame ::
  "connector \<Rightarrow> 'p evaluator \<Rightarrow> (nat \<Rightarrow> instant) \<Rightarrow> octets \<Rightarrow> bind_state \<Rightarrow> 'p shared
     \<Rightarrow> (conn_error + emission \<times> decision option) \<times> bind_state \<times> 'p shared" where
  "handle_client_frame C ev clk frame b sh =
     (case bind_request C frame of
        Inl e \<Rightarrow> (Inl e, b, sh)
      | Inr claim \<Rightarrow>
          let b1 = stage_claim claim b in
          (case decode C frame of
             Inl e \<Rightarrow> (Inl e, b1, sh)
           | Inr None \<Rightarrow> (Inr (To_upstream frame, None), b1, sh)
           | Inr (Some a) \<Rightarrow>
               (case decide ev clk a (bs_identity b1) sh of
                  (Allow, sh1) \<Rightarrow> (Inr (To_upstream frame, Some Allow), b1, sh1)
                | (Block reason, sh1) \<Rightarrow>
                    (case build_rejection C frame reason of
                       Inl e \<Rightarrow> (Inl e, b1, sh1)
                     | Inr rejection \<Rightarrow> (Inr (To_client rejection, Some (Block reason)), b1, sh1)))))"

subsection \<open>A connection\<close>

record conn =
  peer :: socket_addr
  c_bind :: bind_state
  first_frame :: "octets option"
  client_in :: stream_in
  upstream_in :: stream_in
  to_upstream :: octets
  to_client :: octets
  client_pending :: "emission option"
  upstream_pending :: "octets option"
  outcome :: "(conn_error + unit) option"
  handled :: "(octets \<times> decision option) list"
  resolved :: "octets list"
  delivered :: "(bool \<times> octets) list"

definition conn_start :: "socket_addr \<Rightarrow> octets option \<Rightarrow> stream_in \<Rightarrow> stream_in \<Rightarrow> conn" where
  "conn_start addr first ci ui =
     \<lparr>peer = addr, c_bind = \<lparr>bs_identity = from_peer_addr addr, bs_pending = []\<rparr>, first_frame = first,
      client_in = ci, upstream_in = ui, to_upstream = [], to_client = [], client_pending = None,
      upstream_pending = None, outcome = None, handled = [], resolved = [], delivered = []\<rparr>"

text \<open>The frame the client direction takes next: the one left over from the upgrade, then the stream.\<close>

definition next_client_frame :: "connector \<Rightarrow> conn \<Rightarrow> (conn_error + octets option) \<times> conn" where
  "next_client_frame C c =
     (case first_frame c of
        Some f \<Rightarrow> (Inr (Some f), c\<lparr>first_frame := None\<rparr>)
      | None \<Rightarrow> (case read_frame C (client_in c) of (r, s) \<Rightarrow> (r, c\<lparr>client_in := s\<rparr>)))"

text \<open>One turn of \<open>relay_client_requests\<close>, up to its write.\<close>

definition client_turn ::
  "connector \<Rightarrow> 'p evaluator \<Rightarrow> (nat \<Rightarrow> instant) \<Rightarrow> conn \<Rightarrow> 'p shared \<Rightarrow> conn \<times> 'p shared" where
  "client_turn C ev clk c sh =
     (case next_client_frame C c of
        (Inl e, c1) \<Rightarrow> (c1\<lparr>outcome := Some (Inl e)\<rparr>, sh)
      | (Inr None, c1) \<Rightarrow> (c1\<lparr>outcome := Some (Inr ())\<rparr>, sh)
      | (Inr (Some frame), c1) \<Rightarrow>
          (case handle_client_frame C ev clk frame (c_bind c1) sh of
             (Inl e, b, sh1) \<Rightarrow> (c1\<lparr>c_bind := b, outcome := Some (Inl e)\<rparr>, sh1)
           | (Inr (out, verdict), b, sh1) \<Rightarrow>
               (c1\<lparr>c_bind := b, client_pending := Some out, handled := handled c1 @ [(frame, verdict)]\<rparr>, sh1)))"

text \<open>One turn of \<open>relay_upstream_responses\<close>, up to its write.\<close>

definition upstream_turn :: "connector \<Rightarrow> conn \<Rightarrow> conn" where
  "upstream_turn C c =
     (case read_frame C (upstream_in c) of
        (Inl e, s) \<Rightarrow> c\<lparr>upstream_in := s, outcome := Some (Inl e)\<rparr>
      | (Inr None, s) \<Rightarrow> c\<lparr>upstream_in := s, outcome := Some (Inr ())\<rparr>
      | (Inr (Some frame), s) \<Rightarrow>
          (case resolve_pending_bind C frame (c_bind c) of
             Inl e \<Rightarrow> c\<lparr>upstream_in := s, outcome := Some (Inl e)\<rparr>
           | Inr b \<Rightarrow> c\<lparr>upstream_in := s, c_bind := b, upstream_pending := Some frame,
                       resolved := resolved c @ [frame]\<rparr>))"

definition client_write :: "conn \<Rightarrow> conn" where
  "client_write c =
     (case client_pending c of
        None \<Rightarrow> c
      | Some (To_upstream f) \<Rightarrow> c\<lparr>to_upstream := to_upstream c @ f, client_pending := None\<rparr>
      | Some (To_client f) \<Rightarrow>
          c\<lparr>to_client := to_client c @ f, delivered := delivered c @ [(False, f)], client_pending := None\<rparr>)"

definition upstream_write :: "conn \<Rightarrow> conn" where
  "upstream_write c =
     (case upstream_pending c of
        None \<Rightarrow> c
      | Some f \<Rightarrow> c\<lparr>to_client := to_client c @ f, delivered := delivered c @ [(True, f)], upstream_pending := None\<rparr>)"

text \<open>A write cut short: a prefix is on the wire and nothing follows. The client side is written under
  a lock, so that at most one of the two directions is in the middle of a write to it.\<close>

definition cut_short :: "nat \<Rightarrow> nat \<Rightarrow> conn_error + unit \<Rightarrow> conn \<Rightarrow> conn" where
  "cut_short n m r c =
     (let up = (case client_pending c of Some (To_upstream f) \<Rightarrow> take n f | _ \<Rightarrow> []);
          down = (case client_pending c of Some (To_client f) \<Rightarrow> take n f | _ \<Rightarrow> []);
          down' = (case upstream_pending c of Some f \<Rightarrow> take m f | None \<Rightarrow> [])
      in c\<lparr>to_upstream := to_upstream c @ up,
           to_client := to_client c @ (if down = [] then down' else down),
           client_pending := None, upstream_pending := None, outcome := Some r\<rparr>)"

inductive conn_step ::
  "connector \<Rightarrow> 'p evaluator \<Rightarrow> duration \<Rightarrow> conn \<times> 'p shared \<Rightarrow> conn \<times> 'p shared \<Rightarrow> bool"
  for C ev io_to where
  step_client_turn:
    "outcome c = None \<Longrightarrow> client_pending c = None \<Longrightarrow> client_turn C ev clk c sh = (c', sh')
       \<Longrightarrow> conn_step C ev io_to (c, sh) (c', sh')"
| step_client_write:
    "outcome c = None \<Longrightarrow> client_pending c \<noteq> None \<Longrightarrow> conn_step C ev io_to (c, sh) (client_write c, sh)"
| step_upstream_turn:
    "outcome c = None \<Longrightarrow> upstream_pending c = None \<Longrightarrow> conn_step C ev io_to (c, sh) (upstream_turn C c, sh)"
| step_upstream_write:
    "outcome c = None \<Longrightarrow> upstream_pending c \<noteq> None \<Longrightarrow> conn_step C ev io_to (c, sh) (upstream_write c, sh)"
| step_cut:
    "outcome c = None \<Longrightarrow> with_timeout io_to (r :: (conn_error + unit) timed) = Inl e \<Longrightarrow> conn_step C ev io_to (c, sh) (cut_short n m (Inl e) c, sh)"
| step_cancel:
    "outcome c = Some r \<Longrightarrow> conn_step C ev io_to (c, sh) (cut_short n m r c, sh)"

inductive_cases conn_stepE: "conn_step C ev io_to (c, sh) (c', sh')"

text \<open>A connection among others: between its steps the others may have moved the shared state.\<close>

inductive conn_reach ::
  "connector \<Rightarrow> 'p evaluator \<Rightarrow> duration \<Rightarrow> conn \<Rightarrow> conn \<Rightarrow> bool" for C ev io_to c0 where
  conn_reach_start: "conn_reach C ev io_to c0 c0"
| conn_reach_step: "conn_reach C ev io_to c0 c \<Longrightarrow> conn_step C ev io_to (c, sh) (c', sh') \<Longrightarrow> conn_reach C ev io_to c0 c'"

subsection \<open>What a turn does\<close>

definition client_bytes :: "conn \<Rightarrow> octets" where
  "client_bytes c = (case first_frame c of Some f \<Rightarrow> f | None \<Rightarrow> []) @ incoming (client_in c)"

definition is_block :: "decision option \<Rightarrow> bool" where
  "is_block v = (case v of Some (Block _) \<Rightarrow> True | _ \<Rightarrow> False)"

definition verdict_ok :: "connector \<Rightarrow> octets \<Rightarrow> decision option \<Rightarrow> emission \<Rightarrow> bool" where
  "verdict_ok C f v out \<longleftrightarrow>
     (case v of
        None \<Rightarrow> decode C f = Inr None \<and> out = To_upstream f
      | Some Allow \<Rightarrow> (\<exists>a. decode C f = Inr (Some a)) \<and> out = To_upstream f
      | Some (Block r) \<Rightarrow> (\<exists>a rej. decode C f = Inr (Some a) \<and> build_rejection C f r = Inr rej \<and> out = To_client rej))"

lemma handle_client_frame_Inr:
  assumes "handle_client_frame C ev clk frame b sh = (Inr (out, v), b', sh')"
  shows "verdict_ok C frame v out \<and> (\<exists>claim. bind_request C frame = Inr claim \<and> b' = stage_claim claim b)"
  using assms
  by (auto simp: handle_client_frame_def Let_def verdict_ok_def split: sum.splits option.splits prod.splits decision.splits)

lemma handle_client_frame_Inl:
  assumes "handle_client_frame C ev clk frame b sh = (Inl e, b', sh')"
  shows "b' = b \<or> (\<exists>claim. bind_request C frame = Inr claim \<and> b' = stage_claim claim b)"
  using assms
  by (auto simp: handle_client_frame_def Let_def split: sum.splits option.splits prod.splits decision.splits)

lemma next_client_frame_cases:
  assumes "next_client_frame C c = (r, c1)"
  obtains ff s where "c1 = c\<lparr>first_frame := ff, client_in := s\<rparr>"
    "\<And>f. r = Inr (Some f) \<Longrightarrow> ff = None \<and> (first_frame c = Some f \<and> s = client_in c
       \<or> first_frame c = None \<and> read_frame C (client_in c) = (Inr (Some f), s))"
  using assms by (cases c; cases "first_frame c") (auto simp: next_client_frame_def split: prod.splits)

lemma client_turn_cases [consumes 1, case_names ended frame]:
  assumes "client_turn C ev clk c sh = (c', sh')"
  obtains (ended) ff s b r where "c' = c\<lparr>first_frame := ff, client_in := s, c_bind := b, outcome := Some r\<rparr>"
      "b = c_bind c \<or> (\<exists>f claim. bind_request C f = Inr claim \<and> b = stage_claim claim (c_bind c))"
  | (frame) f v out s claim where
      "c' = c\<lparr>first_frame := None, client_in := s, c_bind := stage_claim claim (c_bind c), client_pending := Some out,
              handled := handled c @ [(f, v)]\<rparr>"
      "verdict_ok C f v out" "bind_request C f = Inr claim"
      "first_frame c = Some f \<and> s = client_in c
         \<or> first_frame c = None \<and> read_frame C (client_in c) = (Inr (Some f), s)"
proof -
  obtain r c1 where n: "next_client_frame C c = (r, c1)" by fastforce
  from next_client_frame_cases [OF n] obtain ff s where c1: "c1 = c\<lparr>first_frame := ff, client_in := s\<rparr>"
    and ff: "\<And>f. r = Inr (Some f) \<Longrightarrow> ff = None \<and> (first_frame c = Some f \<and> s = client_in c
       \<or> first_frame c = None \<and> read_frame C (client_in c) = (Inr (Some f), s))" by metis
  show thesis
  proof (cases "\<exists>f. r = Inr (Some f)")
    case False
    with assms n c1 obtain x where "c' = c\<lparr>first_frame := ff, client_in := s, c_bind := c_bind c, outcome := Some x\<rparr>"
      by (auto simp: client_turn_def split: sum.splits option.splits)
    then show thesis by (rule ended) simp
  next
    case True
    then obtain f where r: "r = Inr (Some f)" by blast
    obtain h b sh1 where h: "handle_client_frame C ev clk f (c_bind c1) sh = (h, b, sh1)" by (metis prod_cases3)
    show thesis
    proof (cases h)
      case (Inl e)
      with h r assms n c1 have "c' = c\<lparr>first_frame := ff, client_in := s, c_bind := b, outcome := Some (Inl e)\<rparr>"
        by (auto simp: client_turn_def)
      moreover have "b = c_bind c \<or> (\<exists>f claim. bind_request C f = Inr claim \<and> b = stage_claim claim (c_bind c))"
        using handle_client_frame_Inl [OF h [unfolded Inl]] c1 by auto
      ultimately show thesis by (rule ended)
    next
      case (Inr ov)
      obtain out v where ov: "ov = (out, v)" by fastforce
      from handle_client_frame_Inr [OF h [unfolded Inr ov]] c1 obtain claim
        where cl: "verdict_ok C f v out" "bind_request C f = Inr claim" "b = stage_claim claim (c_bind c)" by auto
      have "c' = c\<lparr>first_frame := None, client_in := s, c_bind := b, client_pending := Some out, handled := handled c @ [(f, v)]\<rparr>"
        using assms n r h Inr ov c1 ff [OF r] by (auto simp: client_turn_def)
      with cl ff [OF r] show thesis by (auto intro: frame)
    qed
  qed
qed

lemma upstream_turn_cases [case_names ended frame]:
  obtains (ended) s r where "upstream_turn C c = c\<lparr>upstream_in := s, outcome := Some r\<rparr>"
  | (frame) f s b where
      "upstream_turn C c = c\<lparr>upstream_in := s, c_bind := b, upstream_pending := Some f, resolved := resolved c @ [f]\<rparr>"
      "read_frame C (upstream_in c) = (Inr (Some f), s)" "resolve_pending_bind C f (c_bind c) = Inr b"
proof -
  obtain r s where r: "read_frame C (upstream_in c) = (r, s)" by fastforce
  show thesis
  proof (cases r)
    case (Inl e)
    with r show thesis by (intro ended) (simp add: upstream_turn_def)
  next
    case (Inr o')
    show thesis
    proof (cases o')
      case None
      with r Inr show thesis by (intro ended) (simp add: upstream_turn_def)
    next
      case (Some f)
      with r Inr show thesis
        by (cases "resolve_pending_bind C f (c_bind c)") (auto simp: upstream_turn_def intro: ended frame)
    qed
  qed
qed

subsection \<open>Invariants\<close>

definition passed :: "(octets \<times> decision option) list \<Rightarrow> octets" where
  "passed hs = concat (map fst (filter (\<lambda>(f, v). \<not> is_block v) hs))"

definition rejections :: "connector \<Rightarrow> (octets \<times> decision option) list \<Rightarrow> (conn_error + octets) list" where
  "rejections C hs = map (\<lambda>(f, v). build_rejection C f (case v of Some (Block r) \<Rightarrow> r | _ \<Rightarrow> []))
     (filter (\<lambda>(f, v). is_block v) hs)"

definition pending_up :: "conn \<Rightarrow> octets" where
  "pending_up c = (case client_pending c of Some (To_upstream f) \<Rightarrow> f | _ \<Rightarrow> [])"

definition pending_rejection :: "conn \<Rightarrow> octets list" where
  "pending_rejection c = (case client_pending c of Some (To_client f) \<Rightarrow> [f] | _ \<Rightarrow> [])"

definition pending_response :: "conn \<Rightarrow> octets list" where
  "pending_response c = (case upstream_pending c of Some f \<Rightarrow> [f] | None \<Rightarrow> [])"

lemma passed_snoc: "passed (hs @ [(f, v)]) = passed hs @ (if is_block v then [] else f)"
  by (simp add: passed_def)

lemma rejections_snoc:
  "rejections C (hs @ [(f, v)])
     = rejections C hs @ (if is_block v then [build_rejection C f (case v of Some (Block r) \<Rightarrow> r | _ \<Rightarrow> [])] else [])"
  by (simp add: rejections_def)

lemma verdict_ok_out:
  assumes "verdict_ok C f v out"
  shows "is_block v \<and> (\<exists>rej. out = To_client rej \<and> build_rejection C f (case v of Some (Block r) \<Rightarrow> r | _ \<Rightarrow> []) = Inr rej)
     \<or> \<not> is_block v \<and> out = To_upstream f"
  using assms by (auto simp: verdict_ok_def is_block_def split: option.splits decision.splits)

text \<open>What is sent to the directory: while the connection runs everything passed has been or is about to be
  written; after its end something may be missing at the end, but never in the middle.\<close>

definition upstream_ok :: "conn \<Rightarrow> bool" where
  "upstream_ok c \<longleftrightarrow>
     (\<exists>missing. to_upstream c @ pending_up c @ missing = passed (handled c) \<and> (outcome c = None \<longrightarrow> missing = []))"

text \<open>What is sent to the client: the frames delivered, and \<open>part\<close> of one more. The responses and the rejections
  that are not delivered are the ones about to be written; at its end the connection leaves at most one of each,
  \<open>m1\<close> and \<open>m2\<close>, undelivered, and \<open>part\<close> is the beginning of one of these.\<close>

definition client_side ::
  "connector \<Rightarrow> conn \<Rightarrow> octets list \<Rightarrow> octets list \<Rightarrow> octets \<Rightarrow> bool" where
  "client_side C c m1 m2 part \<longleftrightarrow>
     map snd (filter fst (delivered c)) @ pending_response c @ m1 = resolved c
   \<and> map Inr (map snd (filter (Not \<circ> fst) (delivered c)) @ pending_rejection c @ m2) = rejections C (handled c)
   \<and> to_client c = concat (map snd (delivered c)) @ part
   \<and> (outcome c = None \<longrightarrow> m1 = [] \<and> m2 = [] \<and> part = [])
   \<and> length (pending_response c @ m1) \<le> 1 \<and> length (pending_rejection c @ m2) \<le> 1
   \<and> (part = [] \<or> client_pending c = None \<and> upstream_pending c = None \<and> (\<exists>f \<in> set (m1 @ m2). \<exists>rest. f = part @ rest))"

definition streams_ok :: "connector \<Rightarrow> conn \<Rightarrow> bool" where
  "streams_ok C c \<longleftrightarrow> upstream_ok c \<and> (\<exists>m1 m2 part. client_side C c m1 m2 part)"

lemmas pending_defs = pending_up_def pending_rejection_def pending_response_def

lemma client_side_running: "client_side C c m1 m2 part \<Longrightarrow> outcome c = None \<Longrightarrow> client_side C c [] [] []"
  by (auto simp: client_side_def)

lemma streams_ok_running:
  "streams_ok C c \<Longrightarrow> outcome c = None \<Longrightarrow>
     to_upstream c @ pending_up c = passed (handled c) \<and> client_side C c [] [] []"
  by (auto simp: streams_ok_def upstream_ok_def dest: client_side_running)

lemma streams_okI:
  "to_upstream c @ pending_up c = passed (handled c) \<Longrightarrow> client_side C c [] [] [] \<Longrightarrow> streams_ok C c"
  unfolding streams_ok_def upstream_ok_def by (metis append_Nil2)

lemma streams_ok_client_turn:
  assumes "streams_ok C c" "outcome c = None" "client_pending c = None" "client_turn C ev clk c sh = (c', sh')"
  shows "streams_ok C c'"
  using assms(4)
proof (cases rule: client_turn_cases)
  case (ended ff s b r)
  with streams_ok_running [OF assms(1,2)] show ?thesis
    by (intro streams_okI) (simp_all add: client_side_def pending_defs)
next
  case (frame f v out s claim)
  with streams_ok_running [OF assms(1,2)] assms(3) verdict_ok_out [OF frame(2)] show ?thesis
    by (intro streams_okI) (auto simp: client_side_def pending_defs passed_snoc rejections_snoc)
qed

lemma streams_ok_upstream_turn:
  assumes "streams_ok C c" "outcome c = None" "upstream_pending c = None"
  shows "streams_ok C (upstream_turn C c)"
proof (cases rule: upstream_turn_cases [of C c])
  case (ended s r)
  with streams_ok_running [OF assms(1,2)] show ?thesis
    by (intro streams_okI) (simp_all add: client_side_def pending_defs)
next
  case (frame f s b)
  with streams_ok_running [OF assms(1,2)] assms(3) show ?thesis
    by (intro streams_okI) (auto simp: client_side_def pending_defs)
qed

lemma streams_ok_client_write:
  assumes "streams_ok C c" "outcome c = None"
  shows "streams_ok C (client_write c)"
  using streams_ok_running [OF assms] assms(2)
  by (intro streams_okI) (auto simp: client_side_def client_write_def pending_defs split: option.splits emission.splits)

lemma streams_ok_upstream_write:
  assumes "streams_ok C c" "outcome c = None"
  shows "streams_ok C (upstream_write c)"
  using streams_ok_running [OF assms] assms(2)
  by (intro streams_okI) (auto simp: client_side_def upstream_write_def pending_defs split: option.splits)

lemma upstream_ok_cut: "upstream_ok c \<Longrightarrow> upstream_ok (cut_short n m r c)"
proof -
  assume "upstream_ok c"
  then obtain missing where m: "to_upstream c @ pending_up c @ missing = passed (handled c)" by (auto simp: upstream_ok_def)
  let ?up = "case client_pending c of Some (To_upstream f) \<Rightarrow> take n f | _ \<Rightarrow> []"
  have "\<exists>rest. pending_up c = ?up @ rest"
    by (auto simp: pending_up_def split: option.splits emission.splits) (metis append_take_drop_id)
  then obtain rest where "pending_up c = ?up @ rest" by blast
  with m have "(to_upstream c @ ?up) @ rest @ missing = passed (handled c)" by simp
  then show ?thesis by (auto simp: upstream_ok_def cut_short_def Let_def pending_defs)
qed

text \<open>The part of a frame that a cut leaves on the wire to the client.\<close>

definition cut_part :: "nat \<Rightarrow> nat \<Rightarrow> conn \<Rightarrow> octets" where
  "cut_part n m c =
     (let down = (case client_pending c of Some (To_client f) \<Rightarrow> take n f | _ \<Rightarrow> []);
          down' = (case upstream_pending c of Some f \<Rightarrow> take m f | None \<Rightarrow> [])
      in if down = [] then down' else down)"

lemma cut_part_prefix:
  "cut_part n m c = [] \<or> (\<exists>f \<in> set (pending_response c @ pending_rejection c). \<exists>rest. f = cut_part n m c @ rest)"
  by (auto simp: cut_part_def Let_def pending_defs split: option.splits emission.splits) (metis append_take_drop_id)+

lemma client_side_cut:
  assumes "client_side C c m1 m2 part"
  shows "client_side C (cut_short n m r c) (pending_response c @ m1) (pending_rejection c @ m2) (part @ cut_part n m c)"
proof -
  have w: "to_client (cut_short n m r c) = to_client c @ cut_part n m c" by (simp add: cut_short_def cut_part_def Let_def)
  have "part \<noteq> [] \<Longrightarrow> cut_part n m c = []" using assms by (auto simp: client_side_def cut_part_def)
  moreover have "\<exists>f \<in> set ((pending_response c @ m1) @ pending_rejection c @ m2). \<exists>rest. f = (part @ cut_part n m c) @ rest"
    if "part @ cut_part n m c \<noteq> []"
  proof (cases "part = []")
    case True
    with that cut_part_prefix [of n m c] show ?thesis by auto
  next
    case False
    with assms calculation show ?thesis by (auto simp: client_side_def)
  qed
  ultimately show ?thesis using assms w
    by (auto simp: client_side_def cut_short_def Let_def pending_defs)
qed

lemma streams_ok_cut: "streams_ok C c \<Longrightarrow> streams_ok C (cut_short n m r c)"
  unfolding streams_ok_def using upstream_ok_cut client_side_cut by blast

lemma streams_ok_step: "conn_step C ev io_to (c, sh) (c', sh') \<Longrightarrow> streams_ok C c \<Longrightarrow> streams_ok C c'"
  by (erule conn_stepE)
    (auto intro: streams_ok_client_turn streams_ok_upstream_turn streams_ok_client_write streams_ok_upstream_write streams_ok_cut)

lemma streams_ok_start: "streams_ok C (conn_start addr first ci ui)"
  by (intro streams_okI) (simp_all add: client_side_def conn_start_def pending_defs passed_def rejections_def)

lemma streams_ok_reach: "conn_reach C ev io_to (conn_start addr first ci ui) c \<Longrightarrow> streams_ok C c"
  by (induction rule: conn_reach.induct) (auto intro: streams_ok_start streams_ok_step)

subsection \<open>Bind claims\<close>

lemma fold_min_in: "fold min ks (k :: message_id) \<in> insert k (set ks)"
  by (induction ks arbitrary: k) (auto simp: min_def)

lemma min_key_in: "min_key m = Some k \<Longrightarrow> k \<in> fst ` set m"
  using fold_min_in [of "map fst (tl m)" "fst (hd m)"] by (cases m) (auto simp: min_key_def)

lemma min_key_nonempty: "m \<noteq> [] \<Longrightarrow> min_key m \<noteq> None"
  by (cases m) (simp_all add: min_key_def)

definition pending_ok :: "(message_id \<times> string) list \<Rightarrow> bool" where
  "pending_ok m \<longleftrightarrow> distinct (map fst m) \<and> length m \<le> MAX_PENDING_BINDS"

lemma stage_pending_ok:
  assumes "pending_ok m"
  shows "pending_ok (stage_pending_bind mid dn m)"
proof (cases "length m \<ge> MAX_PENDING_BINDS \<and> map_of m mid = None")
  case True
  with assms have m: "distinct (map fst m)" "length m = MAX_PENDING_BINDS" by (simp_all add: pending_ok_def)
  then have "m \<noteq> []" by (auto simp: MAX_PENDING_BINDS_def)
  then obtain k where k: "min_key m = Some k" using min_key_nonempty by blast
  have "length (AList.delete k m) = length m - 1"
    using length_alist_delete [OF m(1), of k] min_key_in [OF k] by (simp add: fst_set_map_of)
  moreover have "map_of (AList.delete k m) mid = None" using True by simp
  ultimately show ?thesis
    using m True by (simp add: pending_ok_def stage_pending_bind_def k length_alist_update MAX_PENDING_BINDS_def)
next
  case False
  have "length (AList.update mid dn m) \<le> MAX_PENDING_BINDS"
    using assms False by (auto simp: pending_ok_def length_alist_update split: option.splits)
  then show ?thesis using assms False by (auto simp: pending_ok_def stage_pending_bind_def Let_def)
qed

lemma set_stage_pending:
  assumes "pending_ok m" "(k, d) \<in> set (stage_pending_bind mid dn m)"
  shows "(k, d) = (mid, dn) \<or> (k, d) \<in> set m"
proof -
  have d: "distinct (map fst (stage_pending_bind mid dn m))" using stage_pending_ok [OF assms(1)] by (simp add: pending_ok_def)
  have "map_of (stage_pending_bind mid dn m) k = Some d" using assms(2) d by simp
  then show ?thesis
    by (auto simp: stage_pending_bind_def Let_def split: if_splits option.splits dest: map_of_SomeD)
qed

lemma set_delete_subset: "set (AList.delete k m) \<subseteq> set m"
  by (auto simp: AList.delete_eq)

lemma resolve_cases:
  assumes "resolve_pending_bind C g b = Inr b'" "distinct (map fst (bs_pending b))"
  shows "b' = b
    \<or> (\<exists>mid dn s. bind_response C g = Inr (Some (mid, s)) \<and> (mid, dn) \<in> set (bs_pending b)
         \<and> bs_pending b' = AList.delete mid (bs_pending b)
         \<and> bs_identity b' = (if s then from_bind_dn dn else bs_identity b))"
proof -
  from assms(1) obtain answer where a: "bind_response C g = Inr answer" by (auto simp: resolve_pending_bind_def res_simps)
  show ?thesis
  proof (cases answer)
    case None
    with a assms(1) show ?thesis by (simp add: resolve_pending_bind_def)
  next
    case (Some ms)
    obtain mid s where ms: "ms = (mid, s)" by fastforce
    show ?thesis
    proof (cases "map_of (bs_pending b) mid")
      case None
      with a Some ms assms(1) show ?thesis by (simp add: resolve_pending_bind_def)
    next
      case (Some dn)
      then have "(mid, dn) \<in> set (bs_pending b)" by (rule map_of_SomeD)
      with a \<open>answer = Some ms\<close> ms Some assms(1) show ?thesis by (fastforce simp: resolve_pending_bind_def Let_def)
    qed
  qed
qed

text \<open>Where a connection's identity comes from: the peer address, or a claim that was made under a
  message id for which a successful bind response came.\<close>

definition claimed :: "connector \<Rightarrow> conn \<Rightarrow> message_id \<Rightarrow> string \<Rightarrow> bool" where
  "claimed C c mid dn \<longleftrightarrow> (\<exists>f v. (f, v) \<in> set (handled c) \<and> bind_request C f = Inr (Some (mid, dn)))"

definition confirmed :: "connector \<Rightarrow> conn \<Rightarrow> message_id \<Rightarrow> bool" where
  "confirmed C c mid \<longleftrightarrow> (\<exists>g \<in> set (resolved c). bind_response C g = Inr (Some (mid, True)))"

definition bind_ok :: "connector \<Rightarrow> conn \<Rightarrow> bool" where
  "bind_ok C c \<longleftrightarrow> pending_ok (bs_pending (c_bind c))
     \<and> (outcome c = None \<longrightarrow> (\<forall>(mid, dn) \<in> set (bs_pending (c_bind c)). claimed C c mid dn))
     \<and> (bs_identity (c_bind c) = from_peer_addr (peer c)
        \<or> (\<exists>mid dn. claimed C c mid dn \<and> confirmed C c mid \<and> bs_identity (c_bind c) = from_bind_dn dn))"

lemma bind_ok_mono:
  assumes "bind_ok C c" "pending_ok (bs_pending (c_bind c'))"
    and "\<And>mid dn. outcome c' = None \<Longrightarrow> (mid, dn) \<in> set (bs_pending (c_bind c')) \<Longrightarrow> claimed C c' mid dn"
    and "peer c' = peer c" "bs_identity (c_bind c') = bs_identity (c_bind c)"
    and "\<And>mid dn. claimed C c mid dn \<Longrightarrow> claimed C c' mid dn" "\<And>mid. confirmed C c mid \<Longrightarrow> confirmed C c' mid"
  shows "bind_ok C c'"
proof -
  have "bs_identity (c_bind c') = from_peer_addr (peer c')
        \<or> (\<exists>mid dn. claimed C c' mid dn \<and> confirmed C c' mid \<and> bs_identity (c_bind c') = from_bind_dn dn)"
    using assms(1,4-7) unfolding bind_ok_def by metis
  with assms(2,3) show ?thesis unfolding bind_ok_def by blast
qed

lemma stage_claim_bind:
  "pending_ok (bs_pending b) \<Longrightarrow> pending_ok (bs_pending (stage_claim claim b))"
  "bs_identity (stage_claim claim b) = bs_identity b"
  by (auto simp: stage_claim_def stage_pending_ok split: option.splits)

lemma bind_ok_client_turn:
  assumes "bind_ok C c" "outcome c = None" "client_turn C ev clk c sh = (c', sh')"
  shows "bind_ok C c'"
  using assms(3)
proof (cases rule: client_turn_cases)
  case (ended ff s b r)
  then have "pending_ok (bs_pending b)" "bs_identity b = bs_identity (c_bind c)"
    using assms(1) stage_claim_bind by (auto simp: bind_ok_def)
  with ended(1) assms(1) show ?thesis by (simp add: bind_ok_def claimed_def confirmed_def)
next
  case (frame f v out s claim)
  have p: "pending_ok (bs_pending (c_bind c))" using assms(1) by (simp add: bind_ok_def)
  have claims: "claimed C c' mid dn" if "(mid, dn) \<in> set (bs_pending (c_bind c'))" for mid dn
  proof -
    from that frame(1) set_stage_pending [OF p] have "claim = Some (mid, dn) \<or> (mid, dn) \<in> set (bs_pending (c_bind c))"
      by (fastforce simp: stage_claim_def split: option.splits)
    with assms(1,2) frame(1,3) show ?thesis by (auto simp: bind_ok_def claimed_def)
  qed
  have "claimed C c' mid dn" if "claimed C c mid dn" for mid dn using that frame(1) by (auto simp: claimed_def)
  moreover have "confirmed C c' mid = confirmed C c mid" for mid using frame(1) by (simp add: confirmed_def)
  moreover have "peer c' = peer c" "bs_identity (c_bind c') = bs_identity (c_bind c)" and q: "pending_ok (bs_pending (c_bind c'))"
    using frame(1) p by (simp_all add: stage_claim_bind)
  ultimately show ?thesis using assms(1) q claims by (intro bind_ok_mono [of C c c']) auto
qed

lemma bind_ok_upstream_turn:
  assumes "bind_ok C c" "outcome c = None"
  shows "bind_ok C (upstream_turn C c)"
proof (cases rule: upstream_turn_cases [of C c])
  case (ended s r)
  with assms(1) show ?thesis by (simp add: bind_ok_def claimed_def confirmed_def)
next
  case (frame f s b)
  let ?c = "upstream_turn C c"
  have p: "pending_ok (bs_pending (c_bind c))" using assms(1) by (simp add: bind_ok_def)
  have cl: "claimed C ?c mid dn = claimed C c mid dn" for mid dn using frame(1) by (simp add: claimed_def)
  have co: "confirmed C c mid \<Longrightarrow> confirmed C ?c mid" for mid using frame(1) by (simp add: confirmed_def)
  from resolve_cases [OF frame(3)] p consider (same) "b = c_bind c"
    | (answer) mid dn ok where "bind_response C f = Inr (Some (mid, ok))" "(mid, dn) \<in> set (bs_pending (c_bind c))"
        "bs_pending b = AList.delete mid (bs_pending (c_bind c))"
        "bs_identity b = (if ok then from_bind_dn dn else bs_identity (c_bind c))"
    by (auto simp: pending_ok_def)
  then show ?thesis
  proof cases
    case same
    have "claimed C ?c mid dn" if "(mid, dn) \<in> set (bs_pending (c_bind ?c))" for mid dn
      using that assms frame(1) same cl by (auto simp: bind_ok_def)
    with frame(1) same p assms(1) cl co show ?thesis by (intro bind_ok_mono [of C c ?c]) auto
  next
    case answer
    have claim: "claimed C ?c mid dn" using answer(2) assms cl by (auto simp: bind_ok_def)
    have q: "pending_ok (bs_pending b)" "set (bs_pending b) \<subseteq> set (bs_pending (c_bind c))"
      using p answer(3) length_alist_delete_le [of mid "bs_pending (c_bind c)"] set_delete_subset [of mid "bs_pending (c_bind c)"]
      by (simp_all add: pending_ok_def)
    have old: "claimed C ?c i d" if "(i, d) \<in> set (bs_pending b)" for i d
      using that q(2) assms cl by (auto simp: bind_ok_def)
    show ?thesis
    proof (cases ok)
      case True
      have "confirmed C ?c mid" using answer(1) True frame(1) by (auto simp: confirmed_def)
      moreover have "bs_identity (c_bind ?c) = from_bind_dn dn" "c_bind ?c = b" using answer(4) True frame(1) by simp_all
      ultimately show ?thesis using claim q(1) old unfolding bind_ok_def by blast
    next
      case False
      with frame(1) answer(4) q(1) old assms(1) cl co show ?thesis by (intro bind_ok_mono [of C c ?c]) auto
    qed
  qed
qed

lemma bind_ok_write: "bind_ok C c \<Longrightarrow> bind_ok C (client_write c)" "bind_ok C c \<Longrightarrow> bind_ok C (upstream_write c)"
  "bind_ok C c \<Longrightarrow> bind_ok C (cut_short n m r c)"
  by (simp_all add: bind_ok_def claimed_def confirmed_def client_write_def upstream_write_def cut_short_def Let_def
      split: option.splits emission.splits)

lemma bind_ok_step: "conn_step C ev io_to (c, sh) (c', sh') \<Longrightarrow> bind_ok C c \<Longrightarrow> bind_ok C c'"
  by (erule conn_stepE) (auto intro: bind_ok_client_turn bind_ok_upstream_turn bind_ok_write)

lemma peer_turns: "client_turn C ev clk c sh = (c', sh') \<Longrightarrow> peer c' = peer c" "peer (upstream_turn C c) = peer c"
proof -
  show "client_turn C ev clk c sh = (c', sh') \<Longrightarrow> peer c' = peer c" by (cases rule: client_turn_cases) auto
  show "peer (upstream_turn C c) = peer c" by (cases rule: upstream_turn_cases [of C c]) auto
qed

lemma bind_ok_reach: "conn_reach C ev io_to (conn_start addr first ci ui) c \<Longrightarrow> bind_ok C c \<and> peer c = addr"
proof (induction rule: conn_reach.induct)
  case conn_reach_start
  then show ?case by (simp add: bind_ok_def conn_start_def pending_ok_def)
next
  case (conn_reach_step c sh c' sh')
  have "peer c' = peer c" using conn_reach_step.hyps(2)
    by (rule conn_stepE)
      (auto simp: client_write_def upstream_write_def cut_short_def Let_def peer_turns split: option.splits emission.splits)
  with conn_reach_step bind_ok_step show ?case by blast
qed

subsection \<open>Nothing is lost or made up\<close>

definition verdicts_ok :: "connector \<Rightarrow> conn \<Rightarrow> bool" where
  "verdicts_ok C c \<longleftrightarrow> (\<forall>(f, v) \<in> set (handled c). \<exists>out. verdict_ok C f v out)"

definition bytes_ok :: "octets \<Rightarrow> octets \<Rightarrow> conn \<Rightarrow> bool" where
  "bytes_ok cb ub c \<longleftrightarrow>
     (\<exists>rest. cb = concat (map fst (handled c)) @ rest \<and> (outcome c = None \<longrightarrow> rest = client_bytes c))
   \<and> (\<exists>rest. ub = concat (resolved c) @ rest \<and> (outcome c = None \<longrightarrow> rest = incoming (upstream_in c)))"

text \<open>The relay over a connector that keeps the contract of frames.\<close>

locale relayed_connector = frame_connector
begin

lemma bytes_ok_client_turn:
  assumes "bytes_ok cb ub c" "outcome c = None" "client_turn C ev clk c sh = (c', sh')"
  shows "bytes_ok cb ub c'"
  using assms(3)
proof (cases rule: client_turn_cases)
  case (ended ff s b r)
  with assms(1) show ?thesis by (auto simp: bytes_ok_def)
next
  case (frame f v out s claim)
  have "client_bytes c = f @ incoming s" using frame(4) frame_bytes [of "client_in c" f s] by (auto simp: client_bytes_def)
  with frame(1) assms(1,2) show ?thesis by (auto simp: bytes_ok_def client_bytes_def)
qed

lemma bytes_ok_upstream_turn:
  assumes "bytes_ok cb ub c" "outcome c = None"
  shows "bytes_ok cb ub (upstream_turn C c)"
proof (cases rule: upstream_turn_cases [of C c])
  case (ended s r)
  with assms(1) show ?thesis by (auto simp: bytes_ok_def)
next
  case (frame f s b)
  with assms frame_bytes [OF frame(2)] show ?thesis by (auto simp: bytes_ok_def client_bytes_def)
qed

lemma bytes_ok_write: "bytes_ok cb ub c \<Longrightarrow> bytes_ok cb ub (client_write c)"
  "bytes_ok cb ub c \<Longrightarrow> bytes_ok cb ub (upstream_write c)" "bytes_ok cb ub c \<Longrightarrow> bytes_ok cb ub (cut_short n m r c)"
  by (auto simp: bytes_ok_def client_bytes_def client_write_def upstream_write_def cut_short_def Let_def
      split: option.splits emission.splits)

lemma bytes_ok_reach:
  assumes "conn_reach C ev io_to (conn_start addr first ci ui) c"
  shows "bytes_ok (client_bytes (conn_start addr first ci ui)) (incoming ui) c"
  using assms
proof (induction rule: conn_reach.induct)
  case conn_reach_start
  then show ?case by (simp add: bytes_ok_def conn_start_def)
next
  case (conn_reach_step c sh c' sh')
  from conn_reach_step.hyps(2) conn_reach_step.IH show ?case
    by (elim conn_stepE) (auto intro: bytes_ok_client_turn bytes_ok_upstream_turn bytes_ok_write)
qed

end

lemma verdicts_ok_step: "conn_step C ev io_to (c, sh) (c', sh') \<Longrightarrow> verdicts_ok C c \<Longrightarrow> verdicts_ok C c'"
proof (erule conn_stepE)
  fix clk
  assume "client_turn C ev clk c sh = (c', sh')" "verdicts_ok C c"
  then show "verdicts_ok C c'" by (cases rule: client_turn_cases) (auto simp: verdicts_ok_def)
next
  assume "c' = upstream_turn C c" "verdicts_ok C c"
  then show "verdicts_ok C c'" by (cases rule: upstream_turn_cases [of C c]) (auto simp: verdicts_ok_def)
qed (auto simp: verdicts_ok_def client_write_def upstream_write_def cut_short_def Let_def split: option.splits emission.splits)

lemma verdicts_ok_reach: "conn_reach C ev io_to (conn_start addr first ci ui) c \<Longrightarrow> verdicts_ok C c"
proof (induction rule: conn_reach.induct)
  case conn_reach_start
  then show ?case by (simp add: verdicts_ok_def conn_start_def)
qed (rule verdicts_ok_step)

end
