(* ===== verification/Proxy_Serve.thy ===== *)
theory Proxy_Serve
  imports Proxy_Conn
begin

text \<open>
  proxy.rs, the accept loop and the start of a connection: binding, accepting under a limit of
  concurrent connections, the snapshot of the policies a connection runs under, shutdown and drain; the
  upgrade of a plaintext client to TLS before anything is relayed.

  \<open>serve\<close> is a step relation. A spawned task stays in the \<open>JoinSet\<close> until it is joined, which happens
  only while draining; \<open>tasks\<close> are the tasks of the set, \<open>running\<close> the ones that have not finished.
\<close>

subsection \<open>Errors, shutdown\<close>

datatype proxy_error = Bind socket_addr io_error | Accept io_error

text \<open>The watch channel of the shutdown request: its value and whether a sender is left.\<close>

record shutdown_watch =
  requested :: bool
  sender_alive :: bool

definition wait_for_shutdown :: "shutdown_watch \<Rightarrow> bool" where
  "wait_for_shutdown w \<longleftrightarrow> requested w \<or> \<not> sender_alive w"

subsection \<open>The accept loop\<close>

text \<open>A loop ends by returning (\<open>Stopped\<close>) or by being dropped at an await point (\<open>Cancelled\<close>).\<close>

datatype phase = Accepting | Draining | Stopped "proxy_error + unit" | Cancelled

record 'l serve_state =
  limits :: connection_limits
  permits :: nat
  tasks :: "(nat \<times> 'l) list"
  running :: "nat list"
  next_id :: nat
  current_policies :: 'l
  shutdown :: shutdown_watch
  serving :: phase
  s_metrics :: registry

text \<open>\<open>Semaphore::new\<close> panics above its limit of \<open>usize::MAX >> 3\<close> permits; \<open>None\<close> is that panic. It happens in
  \<open>serve\<close>, when the listener is already bound.\<close>

definition MAX_PERMITS :: nat where
  "MAX_PERMITS = 2305843009213693951"

definition semaphore_new :: "nat \<Rightarrow> nat option" where
  "semaphore_new n = (if MAX_PERMITS < n then None else Some n)"

text \<open>The state of \<open>serve\<close> once it has its semaphore.\<close>

definition serve_start :: "connection_limits \<Rightarrow> 'l \<Rightarrow> shutdown_watch \<Rightarrow> registry \<Rightarrow> 'l serve_state" where
  "serve_start lim ps sd r =
     \<lparr>limits = lim, permits = max_connections lim, tasks = [], running = [], next_id = 0,
      current_policies = ps, shutdown = sd, serving = Accepting, s_metrics = r\<rparr>"

definition proxy_serve :: "connection_limits \<Rightarrow> 'l \<Rightarrow> shutdown_watch \<Rightarrow> registry \<Rightarrow> 'l serve_state option" where
  "proxy_serve lim ps sd r =
     (case semaphore_new (max_connections lim) of
        None \<Rightarrow> None
      | Some n \<Rightarrow> Some ((serve_start lim ps sd r)\<lparr>permits := n\<rparr>))"

text \<open>\<open>run\<close>: bind, then serve.\<close>

definition proxy_run ::
  "(socket_addr \<Rightarrow> io_error option) \<Rightarrow> socket_addr \<Rightarrow> connection_limits \<Rightarrow> 'l \<Rightarrow> shutdown_watch \<Rightarrow> registry
     \<Rightarrow> (proxy_error + 'l serve_state) option" where
  "proxy_run bind addr lim ps sd r =
     (case bind addr of Some e \<Rightarrow> Some (Inl (Bind addr e)) | None \<Rightarrow> map_option Inr (proxy_serve lim ps sd r))"

text \<open>An accepted connection: turned away without a permit, else a task of its own with the policies
  of the moment.\<close>

definition on_accept :: "'l serve_state \<Rightarrow> 'l serve_state" where
  "on_accept s =
     (if permits s = 0 then s
      else s\<lparr>permits := permits s - 1, tasks := tasks s @ [(next_id s, current_policies s)],
             running := running s @ [next_id s], next_id := Suc (next_id s),
             s_metrics := connection_guard_open (s_metrics s)\<rparr>)"

definition task_finish :: "nat \<Rightarrow> 'l serve_state \<Rightarrow> 'l serve_state" where
  "task_finish i s =
     s\<lparr>permits := Suc (permits s), running := remove1 i (running s), s_metrics := connection_guard_drop (s_metrics s)\<rparr>"

text \<open>\<open>shutdown().await\<close> on the set aborts every task that is still running and waits for it; each gives
  back its permit and its guard. Dropping the set asks for the same abort without waiting: the tasks leave
  the set at once and end later, each by a \<open>task_finish\<close> of its own.\<close>

definition abort_all :: "'l serve_state \<Rightarrow> 'l serve_state" where
  "abort_all s = (foldr task_finish (running s) s)\<lparr>tasks := []\<rparr>"

definition drop_connections :: "'l serve_state \<Rightarrow> 'l serve_state" where
  "drop_connections s = s\<lparr>tasks := []\<rparr>"

definition on_shutdown :: "'l serve_state \<Rightarrow> 'l serve_state" where
  "on_shutdown s = s\<lparr>serving := (if tasks s = [] then Stopped (Inr ()) else Draining)\<rparr>"

inductive serve_step :: "'l serve_state \<Rightarrow> 'l serve_state \<Rightarrow> bool" where
  sv_accept: "serving s = Accepting \<Longrightarrow> serve_step s (on_accept s)"
| sv_accept_error: "serving s = Accepting \<Longrightarrow> serve_step s ((drop_connections s)\<lparr>serving := Stopped (Inl (Accept e))\<rparr>)"
| sv_finish: "i \<in> set (running s) \<Longrightarrow> serve_step s (task_finish i s)"
| sv_reload: "serve_step s (s\<lparr>current_policies := ps\<rparr>)"
| sv_request: "serve_step s (s\<lparr>shutdown := sd\<rparr>)"
| sv_shutdown: "serving s = Accepting \<Longrightarrow> wait_for_shutdown (shutdown s) \<Longrightarrow> serve_step s (on_shutdown s)"
| sv_join: "serving s = Draining \<Longrightarrow> (i, ps) \<in> set (tasks s) \<Longrightarrow> i \<notin> set (running s)
     \<Longrightarrow> serve_step s (s\<lparr>tasks := remove1 (i, ps) (tasks s)\<rparr>)"
| sv_drained: "serving s = Draining \<Longrightarrow> tasks s = [] \<Longrightarrow> serve_step s (s\<lparr>serving := Stopped (Inr ())\<rparr>)"
| sv_abort: "serving s = Draining \<Longrightarrow> serve_step s ((abort_all s)\<lparr>serving := Stopped (Inr ())\<rparr>)"

inductive serve_reach :: "'l serve_state \<Rightarrow> 'l serve_state \<Rightarrow> bool" for s0 where
  sv_start: "serve_reach s0 s0"
| sv_step: "serve_reach s0 s \<Longrightarrow> serve_step s s' \<Longrightarrow> serve_reach s0 s'"

subsection \<open>The start of a connection\<close>

text \<open>The reads, writes and handshakes under their deadlines, and what a TLS session delivers.\<close>

record ('l, 't) client_world =
  read_expires :: bool
  write_response :: "(conn_error + unit) timed"
  tls_accept :: "'l \<Rightarrow> stream_in \<Rightarrow> (conn_error + 't) timed"
  tls_in :: "'t \<Rightarrow> stream_in"

definition accept_failed :: "(conn_error + 'a) timed \<Rightarrow> bool" where
  "accept_failed r = (case r of Done (Inl _) \<Rightarrow> True | _ \<Rightarrow> False)"

text \<open>The result, with whether a failed handshake is counted.\<close>

definition maybe_upgrade_to_tls ::
  "connector \<Rightarrow> duration \<Rightarrow> ('l, 't) client_world \<Rightarrow> 'l option \<Rightarrow> (stream_in, 't) maybe_tls_stream
     \<Rightarrow> (conn_error + (stream_in, 't) maybe_tls_stream \<times> octets option) \<times> bool" where
  "maybe_upgrade_to_tls C io_to w listen_starttls stream =
     (case (listen_starttls, stream) of
        (Some starttls, Plain tcp) \<Rightarrow>
          (let (r, tcp1) = read_frame C tcp in
           case with_timeout io_to (if read_expires w then Expired else Done r) of
             Inl e \<Rightarrow> (Inl e, False)
           | Inr None \<Rightarrow> (Inr (Plain tcp1, None), False)
           | Inr (Some frame) \<Rightarrow>
               (case upgrade_request C frame of
                  Inl e \<Rightarrow> (Inl e, False)
                | Inr None \<Rightarrow> (Inr (Plain tcp1, Some frame), False)
                | Inr (Some response) \<Rightarrow>
                    (case with_timeout io_to (write_response w) of
                       Inl e \<Rightarrow> (Inl e, False)
                     | Inr _ \<Rightarrow>
                         (case with_timeout io_to (tls_accept w starttls tcp1) of
                            Inl e \<Rightarrow> (Inl e, accept_failed (tls_accept w starttls tcp1))
                          | Inr t \<Rightarrow> (Inr (Tls t, None), False)))))
      | _ \<Rightarrow> (Inr (stream, None), False))"

definition stream_of :: "('l, 't) client_world \<Rightarrow> (stream_in, 't) maybe_tls_stream \<Rightarrow> stream_in" where
  "stream_of w s = (case s of Plain tcp \<Rightarrow> tcp | Tls t \<Rightarrow> tls_in w t)"

text \<open>\<open>handle_connection\<close> up to the relay: upgrade, dial, and the state the two directions start in.\<close>

definition handle_connection ::
  "connector \<Rightarrow> duration \<Rightarrow> ('l, 't) client_world \<Rightarrow> 'l option \<Rightarrow> (conn_error + stream_in) timed \<Rightarrow> duration
     \<Rightarrow> (stream_in, 't) maybe_tls_stream \<Rightarrow> socket_addr \<Rightarrow> registry \<Rightarrow> (conn_error + conn) \<times> registry" where
  "handle_connection C io_to w starttls dialled elapsed stream addr r =
     (case maybe_upgrade_to_tls C io_to w starttls stream of
        (Inl e, failed) \<Rightarrow> (Inl e, if failed then record_tls_handshake_failure ''listen_starttls'' r else r)
      | (Inr (stream1, first), _) \<Rightarrow>
          (case with_timeout io_to dialled of
             Inl e \<Rightarrow> (Inl e, r)
           | Inr ui \<Rightarrow>
               (Inr (conn_start addr first (stream_of w stream1) ui), record_upstream_connect elapsed r)))"

text \<open>What a spawned task does with an accepted socket: the implicit TLS handshake if the listener has
  one, then the connection.\<close>

definition connection_task ::
  "connector \<Rightarrow> duration \<Rightarrow> ('l, 't) client_world \<Rightarrow> io_error option \<Rightarrow> 'l option \<Rightarrow> 'l option
     \<Rightarrow> (conn_error + stream_in) timed \<Rightarrow> duration \<Rightarrow> stream_in \<Rightarrow> socket_addr \<Rightarrow> registry
     \<Rightarrow> (conn_error + conn) \<times> registry" where
  "connection_task C io_to w nodelay listen_tls starttls dialled elapsed tcp addr r =
     (case nodelay of
        Some e \<Rightarrow> (Inl (Context ''setting TCP_NODELAY on client connection'' (Io e)), r)
      | None \<Rightarrow>
          (case listen_tls of
             None \<Rightarrow> handle_connection C io_to w starttls dialled elapsed (Plain tcp) addr r
           | Some tls \<Rightarrow>
               (case with_timeout io_to (tls_accept w tls tcp) of
                  Inl e \<Rightarrow>
                    (Inl e, if accept_failed (tls_accept w tls tcp) then record_tls_handshake_failure ''listen'' r else r)
                | Inr t \<Rightarrow> handle_connection C io_to w starttls dialled elapsed (Tls t) addr r)))"

subsection \<open>Invariants of the accept loop\<close>

text \<open>The phases in which the set has been dropped, so that an aborted task may still run.\<close>

fun set_dropped :: "phase \<Rightarrow> bool" where
  "set_dropped (Stopped r) \<longleftrightarrow> isl r"
| "set_dropped Cancelled \<longleftrightarrow> True"
| "set_dropped _ \<longleftrightarrow> False"

definition serve_inv :: "'l serve_state \<Rightarrow> bool" where
  "serve_inv s \<longleftrightarrow> permits s + length (running s) = max_connections (limits s)
     \<and> distinct (running s) \<and> distinct (map fst (tasks s))
     \<and> (set_dropped (serving s) \<or> set (running s) \<subseteq> fst ` set (tasks s))
     \<and> (\<forall>i \<in> set (running s) \<union> fst ` set (tasks s). i < next_id s)
     \<and> (serving s = Accepting \<or> serving s = Draining \<or> tasks s = [])"

lemma foldr_task_finish:
  assumes "mset is \<subseteq># mset (running s)"
  shows "permits (foldr task_finish is s) = permits s + length is"
    and "mset (running (foldr task_finish is s)) = mset (running s) - mset is"
    and "limits (foldr task_finish is s) = limits s" "next_id (foldr task_finish is s) = next_id s"
    and "gauges (s_metrics (foldr task_finish is s)) (CONNECTIONS_ACTIVE, [])
       = gauges (s_metrics s) (CONNECTIONS_ACTIVE, []) - int (length is)"
  by (induction "is") (simp_all add: task_finish_def connection_guard_drop_def gauge_add_def)

lemma abort_all_simps [simp]:
  "permits (abort_all s) = permits s + length (running s)" "running (abort_all s) = []" "tasks (abort_all s) = []"
  "limits (abort_all s) = limits s" "next_id (abort_all s) = next_id s"
  using foldr_task_finish [of "running s" s] by (simp_all add: abort_all_def)

lemma serve_inv_finish:
  assumes "serve_inv s" "i \<in> set (running s)"
  shows "serve_inv (task_finish i s)"
proof -
  have "Suc (length (remove1 i (running s))) = length (running s)"
    using assms(2) length_pos_if_in_set [OF assms(2)] by (simp add: length_remove1)
  moreover have "set (remove1 i (running s)) \<subseteq> set (running s)" by (rule set_remove1_subset)
  ultimately show ?thesis using assms(1) by (auto simp: serve_inv_def task_finish_def)
qed

lemma serve_inv_step: "serve_step s s' \<Longrightarrow> serve_inv s \<Longrightarrow> serve_inv s' \<and> limits s' = limits s"
proof (induction rule: serve_step.induct)
  case (sv_accept s)
  have lt: "\<forall>i \<in> set (running s) \<union> fst ` set (tasks s). i < next_id s"
    and sub: "set (running s) \<subseteq> fst ` set (tasks s)"
    using sv_accept by (auto simp: serve_inv_def)
  then have "next_id s \<notin> set (running s)" "next_id s \<notin> fst ` set (tasks s)" by blast+
  moreover have "\<forall>i \<in> set (running s) \<union> fst ` set (tasks s). i < Suc (next_id s)" using lt less_SucI by blast
  ultimately show ?case using sv_accept sub by (auto simp: serve_inv_def on_accept_def)
next
  case (sv_finish i s)
  then show ?case using serve_inv_finish [of s i] by (simp add: task_finish_def)
next
  case (sv_join s i ps)
  have "distinct (map fst (remove1 (i, ps) (tasks s)))"
    using sv_join.prems by (metis serve_inv_def distinct_map distinct_remove1 inj_on_subset set_remove1_subset)
  moreover have "set (running s) \<subseteq> fst ` set (remove1 (i, ps) (tasks s))"
  proof
    fix x assume x: "x \<in> set (running s)"
    then obtain q where "(x, q) \<in> set (tasks s)" using sv_join.prems sv_join.hyps(1) by (fastforce simp: serve_inv_def)
    moreover have "(x, q) \<noteq> (i, ps)" using x sv_join.hyps(3) by auto
    ultimately have "(x, q) \<in> set (remove1 (i, ps) (tasks s))" using in_set_remove1 [of "(x, q)" "(i, ps)" "tasks s"] by blast
    then show "x \<in> fst ` set (remove1 (i, ps) (tasks s))" by (metis fst_conv imageI)
  qed
  moreover have "fst ` set (remove1 (i, ps) (tasks s)) \<subseteq> fst ` set (tasks s)" by (meson image_mono set_remove1_subset)
  moreover from this have "\<forall>j \<in> fst ` set (remove1 (i, ps) (tasks s)). j < next_id s"
    using sv_join.prems unfolding serve_inv_def by blast
  ultimately show ?case using sv_join by (auto simp: serve_inv_def)
qed (auto simp: serve_inv_def on_shutdown_def drop_connections_def)

lemma proxy_serve_eq:
  "proxy_serve lim ps sd r = (if MAX_PERMITS < max_connections lim then None else Some (serve_start lim ps sd r))"
  by (simp add: proxy_serve_def semaphore_new_def serve_start_def)

lemma serve_inv_start: "serve_inv (serve_start lim ps sd r)"
  by (simp add: serve_inv_def serve_start_def)

lemma serve_reach_inv:
  "serve_reach (serve_start lim ps sd r) s \<Longrightarrow> serve_inv s \<and> limits s = lim"
proof (induction rule: serve_reach.induct)
  case sv_start
  then show ?case by (simp add: serve_inv_start) (simp add: serve_start_def)
next
  case (sv_step s s')
  then show ?case using serve_inv_step by metis
qed

text \<open>A loop that has ended stays ended, and starts nothing.\<close>

lemma ended_stays:
  "serve_step s s' \<Longrightarrow> serving s \<noteq> Accepting \<Longrightarrow> serving s \<noteq> Draining \<Longrightarrow>
     serving s' = serving s \<and> set (running s') \<subseteq> set (running s)"
  by (induction rule: serve_step.induct) (auto simp: task_finish_def dest: set_remove1_subset [THEN subsetD])

subsection \<open>A long run with short connections\<close>

fun short_connections :: "nat \<Rightarrow> 'l serve_state \<Rightarrow> 'l serve_state" where
  "short_connections 0 s = s"
| "short_connections (Suc n) s = (let s1 = on_accept (short_connections n s) in task_finish (next_id (short_connections n s)) s1)"

lemma short_connections_run:
  assumes "1 \<le> max_connections lim"
  shows "serve_reach (serve_start lim ps sd r) (short_connections n (serve_start lim ps sd r))
    \<and> running (short_connections n (serve_start lim ps sd r)) = []
    \<and> permits (short_connections n (serve_start lim ps sd r)) = max_connections lim
    \<and> serving (short_connections n (serve_start lim ps sd r)) = Accepting
    \<and> length (tasks (short_connections n (serve_start lim ps sd r))) = n"
proof (induction n)
  case 0
  have "serve_reach (serve_start lim ps sd r) (serve_start lim ps sd r)" by (rule sv_start)
  then show ?case by (simp add: serve_start_def)
next
  case (Suc n)
  let ?init = "serve_start lim ps sd r"
  let ?s = "short_connections n ?init" and ?a = "on_accept (short_connections n ?init)"
  have a: "running ?a = [next_id ?s]" "permits ?a = max_connections lim - 1" "length (tasks ?a) = Suc n"
    "serving ?a = Accepting"
    using Suc assms by (simp_all add: on_accept_def)
  have "serve_reach ?init ?s" "serving ?s = Accepting" using Suc by blast+
  then have "serve_reach ?init ?a" using sv_step [OF _ sv_accept] by blast
  moreover have "serve_step ?a (task_finish (next_id ?s) ?a)" using a by (intro sv_finish) simp
  ultimately have "serve_reach ?init (short_connections (Suc n) ?init)" by (auto intro: sv_step simp: Let_def)
  with a assms show ?case by (simp add: Let_def task_finish_def)
qed

subsection \<open>Properties\<close>

definition demo_limits :: connection_limits where
  "demo_limits = default_connection_limits\<lparr>max_connections := 2\<rparr>"

definition quiet_watch :: shutdown_watch where
  "quiet_watch = \<lparr>requested = False, sender_alive = True\<rparr>"

definition zero_metrics :: registry where
  "zero_metrics = \<lparr>counters = \<lambda>_. 0, gauges = \<lambda>_. 0, histograms = \<lambda>_. []\<rparr>"

text \<open>C13 The connection limit: whatever is accepted, finished, reloaded or shut down, at most
  \<open>max_connections\<close> connections run at any time and every other permit is free; once \<open>serve\<close> has returned
  without an error none is running and every permit is back; once it has returned or was dropped, with an
  error or without, its set is empty and no step makes a connection run again.\<close>

theorem connection_limit_holds:
  assumes "serve_reach (serve_start lim ps sd r) s"
  shows "length (running s) \<le> max_connections lim
    \<and> permits s = max_connections lim - length (running s)
    \<and> (serving s = Stopped (Inr ()) \<longrightarrow> running s = [] \<and> permits s = max_connections lim)
    \<and> (serving s = Stopped res \<or> serving s = Cancelled \<longrightarrow> tasks s = []
         \<and> (\<forall>s'. serve_step s s' \<longrightarrow> serving s' = serving s \<and> set (running s') \<subseteq> set (running s)))"
  using serve_reach_inv [OF assms] by (auto simp: serve_inv_def dest: ended_stays)

theorem connection_limit_holds_witness:
  "length (running (on_accept (on_accept (on_accept (serve_start demo_limits () quiet_watch zero_metrics))))) \<le> 2"
proof -
  let ?s = "serve_start demo_limits () quiet_watch zero_metrics"
  have "serving ?s = Accepting" "serving (on_accept ?s) = Accepting" "serving (on_accept (on_accept ?s)) = Accepting"
    by (simp_all add: serve_start_def on_accept_def)
  then have "serve_reach ?s (on_accept (on_accept (on_accept ?s)))"
    by (meson serve_reach.intros sv_accept)
  from conjunct1 [OF connection_limit_holds [OF this]] show ?thesis by (simp add: demo_limits_def)
qed

text \<open>The policies of a connection are fixed when it is accepted: no step changes the policy list of
  a task that is in the set, a reload included, and a task that is new runs under the list that was
  current.\<close>

theorem policy_snapshot:
  assumes "serve_reach (serve_start lim ps0 sd r) s" "serve_step s s'" "(i, q) \<in> set (tasks s')"
  shows "(i, q) \<in> set (tasks s) \<or> (q = current_policies s \<and> i \<notin> fst ` set (tasks s))"
proof -
  have "\<forall>j \<in> fst ` set (tasks s). j < next_id s" using serve_reach_inv [OF assms(1)] by (simp add: serve_inv_def)
  then have "next_id s \<notin> fst ` set (tasks s)" by auto
  with assms(2,3) show ?thesis
    by (cases rule: serve_step.cases)
      (auto simp: on_accept_def task_finish_def on_shutdown_def drop_connections_def split: if_splits dest: set_remove1_subset [THEN subsetD])
qed

theorem policy_snapshot_witness:
  "let s = on_accept (serve_start demo_limits ''old'' quiet_watch zero_metrics);
       s' = on_accept (s\<lparr>current_policies := ''new''\<rparr>)
   in tasks s' = [(0, ''old''), (1, ''new'')] \<and> ((0, ''old'') \<in> set (tasks s) \<or> ''old'' = ''new'')"
proof -
  let ?init = "serve_start demo_limits ''old'' quiet_watch zero_metrics"
  let ?s = "on_accept ?init" and ?s1 = "(on_accept ?init)\<lparr>current_policies := ''new''\<rparr>"
  have ini: "serving ?init = Accepting" and acc: "serving ?s1 = Accepting" by (simp_all add: serve_start_def on_accept_def)
  have r: "serve_reach ?init ?s1" by (rule sv_step [OF sv_step [OF sv_start sv_accept [OF ini]] sv_reload])
  have t: "tasks (on_accept ?s1) = [(0, ''old''), (1, ''new'')]"
    by (simp add: on_accept_def serve_start_def demo_limits_def)
  have "(0, ''old'') \<in> set (tasks ?s1) \<or> (''old'' = current_policies ?s1 \<and> 0 \<notin> fst ` set (tasks ?s1))"
    by (rule policy_snapshot [OF r sv_accept [OF acc]]) (simp add: t)
  with t show ?thesis by simp
qed

text \<open>Finished connections stay in the \<open>JoinSet\<close>: the accept loop never joins, so that after any
  number \<open>n\<close> of connections that have come and gone the set holds \<open>n\<close> finished tasks, although nothing
  is running; the shutdown then reports \<open>n\<close> connections in flight.\<close>

theorem join_set_grows:
  assumes "1 \<le> max_connections lim"
  shows "\<exists>s. serve_reach (serve_start lim ps sd r) s \<and> running s = [] \<and> serving s = Accepting \<and> length (tasks s) = n"
  using short_connections_run [OF assms, of ps sd r n]
  by (intro exI [of _ "short_connections n (serve_start lim ps sd r)"]) simp

theorem join_set_grows_witness:
  "\<exists>s. serve_reach (serve_start demo_limits () quiet_watch zero_metrics) s \<and> running s = [] \<and> length (tasks s) = 1000000"
proof -
  have "1 \<le> max_connections demo_limits" by (simp add: demo_limits_def)
  from join_set_grows [OF this, of "()" quiet_watch zero_metrics 1000000] show ?thesis
    by (elim exE conjE) (intro exI conjI)
qed

end
