(* ===== verification/Ldap_Frame.thy ===== *)
theory Ldap_Frame
  imports Connector
begin

text \<open>
  \<open>read_frame\<close> of connector/ldap.rs: one BER message off the wire. The tag, the length (one byte below
  128, or up to four bytes, big endian), then the content, which is read only if its length is at most
  16 MiB.

  \<open>encode_length\<close> and \<open>encode_frame\<close> are the definite-length encodings of BER, the reference the
  reader is compared with: it accepts every encoding of the length in up to four bytes, minimal or
  not, gives back exactly the bytes sent, and rejects the rest.
\<close>

unbundle bit_operations_syntax

definition MAX_FRAME_CONTENT_LEN :: nat where
  "MAX_FRAME_CONTENT_LEN = 16 * 1024 * 1024"

text \<open>\<open>u32::from_be_bytes\<close>; left padding with zeros does not change the value.\<close>

fun be_value :: "nat \<Rightarrow> octets \<Rightarrow> nat" where
  "be_value acc [] = acc"
| "be_value acc (b # bs) = be_value (256 * acc + unat b) bs"

definition from_be_bytes :: "octets \<Rightarrow> nat" where
  "from_be_bytes bs = be_value 0 bs"

definition io :: "(io_error + 'a) \<times> stream_in \<Rightarrow> (conn_error + 'a) \<times> stream_in" where
  "io r = (map_err Io (fst r), snd r)"

definition and_then ::
  "(conn_error + 'a) \<times> stream_in \<Rightarrow> ('a \<Rightarrow> stream_in \<Rightarrow> (conn_error + 'b) \<times> stream_in) \<Rightarrow> (conn_error + 'b) \<times> stream_in" where
  "and_then r f = (case r of (Inl e, s) \<Rightarrow> (Inl e, s) | (Inr x, s) \<Rightarrow> f x s)"

text \<open>The length octets after the first, and the content length they say.\<close>

definition read_length :: "byte \<Rightarrow> stream_in \<Rightarrow> (conn_error + octets \<times> nat) \<times> stream_in" where
  "read_length first s =
     (if first AND 0x80 = 0 then (Inr ([], unat first), s)
      else
        let num_bytes = unat (first AND 0x7f) in
        if num_bytes = 0 \<or> num_bytes > 4 then (Inl (UnsupportedLength num_bytes), s)
        else and_then (io (read_exact num_bytes s)) (\<lambda>tail s1.
          (Inr (tail, from_be_bytes (replicate (4 - num_bytes) 0 @ tail)), s1)))"

definition ldap_read_frame :: "stream_in \<Rightarrow> (conn_error + octets option) \<times> stream_in" where
  "ldap_read_frame s =
     (case read_exact 1 s of
        (Inl UnexpectedEof, s1) \<Rightarrow> (Inr None, s1)
      | (Inl e, s1) \<Rightarrow> (Inl (Io e), s1)
      | (Inr tag, s1) \<Rightarrow>
          and_then (io (read_exact 1 s1)) (\<lambda>first s2.
          and_then (read_length (hd first) s2) (\<lambda>(tail, content_len) s3.
          let header = tag @ first @ tail in
          if content_len > MAX_FRAME_CONTENT_LEN then (Inl (FrameTooLong content_len), s3)
          else and_then (io (read_exact content_len s3)) (\<lambda>content s4.
            (Inr (Some (header @ content)), s4)))))"

subsection \<open>Reading\<close>

lemma read_exact_Inr [wire_simps]:
  "read_exact n s = (Inr bs, s') \<longleftrightarrow>
     length bs = n \<and> incoming s = bs @ incoming s' \<and> ending s' = ending s"
  by (cases s; cases s') (auto simp: read_exact_def append_eq_conv_conj split: if_splits)

lemma read_exact_exact [wire_simps]:
  "incoming s = bs @ rest \<Longrightarrow> length bs = n \<Longrightarrow> read_exact n s = (Inr bs, s\<lparr>incoming := rest\<rparr>)"
  by (auto simp: read_exact_def)

lemma and_then_Inr [wire_simps]:
  "and_then r f = (Inr y, s') \<longleftrightarrow> (\<exists>x s. r = (Inr x, s) \<and> f x s = (Inr y, s'))"
  by (cases r; cases "fst r") (auto simp: and_then_def)

lemma io_Inr [wire_simps]: "io r = (Inr x, s) \<longleftrightarrow> r = (Inr x, s)"
  by (cases r; cases "fst r") (auto simp: io_def map_err_def)

lemma and_then_simps [simp]: "and_then (Inr x, s) f = f x s" "and_then (Inl e, s) f = (Inl e, s)"
  by (simp_all add: and_then_def)

lemma io_simps [simp]: "io (Inr x, s) = (Inr x, s)" "io (Inl e, s) = (Inl (Io e), s)"
  by (simp_all add: io_def map_err_def)

lemma from_be_bytes_pad: "from_be_bytes (replicate k 0 @ bs) = from_be_bytes bs"
  by (induction k) (simp_all add: from_be_bytes_def)

lemma read_length_Inr:
  assumes "read_length b s = (Inr (tail, n), s')"
  shows "incoming s = tail @ incoming s' \<and> ending s' = ending s \<and> length tail \<le> 4
    \<and> (if b AND 0x80 = 0 then tail = [] \<and> n = unat b
        else length tail = unat (b AND 0x7f) \<and> tail \<noteq> [] \<and> n = from_be_bytes tail)"
  using assms
  by (auto simp: read_length_def Let_def wire_simps from_be_bytes_pad split: if_splits)

lemma read_length_long:
  assumes "b AND 0x80 \<noteq> 0" "length tail = unat (b AND 0x7f)" "tail \<noteq> []" "length tail \<le> 4"
    and "incoming s = tail @ rest"
  shows "read_length b s = (Inr (tail, from_be_bytes tail), s\<lparr>incoming := rest\<rparr>)"
proof -
  have "unat (b AND 0x7f) > 0" using assms(2,3) by (metis length_greater_0_conv)
  with assms show ?thesis by (simp add: read_length_def Let_def wire_simps from_be_bytes_pad)
qed

subsection \<open>Well-formed frames\<close>

text \<open>The octets that say a content length \<open>n\<close>: the short form below 128, or one to four octets.\<close>

definition says_length :: "octets \<Rightarrow> nat \<Rightarrow> bool" where
  "says_length ls n \<longleftrightarrow>
     (case ls of [] \<Rightarrow> False
      | b # tail \<Rightarrow>
          if b AND 0x80 = 0 then tail = [] \<and> n = unat b
          else length tail = unat (b AND 0x7f) \<and> tail \<noteq> [] \<and> length tail \<le> 4 \<and> n = from_be_bytes tail)"

definition wf_frame :: "octets \<Rightarrow> bool" where
  "wf_frame f \<longleftrightarrow> (\<exists>tag ls content. f = tag # ls @ content \<and> says_length ls (length content)
                    \<and> length content \<le> MAX_FRAME_CONTENT_LEN)"

lemma ldap_read_frame_Some:
  assumes "ldap_read_frame s = (Inr (Some f), s')"
  shows "wf_frame f \<and> incoming s = f @ incoming s' \<and> ending s' = ending s"
proof -
  from assms obtain tag s1 where 1: "read_exact 1 s = (Inr tag, s1)"
    by (auto simp: ldap_read_frame_def split: prod.splits sum.splits io_error.splits)
  with assms obtain first s2 tail n s3 content where
    2: "read_exact 1 s1 = (Inr first, s2)" "read_length (hd first) s2 = (Inr (tail, n), s3)"
    and 3: "read_exact n s3 = (Inr content, s')" "n \<le> MAX_FRAME_CONTENT_LEN"
    and f: "f = (tag @ first @ tail) @ content"
    by (auto simp: ldap_read_frame_def wire_simps Let_def split: if_splits)
  from 1 obtain t where t: "tag = [t]" "incoming s = t # incoming s1" "ending s1 = ending s"
    by (auto simp: wire_simps length_Suc_conv)
  from 2(1) obtain b where b: "first = [b]" "incoming s1 = b # incoming s2" "ending s2 = ending s1"
    by (auto simp: wire_simps length_Suc_conv)
  have l: "incoming s2 = tail @ incoming s3" "ending s3 = ending s2" "says_length (b # tail) n"
    using read_length_Inr [OF 2(2)] by (auto simp: b says_length_def)
  have c: "length content = n" "incoming s3 = content @ incoming s'" "ending s' = ending s3"
    using 3(1) by (auto simp: wire_simps)
  have "wf_frame f" unfolding wf_frame_def
    using f t(1) b(1) l(3) c(1) 3(2) by (intro exI [of _ t] exI [of _ "b # tail"] exI [of _ content]) simp
  with f t b l c show ?thesis by simp
qed

lemma ldap_read_frame_wf:
  assumes "wf_frame f" "incoming s = f @ rest"
  shows "ldap_read_frame s = (Inr (Some f), s\<lparr>incoming := rest\<rparr>)"
proof -
  from assms(1) obtain tag b tail content where f: "f = tag # (b # tail) @ content"
    and ls: "says_length (b # tail) (length content)" and n: "length content \<le> MAX_FRAME_CONTENT_LEN"
    by (fastforce simp: wf_frame_def says_length_def neq_Nil_conv split: list.splits)
  let ?s1 = "s\<lparr>incoming := b # tail @ content @ rest\<rparr>" and ?s2 = "s\<lparr>incoming := tail @ content @ rest\<rparr>"
  let ?s3 = "s\<lparr>incoming := content @ rest\<rparr>"
  have 1: "read_exact 1 s = (Inr [tag], ?s1)" using assms(2) f by (simp add: read_exact_def)
  have 2: "read_exact 1 ?s1 = (Inr [b], ?s2)" by (simp add: read_exact_def)
  have 3: "read_length b ?s2 = (Inr (tail, length content), ?s3)"
  proof (cases "b AND 0x80 = 0")
    case True
    with ls show ?thesis by (simp add: says_length_def read_length_def)
  next
    case False
    with ls read_length_long [of b tail ?s2 "content @ rest"] show ?thesis by (simp add: says_length_def)
  qed
  have 4: "read_exact (length content) ?s3 = (Inr content, s\<lparr>incoming := rest\<rparr>)" by (simp add: read_exact_def)
  show ?thesis using n f by (simp add: ldap_read_frame_def 1 2 3 4 del: One_nat_def)
qed

lemma ldap_read_frame_None: "ldap_read_frame s = (Inr None, s') \<Longrightarrow> incoming s = [] \<and> ending s = Eof \<and> s' = s"
  by (cases s) (auto simp: ldap_read_frame_def read_exact_def and_then_def io_def map_err_def read_length_def Let_def
      Suc_le_eq split: if_splits stream_end.splits prod.splits sum.splits)

subsection \<open>The reference encoding\<close>

fun be_octets :: "nat \<Rightarrow> nat \<Rightarrow> octets" where
  "be_octets 0 n = []"
| "be_octets (Suc k) n = be_octets k (n div 256) @ [word_of_nat (n mod 256)]"

text \<open>The minimal definite form a BER encoder writes.\<close>

definition octets_needed :: "nat \<Rightarrow> nat" where
  "octets_needed n = (if n < 256 then 1 else if n < 256 ^ 2 then 2 else if n < 256 ^ 3 then 3 else 4)"

definition encode_length :: "nat \<Rightarrow> octets" where
  "encode_length n =
     (if n < 128 then [word_of_nat n]
      else (0x80 OR word_of_nat (octets_needed n)) # be_octets (octets_needed n) n)"

definition encode_frame :: "byte \<Rightarrow> octets \<Rightarrow> octets" where
  "encode_frame tag content = tag # encode_length (length content) @ content"

lemma length_be_octets [simp]: "length (be_octets k n) = k"
  by (induction k n rule: be_octets.induct) simp_all

lemma be_value_append: "be_value acc (xs @ ys) = be_value (be_value acc xs) ys"
  by (induction acc xs rule: be_value.induct) simp_all

lemma be_value_be_octets: "n < 256 ^ k \<Longrightarrow> be_value 0 (be_octets k n) = n"
proof (induction k n rule: be_octets.induct)
  case (2 k n)
  then have "n div 256 < 256 ^ k" by (simp add: less_mult_imp_div_less mult.commute)
  with 2 show ?case by (simp add: be_value_append unat_of_nat take_bit_nat_def)
qed simp

lemma encode_length_says:
  assumes "n < 2 ^ 32"
  shows "says_length (encode_length n) n"
proof (cases "n < 128")
  case True
  then have "\<not> bit n 7" by (simp add: bit_iff_odd)
  then have "(word_of_nat n :: byte) AND 0x80 = 0"
    by (intro bit_word_eqI) (auto simp: bit_simps less_Suc_eq numeral_eq_Suc)
  with True show ?thesis by (simp add: encode_length_def says_length_def unat_of_nat)
next
  case False
  define k where "k = octets_needed n"
  have k: "k \<in> {1, 2, 3, 4}" "n < 256 ^ k" using assms by (auto simp: k_def octets_needed_def)
  then have "(0x80 OR word_of_nat k :: byte) AND 0x80 \<noteq> 0" "unat ((0x80 OR word_of_nat k :: byte) AND 0x7f) = k"
    by auto
  moreover have "from_be_bytes (be_octets k n) = n" using be_value_be_octets [OF k(2)] by (simp add: from_be_bytes_def)
  moreover have "be_octets k n \<noteq> []" using k(1) by (metis empty_iff insert_iff length_be_octets list.size(3) zero_neq_numeral zero_neq_one)
  ultimately show ?thesis using False k(1) by (auto simp: encode_length_def says_length_def k_def [symmetric])
qed

lemma encode_frame_wf:
  assumes "length content \<le> MAX_FRAME_CONTENT_LEN"
  shows "wf_frame (encode_frame tag content)"
proof -
  have "length content < 2 ^ 32" using assms by (simp add: MAX_FRAME_CONTENT_LEN_def)
  from encode_length_says [OF this] assms show ?thesis
    by (auto simp: wf_frame_def encode_frame_def)
qed

subsection \<open>Reading frames until the stream ends\<close>

lemma wf_frame_nonempty: "wf_frame f \<Longrightarrow> f \<noteq> []"
  by (auto simp: wf_frame_def)

text \<open>The \<open>while let Some(frame) = read_frame(..)?\<close> loops of the relay, without what they do with a
  frame.\<close>

function read_frames :: "stream_in \<Rightarrow> octets list \<times> conn_error option" where
  "read_frames s =
     (case ldap_read_frame s of
        (Inr (Some f), s') \<Rightarrow> (case read_frames s' of (fs, e) \<Rightarrow> (f # fs, e))
      | (Inr None, s') \<Rightarrow> ([], None)
      | (Inl e, s') \<Rightarrow> ([], Some e))"
  by pat_completeness auto

termination
proof (relation "measure (\<lambda>s. length (incoming s))", goal_cases)
  case (2 s x s' y f)
  then show ?case using ldap_read_frame_Some [of s f s'] wf_frame_nonempty [of f] by auto
qed simp

declare read_frames.simps [simp del]

lemma read_frames_concat:
  assumes "\<forall>f \<in> set fs. wf_frame f" "incoming s = concat fs" "ending s = Eof"
  shows "read_frames s = (fs, None)"
  using assms
proof (induction fs arbitrary: s)
  case Nil
  then have "ldap_read_frame s = (Inr None, s\<lparr>incoming := []\<rparr>)" by (simp add: ldap_read_frame_def read_exact_def)
  then show ?case by (subst read_frames.simps) simp
next
  case (Cons f fs)
  then have "ldap_read_frame s = (Inr (Some f), s\<lparr>incoming := concat fs\<rparr>)" by (simp add: ldap_read_frame_wf)
  moreover have "read_frames (s\<lparr>incoming := concat fs\<rparr>) = (fs, None)" using Cons by simp
  ultimately show ?case by (subst read_frames.simps) simp
qed

lemma read_frames_prefix:
  "read_frames s = (fs, e) \<Longrightarrow> \<exists>rest. incoming s = concat fs @ rest \<and> (\<forall>f \<in> set fs. wf_frame f) \<and> (e = None \<longrightarrow> rest = [])"
proof (induction s arbitrary: fs e rule: read_frames.induct)
  case (1 s)
  obtain r s' where r: "ldap_read_frame s = (r, s')" by fastforce
  show ?case
  proof (cases r)
    case (Inl err)
    with 1(2) r read_frames.simps [of s] show ?thesis by auto
  next
    case (Inr o')
    show ?thesis
    proof (cases o')
      case None
      with 1(2) r Inr ldap_read_frame_None [of s s'] read_frames.simps [of s] show ?thesis by simp
    next
      case (Some f)
      obtain gs e' where g: "read_frames s' = (gs, e')" by fastforce
      with 1(2) r Inr Some have "fs = f # gs" "e = e'" by (simp_all add: read_frames.simps [of s])
      with 1(1) [OF r [symmetric], unfolded Inr Some, OF refl refl g] ldap_read_frame_Some [of s f s'] r Inr Some
      show ?thesis by auto
    qed
  qed
qed

subsection \<open>Properties\<close>

text \<open>C8 The frame reader is exact: it yields a frame precisely when the stream begins with a
  well-formed one (a tag, a length in the short form or in one to four octets, and that much content,
  at most 16 MiB), yields those very bytes, and leaves the rest of the stream unread.\<close>

theorem frame_reader_exact:
  "ldap_read_frame s = (Inr (Some f), s') \<longleftrightarrow> wf_frame f \<and> incoming s = f @ incoming s' \<and> ending s' = ending s"
proof
  assume "wf_frame f \<and> incoming s = f @ incoming s' \<and> ending s' = ending s"
  with ldap_read_frame_wf [of f s "incoming s'"] show "ldap_read_frame s = (Inr (Some f), s')"
    by (cases s; cases s') simp
qed (rule ldap_read_frame_Some)

text \<open>C25 Round trip over a whole stream: any sequence of messages in the minimal BER encoding, each of
  at most 16 MiB of content, comes back frame by frame, followed by a clean end.\<close>

theorem frame_stream_round_trip:
  assumes "\<forall>(tag, content) \<in> set ms. length content \<le> MAX_FRAME_CONTENT_LEN"
  shows "read_frames \<lparr>incoming = concat (map (\<lambda>(tag, content). encode_frame tag content) ms), ending = Eof\<rparr>
     = (map (\<lambda>(tag, content). encode_frame tag content) ms, None)"
  using assms by (intro read_frames_concat) (auto simp: encode_frame_wf)

theorem frame_stream_round_trip_witness:
  "read_frames \<lparr>incoming = [0x30, 3, 2, 1, 7] @ [0x30, 0x81, 200] @ replicate 200 9, ending = Eof\<rparr>
     = ([[0x30, 3, 2, 1, 7], [0x30, 0x81, 200] @ replicate 200 9], None)"
proof -
  have "encode_frame 0x30 [2, 1, 7] = [0x30, 3, 2, 1, 7]"
    "encode_frame 0x30 (replicate 200 9) = [0x30, 0x81, 200] @ replicate 200 9"
    by (simp_all add: encode_frame_def encode_length_def octets_needed_def)
  with frame_stream_round_trip [of "[(0x30, [2, 1, 7]), (0x30, replicate 200 9)]"] show ?thesis
    by (simp add: MAX_FRAME_CONTENT_LEN_def)
qed

text \<open>C36 Oversized and malformed input is refused: a header that says more than 16 MiB is an error
  before any content is read, an indefinite length or one of more than four octets is an error, and
  content cut short by the end of the stream is an error, never a short frame.\<close>

theorem frame_reader_refuses:
  assumes "incoming s = tag # b # rest"
  shows "(says_length (b # ls) n \<and> rest = ls @ extra \<and> n > MAX_FRAME_CONTENT_LEN \<longrightarrow>
            ldap_read_frame s = (Inl (FrameTooLong n), s\<lparr>incoming := extra\<rparr>))
    \<and> (b AND 0x80 \<noteq> 0 \<and> (unat (b AND 0x7f) = 0 \<or> unat (b AND 0x7f) > 4) \<longrightarrow>
            fst (ldap_read_frame s) = Inl (UnsupportedLength (unat (b AND 0x7f))))
    \<and> (says_length (b # ls) n \<and> rest = ls @ extra \<and> length extra < n \<and> n \<le> MAX_FRAME_CONTENT_LEN \<and> ending s = Eof \<longrightarrow>
            fst (ldap_read_frame s) = Inl (Io UnexpectedEof))"
proof -
  have 1: "read_exact 1 s = (Inr [tag], s\<lparr>incoming := b # rest\<rparr>)" using assms by (simp add: read_exact_def)
  have 2: "read_exact 1 (s\<lparr>incoming := b # rest\<rparr>) = (Inr [b], s\<lparr>incoming := rest\<rparr>)" by (simp add: read_exact_def)
  have 3: "read_length b (s\<lparr>incoming := rest\<rparr>) = (Inr (ls, n), s\<lparr>incoming := extra\<rparr>)"
    if "says_length (b # ls) n" "rest = ls @ extra"
    using that read_length_long [of b ls "s\<lparr>incoming := rest\<rparr>" extra]
    by (cases "b AND 0x80 = 0") (simp_all add: says_length_def read_length_def)
  have 4: "read_length b (s\<lparr>incoming := rest\<rparr>) = (Inl (UnsupportedLength (unat (b AND 0x7f))), s\<lparr>incoming := rest\<rparr>)"
    if "b AND 0x80 \<noteq> 0" "unat (b AND 0x7f) = 0 \<or> unat (b AND 0x7f) > 4"
    using that by (auto simp: read_length_def Let_def)
  have 5: "read_exact n (s\<lparr>incoming := extra\<rparr>) = (Inl UnexpectedEof, s\<lparr>incoming := []\<rparr>)"
    if "length extra < n" "ending s = Eof"
    using that by (simp add: read_exact_def)
  have A: "ldap_read_frame s = (Inl (FrameTooLong n), s\<lparr>incoming := extra\<rparr>)"
    if "says_length (b # ls) n" "rest = ls @ extra" "n > MAX_FRAME_CONTENT_LEN"
    using that(3) by (simp add: ldap_read_frame_def 1 2 3 [OF that(1,2)] del: One_nat_def)
  have B: "fst (ldap_read_frame s) = Inl (UnsupportedLength (unat (b AND 0x7f)))"
    if "b AND 0x80 \<noteq> 0" "unat (b AND 0x7f) = 0 \<or> unat (b AND 0x7f) > 4"
    by (simp add: ldap_read_frame_def 1 2 4 [OF that] del: One_nat_def)
  have "fst (ldap_read_frame s) = Inl (Io UnexpectedEof)"
    if "says_length (b # ls) n" "rest = ls @ extra" "length extra < n" "n \<le> MAX_FRAME_CONTENT_LEN" "ending s = Eof"
    using that(4) by (simp add: ldap_read_frame_def 1 2 3 [OF that(1,2)] 5 [OF that(3,5)] del: One_nat_def)
  with A B show ?thesis by blast
qed

theorem frame_reader_refuses_witness:
  "fst (ldap_read_frame \<lparr>incoming = [0x30, 0x84, 1, 0, 0, 1, 5], ending = Eof\<rparr>) = Inl (FrameTooLong 16777217)
   \<and> fst (ldap_read_frame \<lparr>incoming = [0x30, 0x80, 1, 5], ending = Eof\<rparr>) = Inl (UnsupportedLength 0)
   \<and> fst (ldap_read_frame \<lparr>incoming = [0x30, 2, 5], ending = Eof\<rparr>) = Inl (Io UnexpectedEof)"
  using frame_reader_refuses [where s = "\<lparr>incoming = [0x30, 0x84, 1, 0, 0, 1, 5], ending = Eof\<rparr>" and tag = "0x30" and b = "0x84"
        and rest = "[1, 0, 0, 1, 5]" and ls = "[1, 0, 0, 1]" and n = 16777217 and extra = "[5]"]
    frame_reader_refuses [of "\<lparr>incoming = [0x30, 0x80, 1, 5], ending = Eof\<rparr>" "0x30" "0x80" "[1, 5]"]
    frame_reader_refuses [where s = "\<lparr>incoming = [0x30, 2, 5], ending = Eof\<rparr>" and tag = "0x30" and b = 2
        and rest = "[5]" and ls = "[]" and n = 2 and extra = "[5]"]
  by (simp add: says_length_def from_be_bytes_def MAX_FRAME_CONTENT_LEN_def)

end
