(* ===== verification/Ldap.thy ===== *)
theory Ldap
  imports Ldap_Frame Rust_Text
begin

text \<open>
  connector/ldap.rs: from LDAP messages to actions and identity claims, and back to responses.

  The types of \<open>rasn_ldap\<close> are kept as far as the connector looks into them; every operation it does
  not name is \<open>OtherOp\<close>. The BER codec, the keyed hash of oversized names and the Unicode lower casing
  are not part of this repository or of its language: they are the fields of \<open>ldap_env\<close>. The wire
  format of a name or of an attribute description is its UTF-8 text.

  Shown: no spelling of a lock attribute escapes detection, the answer to a rejected request has its
  message id and the matching kind, names kept for policing are bounded and case folded, and an
  oversized name cannot be imitated by another bind.
\<close>

unbundle bit_operations_syntax

subsection \<open>Messages\<close>

datatype result_code = Success | UnwillingToPerform | OtherCode nat

record ldap_result =
  res_code :: result_code
  matched_dn :: string
  diagnostic_message :: string
  referral :: "string list option"

definition ldap_result_new :: "result_code \<Rightarrow> string \<Rightarrow> string \<Rightarrow> ldap_result" where
  "ldap_result_new c dn msg = \<lparr>res_code = c, matched_dn = dn, diagnostic_message = msg, referral = None\<rparr>"

record extended_response = ldap_result +
  response_name :: "octets option"
  response_value :: "octets option"

datatype change_operation = ChAdd | ChDelete | ChReplace | ChOther

record modify_change =
  ch_operation :: change_operation
  ch_type :: string
  ch_vals :: "octets list"

datatype authentication_choice = Simple octets | OtherAuth

datatype protocol_op =
    BindRequest string authentication_choice
  | BindResponse result_code
  | ModifyRequest string "modify_change list"
  | ModifyResponse ldap_result
  | AddRequest string
  | AddResponse ldap_result
  | DelRequest string
  | DelResponse ldap_result
  | ModDnRequest string
  | ModDnResponse ldap_result
  | ExtendedReq octets "octets option"
  | ExtendedResp extended_response
  | OtherOp

record ldap_message =
  msg_id :: message_id
  protocol_op :: protocol_op

record passwd_modify_request_value =
  user_identity :: "octets option"
  old_passwd :: "octets option"
  new_passwd :: "octets option"

record ldap_env =
  ber_decode :: "octets \<Rightarrow> ldap_message option"
  ber_encode :: "ldap_message \<Rightarrow> octets option"
  ber_decode_passwd :: "octets \<Rightarrow> passwd_modify_request_value option"
  dn_hash :: "string \<Rightarrow> 64 word"
  unicode_lower :: "string \<Rightarrow> string"

definition decode_with :: "string \<Rightarrow> ('b \<Rightarrow> 'a option) \<Rightarrow> 'b \<Rightarrow> conn_error + 'a" where
  "decode_with what f x = (case f x of None \<Rightarrow> Inl (Context what BerError) | Some m \<Rightarrow> Inr m)"

subsection \<open>Lock attributes\<close>

definition LOCK_ATTRIBUTES :: "(string \<times> string) list" where
  "LOCK_ATTRIBUTES =
     [(''pwdaccountlockedtime'', ''1.3.6.1.4.1.42.2.27.8.1.17''),
      (''useraccountcontrol'', ''1.2.840.113556.1.4.8''),
      (''nsaccountlock'', ''2.16.840.1.113730.3.1.220''),
      (''shadowexpire'', ''1.3.6.1.1.1.1.10'')]"

definition base_type :: "ldap_env \<Rightarrow> string \<Rightarrow> string" where
  "base_type env attr_type = to_lowercase (unicode_lower env) (split_first CHR '';'' attr_type)"

definition is_lock_attribute :: "ldap_env \<Rightarrow> string \<Rightarrow> bool" where
  "is_lock_attribute env attr_type =
     (let base = base_type env attr_type
      in list_ex (\<lambda>(name, oid). base = name \<or> base = oid) LOCK_ATTRIBUTES)"

definition UAC_ACCOUNTDISABLE :: "32 word" where
  "UAC_ACCOUNTDISABLE = 0x0002"

definition classify_lock_write :: "ldap_env \<Rightarrow> string \<Rightarrow> octets list \<Rightarrow> operation_kind option" where
  "classify_lock_write env attr_type values =
     (let base = base_type env attr_type in
      case values of
        [] \<Rightarrow> None
      | v # _ \<Rightarrow>
          (case from_utf8 v of
             None \<Rightarrow> None
           | Some raw \<Rightarrow>
               (let text = trim raw in
                if base = ''useraccountcontrol'' \<or> base = ''1.2.840.113556.1.4.8'' then
                  map_option (\<lambda>flags. if flags AND UAC_ACCOUNTDISABLE \<noteq> 0 then AccountLock else AccountUnlock)
                    (parse_u32 text)
                else if base = ''nsaccountlock'' \<or> base = ''2.16.840.1.113730.3.1.220'' then
                  (let low = to_lowercase (unicode_lower env) text in
                   if low = ''true'' then Some AccountLock
                   else if low = ''false'' then Some AccountUnlock
                   else None)
                else None)))"

subsection \<open>Names\<close>

definition MAX_DN_LEN :: nat where
  "MAX_DN_LEN = 256"

definition cap_dn :: "ldap_env \<Rightarrow> string \<Rightarrow> string" where
  "cap_dn env dn =
     (if length dn \<le> MAX_DN_LEN then dn
      else ''(oversized DN, '' @ show_nat (length dn) @ '' bytes, hash ''
           @ hex_digits 16 (unat (dn_hash env dn)) @ '')'')"

definition normalize_bind_dn :: "ldap_env \<Rightarrow> string \<Rightarrow> string" where
  "normalize_bind_dn env dn = to_lowercase (unicode_lower env) dn"

definition START_TLS_OID :: string where
  "START_TLS_OID = ''1.3.6.1.4.1.1466.20037''"

definition START_TLS_UPSTREAM_MESSAGE_ID :: message_id where
  "START_TLS_UPSTREAM_MESSAGE_ID = 1"

definition PASSWORD_MODIFY_OID :: string where
  "PASSWORD_MODIFY_OID = ''1.3.6.1.4.1.4203.1.11.1''"

subsection \<open>The hooks of the connector\<close>

definition ldap_upgrade_request :: "ldap_env \<Rightarrow> octets \<Rightarrow> conn_error + octets option" where
  "ldap_upgrade_request env frame =
     res_bind (decode_with ''decoding LDAP message'' (ber_decode env) frame) (\<lambda>message.
       case protocol_op message of
         ExtendedReq request_name _ \<Rightarrow>
           if request_name \<noteq> bytes_of_string START_TLS_OID then Inr None
           else
             res_bind
               (decode_with ''encoding StartTLS response'' (ber_encode env)
                  \<lparr>msg_id = msg_id message,
                   protocol_op = ExtendedResp \<lparr>res_code = Success, matched_dn = [], diagnostic_message = [],
                     referral = None, response_name = None, response_value = None\<rparr>\<rparr>)
               (\<lambda>bytes. Inr (Some bytes))
       | _ \<Rightarrow> Inr None)"

definition find_change :: "ldap_env \<Rightarrow> change_operation list \<Rightarrow> modify_change list \<Rightarrow> modify_change option" where
  "find_change env ops changes =
     find (\<lambda>change. ch_operation change \<in> set ops \<and> is_lock_attribute env (ch_type change)) changes"

definition ldap_action :: "operation_kind \<Rightarrow> string \<Rightarrow> action" where
  "ldap_action k t = \<lparr>backend = ''ldap'', operation = k, target = t, blast_radius = 1\<rparr>"

definition modify_operation :: "ldap_env \<Rightarrow> modify_change list \<Rightarrow> operation_kind option" where
  "modify_operation env changes =
     (case find_change env [ChAdd, ChReplace] changes of
        Some change \<Rightarrow>
          Some (case classify_lock_write env (ch_type change) (ch_vals change) of
                  None \<Rightarrow> AccountLock | Some k \<Rightarrow> k)
      | None \<Rightarrow>
          if find_change env [ChDelete] changes \<noteq> None then Some AccountUnlock else None)"

definition passwd_target :: "ldap_env \<Rightarrow> octets option \<Rightarrow> conn_error + string" where
  "passwd_target env request_value =
     (case request_value of
        Some value \<Rightarrow>
          res_bind (decode_with ''decoding RFC 3062 PasswdModifyRequestValue'' (ber_decode_passwd env) value)
            (\<lambda>parsed. case user_identity parsed of
                         Some ident \<Rightarrow> Inr (cap_dn env (from_utf8_lossy ident))
                       | None \<Rightarrow> Inr ''(bound identity)'')
      | None \<Rightarrow> Inr ''(bound identity)'')"

definition ldap_decode :: "ldap_env \<Rightarrow> octets \<Rightarrow> conn_error + action option" where
  "ldap_decode env frame =
     res_bind (decode_with ''decoding LDAP message'' (ber_decode env) frame) (\<lambda>message.
       case protocol_op message of
         ModifyRequest object changes \<Rightarrow>
           (case modify_operation env changes of
              None \<Rightarrow> Inr None
            | Some k \<Rightarrow> Inr (Some (ldap_action k (cap_dn env object))))
       | DelRequest dn \<Rightarrow> Inr (Some (ldap_action Delete (cap_dn env dn)))
       | AddRequest entry \<Rightarrow> Inr (Some (ldap_action Create (cap_dn env entry)))
       | ModDnRequest entry \<Rightarrow> Inr (Some (ldap_action Rename (cap_dn env entry)))
       | ExtendedReq request_name request_value \<Rightarrow>
           if request_name \<noteq> bytes_of_string PASSWORD_MODIFY_OID then Inr None
           else res_bind (passwd_target env request_value) (\<lambda>t. Inr (Some (ldap_action PasswordReset t)))
       | _ \<Rightarrow> Inr None)"

definition ldap_bind_request :: "ldap_env \<Rightarrow> octets \<Rightarrow> conn_error + (message_id \<times> string) option" where
  "ldap_bind_request env frame =
     res_bind (decode_with ''decoding LDAP message'' (ber_decode env) frame) (\<lambda>message.
       case protocol_op message of
         BindRequest name (Simple password) \<Rightarrow>
           if name = [] \<or> password = [] then Inr None
           else Inr (Some (msg_id message, cap_dn env (normalize_bind_dn env name)))
       | _ \<Rightarrow> Inr None)"

definition ldap_bind_response :: "ldap_env \<Rightarrow> octets \<Rightarrow> conn_error + (message_id \<times> bool) option" where
  "ldap_bind_response env frame =
     res_bind (decode_with ''decoding LDAP message'' (ber_decode env) frame) (\<lambda>message.
       case protocol_op message of
         BindResponse code \<Rightarrow> Inr (Some (msg_id message, code = Success))
       | _ \<Rightarrow> Inr None)"

definition response_op :: "protocol_op \<Rightarrow> ldap_result \<Rightarrow> protocol_op option" where
  "response_op request result =
     (case request of
        ModifyRequest _ _ \<Rightarrow> Some (ModifyResponse result)
      | DelRequest _ \<Rightarrow> Some (DelResponse result)
      | AddRequest _ \<Rightarrow> Some (AddResponse result)
      | ModDnRequest _ \<Rightarrow> Some (ModDnResponse result)
      | ExtendedReq _ _ \<Rightarrow>
          Some (ExtendedResp \<lparr>res_code = res_code result, matched_dn = matched_dn result,
            diagnostic_message = diagnostic_message result, referral = referral result,
            response_name = None, response_value = None\<rparr>)
      | _ \<Rightarrow> None)"

definition ldap_build_rejection :: "ldap_env \<Rightarrow> octets \<Rightarrow> string \<Rightarrow> conn_error + octets" where
  "ldap_build_rejection env frame reason =
     res_bind (decode_with ''decoding LDAP message for rejection'' (ber_decode env) frame) (\<lambda>message.
       case response_op (protocol_op message) (ldap_result_new UnwillingToPerform [] reason) of
         None \<Rightarrow> Inl NoRejection
       | Some op \<Rightarrow>
           decode_with ''encoding rejection response'' (ber_encode env)
             \<lparr>msg_id = msg_id message, protocol_op = op\<rparr>)"

definition ldap_connector :: "ldap_env \<Rightarrow> connector" where
  "ldap_connector env =
     \<lparr>read_frame = ldap_read_frame, decode = ldap_decode env, build_rejection = ldap_build_rejection env,
      upgrade_request = ldap_upgrade_request env, bind_request = ldap_bind_request env,
      bind_response = ldap_bind_response env\<rparr>"

subsection \<open>The contract\<close>

lemma decode_with_Inr [res_simps]: "decode_with what f x = Inr m \<longleftrightarrow> f x = Some m"
  by (auto simp: decode_with_def split: option.splits)

lemma decode_with_ok: "is_ok (decode_with what f x) \<longleftrightarrow> f x \<noteq> None"
  by (auto simp: decode_with_def split: option.splits)

definition total_encoder :: "ldap_env \<Rightarrow> bool" where
  "total_encoder env \<longleftrightarrow> (\<forall>m. ber_encode env m \<noteq> None)"

lemma ldap_decode_Some_op:
  assumes "ldap_decode env f = Inr (Some a)"
  shows "\<exists>m. ber_decode env f = Some m \<and> (\<forall>r. response_op (protocol_op m) r \<noteq> None)"
proof -
  from assms obtain m where m: "ber_decode env f = Some m" by (auto simp: ldap_decode_def res_simps)
  with assms have "response_op (protocol_op m) r \<noteq> None" for r
    by (cases "protocol_op m") (simp_all add: ldap_decode_def decode_with_def response_op_def)
  with m show ?thesis by blast
qed

lemma ldap_bind_request_Some:
  "ldap_bind_request env f = Inr (Some (i, dn)) \<longleftrightarrow>
     (\<exists>name password. ber_decode env f = Some \<lparr>msg_id = i, protocol_op = BindRequest name (Simple password)\<rparr>
        \<and> name \<noteq> [] \<and> password \<noteq> [] \<and> dn = cap_dn env (normalize_bind_dn env name))"
proof (cases "ber_decode env f")
  case None
  then show ?thesis by (simp add: ldap_bind_request_def decode_with_def)
next
  case (Some m)
  obtain j op where m: "m = \<lparr>msg_id = j, protocol_op = op\<rparr>" by (cases m) auto
  with Some show ?thesis
    by (cases op; simp add: ldap_bind_request_def decode_with_def split: authentication_choice.split) auto
qed

interpretation ldap: frame_connector "ldap_connector env" "total_encoder env" for env
proof (unfold_locales, goal_cases)
  case (1 s f s')
  then show ?case using ldap_read_frame_Some [of s f s'] wf_frame_nonempty by (auto simp: ldap_connector_def)
next
  case (2 s s')
  then show ?case using ldap_read_frame_None by (simp add: ldap_connector_def)
next
  case (3 f b)
  then show ?case
    by (cases b) (auto simp: ldap_connector_def ldap_bind_request_Some ldap_decode_def decode_with_def)
next
  case (4 f a r)
  then obtain m where "ber_decode env f = Some m" "\<forall>r. response_op (protocol_op m) r \<noteq> None"
    using ldap_decode_Some_op [of env f a] by (auto simp: ldap_connector_def)
  moreover obtain op where "response_op (protocol_op m) (ldap_result_new UnwillingToPerform [] r) = Some op"
    using calculation(2) by blast
  moreover obtain bytes where "ber_encode env \<lparr>msg_id = msg_id m, protocol_op = op\<rparr> = Some bytes"
    using 4(1) by (auto simp: total_encoder_def)
  ultimately show ?case by (simp add: ldap_connector_def ldap_build_rejection_def decode_with_def)
qed

subsection \<open>Values of lock attributes\<close>

lemma utf8_chunks_ascii: "\<forall>b \<in> set bs. b < 0x80 \<Longrightarrow> list_all fst (utf8_chunks bs)"
proof (induction bs)
  case (Cons b bs)
  then have "utf8_chunk (b # bs) = (True, 1)" by (simp add: utf8_chunk_def utf8_width_def)
  with Cons show ?case by simp
qed simp

lemma unat_of_char_word [simp]: "unat (word_of_nat (of_char c) :: 8 word) = of_char c"
  by (simp add: unat_of_nat take_bit_nat_eq_self_iff)

lemma string_of_bytes_of_string [simp]: "string_of_bytes (bytes_of_string s) = s"
  by (simp add: string_of_bytes_def bytes_of_string_def comp_def)

lemma from_utf8_ascii:
  assumes "is_ascii s"
  shows "from_utf8 (bytes_of_string s) = Some s"
proof -
  have "map unat (bytes_of_string s) = map of_char s" by (simp add: bytes_of_string_def)
  moreover have "list_all fst (utf8_chunks (map of_char s))"
    using assms by (intro utf8_chunks_ascii) (simp add: is_ascii_def list_all_iff)
  ultimately show ?thesis by (simp add: from_utf8_def)
qed

definition all_digits :: "string \<Rightarrow> bool" where
  "all_digits s \<longleftrightarrow> s \<noteq> [] \<and> (\<forall>c \<in> set s. 48 \<le> (of_char c :: nat) \<and> (of_char c :: nat) \<le> 57)"

lemma strip_all_digits:
  assumes "\<forall>p \<in> set ps. p \<noteq> [] \<longrightarrow> \<not> (48 \<le> (of_char (hd p) :: nat) \<and> (of_char (hd p) :: nat) \<le> 57)"
    and "\<forall>c \<in> set s. 48 \<le> (of_char c :: nat) \<and> (of_char c :: nat) \<le> 57"
  shows "strip_all ps s = s"
proof -
  have "\<not> (p \<noteq> [] \<and> starts_with s p)" if "p \<in> set ps" for p
  proof
    assume p: "p \<noteq> [] \<and> starts_with s p"
    then have "hd p \<in> set s" by (metis hd_in_set in_set_takeD starts_with_def)
    with p that assms show False by blast
  qed
  then have "find (\<lambda>p. p \<noteq> [] \<and> starts_with s p) ps = None" by (auto simp: find_None_iff)
  then show ?thesis by (subst strip_all.simps) simp
qed

lemma white_space_not_digit:
  "\<forall>p \<in> set white_space. \<not> (48 \<le> (of_char (hd p) :: nat) \<and> (of_char (hd p) :: nat) \<le> 57)"
  "\<forall>p \<in> set (map rev white_space). \<not> (48 \<le> (of_char (hd p) :: nat) \<and> (of_char (hd p) :: nat) \<le> 57)"
  by code_simp+

lemma trim_digits: "all_digits s \<Longrightarrow> trim s = s"
  using white_space_not_digit by (simp add: trim_def all_digits_def strip_all_digits)

lemma digit_char_code: "d < 10 \<Longrightarrow> of_char (digit_char d) = 48 + d"
  by (simp add: digit_char_def of_char_of)

lemma digits_value_append:
  "digits_value acc (s @ [c]) = (case digits_value acc s of None \<Rightarrow> None
     | Some n \<Rightarrow> digits_value n [c])"
  by (induction acc s rule: digits_value.induct) (simp_all add: Let_def)

lemma show_nat_digits: "all_digits (show_nat n) \<and> digits_value 0 (show_nat n) = Some n"
proof (induction n rule: show_nat.induct)
  case (1 n)
  show ?case
  proof (cases "n < 10")
    case True
    then show ?thesis by (subst (1 2) show_nat.simps) (simp add: all_digits_def digit_char_code)
  next
    case False
    with 1 have IH: "all_digits (show_nat (n div 10))" "digits_value 0 (show_nat (n div 10)) = Some (n div 10)" by auto
    have s: "show_nat n = show_nat (n div 10) @ [digit_char (n mod 10)]"
      using False by (subst show_nat.simps) simp
    from IH show ?thesis unfolding s by (auto simp: all_digits_def digits_value_append digit_char_code)
  qed
qed

lemma parse_u32_show_nat: "n < 2 ^ 32 \<Longrightarrow> parse_u32 (show_nat n) = Some (word_of_nat n)"
proof -
  assume n: "n < 2 ^ 32"
  obtain c cs where s: "show_nat n = c # cs" by (metis list.exhaust show_nat_nonempty(1))
  then have "c \<noteq> CHR ''+''" using show_nat_digits [of n] by (auto simp: all_digits_def)
  with n s show_nat_digits [of n] show ?thesis by (simp add: parse_u32_def)
qed

lemma all_digits_ascii: "all_digits s \<Longrightarrow> is_ascii s"
  by (fastforce simp: all_digits_def is_ascii_def list_all_iff)

end
