(* ===== verification/Ldap_Properties.thy ===== *)
theory Ldap_Properties
  imports Ldap
begin

text \<open>
  Properties of the LDAP connector: detection of account locks, answers to rejected requests, and the
  names that become identities.
\<close>

unbundle bit_operations_syntax

subsection \<open>Names: lemmas\<close>

definition no_upper :: "string \<Rightarrow> bool" where
  "no_upper s \<longleftrightarrow> (\<forall>c \<in> set s. \<not> (65 \<le> (of_char c :: nat) \<and> (of_char c :: nat) \<le> 90))"

definition lower_ok :: "ldap_env \<Rightarrow> bool" where
  "lower_ok env \<longleftrightarrow> (\<forall>s. no_upper (unicode_lower env s))"

lemma normalize_no_upper: "lower_ok env \<Longrightarrow> no_upper (normalize_bind_dn env dn)"
  using ascii_lower_not_upper by (auto simp: normalize_bind_dn_def to_lowercase_def lower_ok_def no_upper_def)

definition dn_marker :: "ldap_env \<Rightarrow> string \<Rightarrow> string" where
  "dn_marker env dn = ''(oversized DN, '' @ show_nat (length dn) @ '' bytes, hash ''
           @ hex_digits 16 (unat (dn_hash env dn)) @ '')''"

lemma cap_dn_cases: "cap_dn env dn = (if length dn \<le> 256 then dn else dn_marker env dn)"
  by (simp add: cap_dn_def MAX_DN_LEN_def dn_marker_def)

lemma length_dn_marker: "length dn < 2 ^ 64 \<Longrightarrow> length (dn_marker env dn) \<le> 256"
  using length_show_nat [of "length dn" 20] by (simp add: dn_marker_def)

lemma dn_marker_upper: "\<not> no_upper (dn_marker env dn)"
  by (simp add: dn_marker_def no_upper_def)

lemma dn_marker_inj:
  assumes "dn_marker env a = dn_marker env b"
  shows "length a = length b \<and> dn_hash env a = dn_hash env b"
proof -
  let ?h = "\<lambda>d. '' bytes, hash '' @ hex_digits 16 (unat (dn_hash env d)) @ '')''"
  have "show_nat (length a) @ ?h a = show_nat (length b) @ ?h b" using assms by (simp add: dn_marker_def)
  then have eq: "show_nat (length a) = show_nat (length b)" "?h a = ?h b"
    by (simp_all add: append_eq_append_conv)
  from eq(2) have "hex_digits 16 (unat (dn_hash env a)) = hex_digits 16 (unat (dn_hash env b))" by simp
  moreover have "unat (dn_hash env d) < 16 ^ 16" for d using unsigned_less [of "dn_hash env d"] by simp
  ultimately have "unat (dn_hash env a) = unat (dn_hash env b)" by (metis hex_digits_inj)
  with eq(1) show ?thesis by (auto simp: word_unat_eq_iff dest: show_nat_inj)
qed

subsection \<open>Lock changes: lemmas\<close>

lemma is_lock_attribute_iff:
  "is_lock_attribute env attr \<longleftrightarrow> (\<exists>(name, oid) \<in> set LOCK_ATTRIBUTES. base_type env attr \<in> {name, oid})"
  by (auto simp: is_lock_attribute_def Let_def list_ex_iff)

lemma find_change_hit:
  "c \<in> set changes \<Longrightarrow> ch_operation c \<in> set ops \<Longrightarrow> is_lock_attribute env (ch_type c) \<Longrightarrow> find_change env ops changes \<noteq> None"
  by (auto simp: find_change_def find_None_iff)

lemma classify_lock_write_kinds: "classify_lock_write env attr vals = Some k \<Longrightarrow> k \<in> {AccountLock, AccountUnlock}"
  by (auto simp: classify_lock_write_def Let_def split: list.splits option.splits if_splits)

lemma modify_operation_kinds: "modify_operation env changes = Some k \<Longrightarrow> k \<in> {AccountLock, AccountUnlock}"
  by (auto simp: modify_operation_def split: option.splits if_splits dest: classify_lock_write_kinds)

lemma modify_operation_hit:
  assumes "c \<in> set changes" "ch_operation c \<in> {ChAdd, ChDelete, ChReplace}" "is_lock_attribute env (ch_type c)"
  shows "modify_operation env changes \<noteq> None"
  using find_change_hit [OF assms(1) _ assms(3), of "[ChAdd, ChReplace]"] assms(2)
    find_change_hit [OF assms(1) _ assms(3), of "[ChDelete]"]
  by (auto simp: modify_operation_def split: option.splits)

subsection \<open>A concrete codec for the witnesses\<close>

text \<open>A codec that knows a fixed table of messages; frames are told apart by their bytes.\<close>

definition table_env :: "(octets \<times> ldap_message) list \<Rightarrow> ldap_env" where
  "table_env tbl =
     \<lparr>ber_decode = map_of tbl,
      ber_encode = (\<lambda>m. Some (case find (\<lambda>(f, m'). m' = m) tbl of None \<Rightarrow> [0x30, 0] | Some (f, _) \<Rightarrow> f)),
      ber_decode_passwd = (\<lambda>_. None), dn_hash = (\<lambda>s. word_of_nat (length s)), unicode_lower = (\<lambda>_. [])\<rparr>"

definition demo_change :: "string \<Rightarrow> string \<Rightarrow> modify_change" where
  "demo_change attr v = \<lparr>ch_operation = ChReplace, ch_type = attr, ch_vals = [bytes_of_string v]\<rparr>"

subsection \<open>Properties\<close>

text \<open>C7 No spelling of a lock attribute escapes: a Modify with any change that adds, replaces or
  deletes one, named in any mix of upper and lower case, by its name or its numeric OID, with or
  without attribute options, wherever it stands among the changes, is an account lock or unlock of
  the entry named.\<close>

theorem lock_attribute_not_bypassed:
  assumes "ber_decode env f = Some \<lparr>msg_id = i, protocol_op = ModifyRequest dn changes\<rparr>"
    and "c \<in> set changes" "ch_operation c \<in> {ChAdd, ChDelete, ChReplace}"
    and "ch_type c = spelled @ options" "options = [] \<or> hd options = CHR '';''" "CHR '';'' \<notin> set spelled"
    and "is_ascii spelled" "(name, oid) \<in> set LOCK_ATTRIBUTES" "map ascii_lower spelled \<in> {name, oid}"
  shows "\<exists>k \<in> {AccountLock, AccountUnlock}. ldap_decode env f = Inr (Some (ldap_action k (cap_dn env dn)))"
proof -
  have "split_first CHR '';'' (ch_type c) = spelled"
    using assms(4-6) unfolding split_first_def by (cases options) (auto simp: takeWhile_append takeWhile_eq_all_conv)
  then have "is_lock_attribute env (ch_type c)"
    using assms(7-9) by (auto simp: is_lock_attribute_iff base_type_def)
  from modify_operation_hit [OF assms(2,3) this] obtain k where "modify_operation env changes = Some k" by blast
  with modify_operation_kinds [OF this] assms(1) show ?thesis by (auto simp: ldap_decode_def decode_with_def)
qed

theorem lock_attribute_not_bypassed_witness:
  "let m = \<lparr>msg_id = 7, protocol_op = ModifyRequest ''cn=Eve'' [demo_change ''mail'' ''x'', demo_change ''UserAccountControl;binary'' ''514'']\<rparr>
   in \<exists>k \<in> {AccountLock, AccountUnlock}. ldap_decode (table_env [([0x30, 1, 9], m)]) [0x30, 1, 9]
        = Inr (Some (ldap_action k ''cn=Eve''))"
proof -
  let ?c = "demo_change ''UserAccountControl;binary'' ''514''"
  let ?m = "\<lparr>msg_id = 7, protocol_op = ModifyRequest ''cn=Eve'' [demo_change ''mail'' ''x'', ?c]\<rparr>"
  let ?env = "table_env [([0x30, 1, 9], ?m)]"
  have "ber_decode ?env [0x30, 1, 9] = Some ?m" by (simp add: table_env_def)
  moreover have "ch_operation ?c = ChReplace" "ch_type ?c = ''UserAccountControl'' @ '';binary''" by (simp_all add: demo_change_def)
  moreover have "is_ascii ''UserAccountControl''" "CHR '';'' \<notin> set ''UserAccountControl''"
    "map ascii_lower ''UserAccountControl'' = ''useraccountcontrol''" by code_simp+
  moreover have "(''useraccountcontrol'', ''1.2.840.113556.1.4.8'') \<in> set LOCK_ATTRIBUTES" by (simp add: LOCK_ATTRIBUTES_def)
  ultimately have "\<exists>k \<in> {AccountLock, AccountUnlock}. ldap_decode ?env [0x30, 1, 9] = Inr (Some (ldap_action k (cap_dn ?env ''cn=Eve'')))"
    by (intro lock_attribute_not_bypassed [where c = ?c and spelled = "''UserAccountControl''" and options = "'';binary''"]) auto
  then show ?thesis by (simp add: cap_dn_cases)
qed

text \<open>The value of \<open>userAccountControl\<close> is read as directories write it: the decimal form of any
  32 bit mask is a lock exactly when its \<open>ACCOUNTDISABLE\<close> bit is set, and an unlock otherwise.\<close>

theorem account_control_value:
  assumes "n < 2 ^ 32" "base_type env attr \<in> {''useraccountcontrol'', ''1.2.840.113556.1.4.8''}"
  shows "classify_lock_write env attr (bytes_of_string (show_nat n) # more_values)
     = Some (if bit n 1 then AccountLock else AccountUnlock)"
proof -
  note d = show_nat_digits [of n, THEN conjunct1]
  have "from_utf8 (bytes_of_string (show_nat n)) = Some (show_nat n)"
    using d by (simp add: from_utf8_ascii all_digits_ascii)
  moreover have "(word_of_nat n :: 32 word) AND UAC_ACCOUNTDISABLE = 0 \<longleftrightarrow> \<not> bit n 1"
  proof -
    have "(word_of_nat n :: 32 word) AND UAC_ACCOUNTDISABLE = 0 \<longleftrightarrow> \<not> bit (word_of_nat n :: 32 word) 1"
      using and_exp_eq_0_iff_not_bit [of "word_of_nat n :: 32 word" 1] by (simp add: UAC_ACCOUNTDISABLE_def)
    then show ?thesis by (simp add: bit_simps)
  qed
  ultimately show ?thesis
    using assms d by (auto simp: classify_lock_write_def Let_def trim_digits parse_u32_show_nat)
qed

theorem account_control_value_witness:
  "classify_lock_write (table_env []) ''USERACCOUNTCONTROL'' [bytes_of_string (show_nat 514)] = Some AccountLock"
proof -
  have "base_type (table_env []) ''USERACCOUNTCONTROL'' = ''useraccountcontrol''" by code_simp
  with account_control_value [of 514 "table_env []" "''USERACCOUNTCONTROL''" "[]"] show ?thesis
    by (simp add: bit_iff_odd)
qed

text \<open>The application tags of RFC 4511, section 4: the response to a request has the tag that follows the
  request's. The result that a response carries: its code, the matched name and the diagnostic message.\<close>

fun application_tag :: "protocol_op \<Rightarrow> nat option" where
  "application_tag (BindRequest _ _) = Some 0"
| "application_tag (BindResponse _) = Some 1"
| "application_tag (ModifyRequest _ _) = Some 6"
| "application_tag (ModifyResponse _) = Some 7"
| "application_tag (AddRequest _) = Some 8"
| "application_tag (AddResponse _) = Some 9"
| "application_tag (DelRequest _) = Some 10"
| "application_tag (DelResponse _) = Some 11"
| "application_tag (ModDnRequest _) = Some 12"
| "application_tag (ModDnResponse _) = Some 13"
| "application_tag (ExtendedReq _ _) = Some 23"
| "application_tag (ExtendedResp _) = Some 24"
| "application_tag OtherOp = None"

fun carried_result :: "protocol_op \<Rightarrow> (result_code \<times> string \<times> string) option" where
  "carried_result (ModifyResponse r) = Some (res_code r, matched_dn r, diagnostic_message r)"
| "carried_result (AddResponse r) = Some (res_code r, matched_dn r, diagnostic_message r)"
| "carried_result (DelResponse r) = Some (res_code r, matched_dn r, diagnostic_message r)"
| "carried_result (ModDnResponse r) = Some (res_code r, matched_dn r, diagnostic_message r)"
| "carried_result (ExtendedResp r) = Some (res_code r, matched_dn r, diagnostic_message r)"
| "carried_result _ = None"

text \<open>C16 A rejection answers the request it rejects: for every frame that was decoded to an action, what the
  client decodes from the rejection is a message with the message id of the request and the application
  tag that RFC 4511 gives to the response to it, that says \<open>unwillingToPerform\<close> and carries the reason;
  there is no rejection only if the codec cannot encode that message. The codec decodes what it has encoded.\<close>

theorem rejection_matches_request:
  assumes "ldap_decode env f = Inr (Some a)" "\<forall>m b. ber_encode env m = Some b \<longrightarrow> ber_decode env b = Some m"
  shows "\<exists>request tag response. ber_decode env f = Some request \<and> application_tag (protocol_op request) = Some tag
     \<and> msg_id response = msg_id request \<and> application_tag (protocol_op response) = Some (Suc tag)
     \<and> carried_result (protocol_op response) = Some (UnwillingToPerform, [], reason)
     \<and> (case ber_encode env response of
          None \<Rightarrow> \<exists>e. ldap_build_rejection env f reason = Inl e
        | Some bytes \<Rightarrow> ldap_build_rejection env f reason = Inr bytes \<and> ber_decode env bytes = Some response)"
proof -
  from assms(1) obtain m where m: "ber_decode env f = Some m" by (auto simp: ldap_decode_def res_simps)
  with assms(1) obtain tag op where op: "application_tag (protocol_op m) = Some tag"
    "response_op (protocol_op m) (ldap_result_new UnwillingToPerform [] reason) = Some op"
    "application_tag op = Some (Suc tag)" "carried_result op = Some (UnwillingToPerform, [], reason)"
    by (cases "protocol_op m") (simp_all add: ldap_decode_def decode_with_def response_op_def ldap_result_new_def)
  let ?r = "\<lparr>msg_id = msg_id m, protocol_op = op\<rparr>"
  have "case ber_encode env ?r of None \<Rightarrow> \<exists>e. ldap_build_rejection env f reason = Inl e
      | Some bytes \<Rightarrow> ldap_build_rejection env f reason = Inr bytes \<and> ber_decode env bytes = Some ?r"
    using m op(2) assms(2) by (auto simp: ldap_build_rejection_def decode_with_def split: option.splits)
  with m op show ?thesis by (intro exI [of _ m] exI [of _ tag] exI [of _ ?r]) simp
qed

definition delete_request :: ldap_message where
  "delete_request = \<lparr>msg_id = 9, protocol_op = DelRequest ''cn=Eve''\<rparr>"

definition delete_refusal :: ldap_message where
  "delete_refusal = \<lparr>msg_id = 9, protocol_op = DelResponse (ldap_result_new UnwillingToPerform [] ''no'')\<rparr>"

definition refusal_env :: ldap_env where
  "refusal_env = (table_env [([0x30, 1, 9], delete_request), ([0x30, 1, 8], delete_refusal)])
     \<lparr>ber_encode := \<lambda>x. if x = delete_refusal then Some [0x30, 1, 8] else None\<rparr>"

theorem rejection_matches_request_witness:
  "\<exists>response. ldap_build_rejection refusal_env [0x30, 1, 9] ''no'' = Inr [0x30, 1, 8]
     \<and> ber_decode refusal_env [0x30, 1, 8] = Some response \<and> application_tag (protocol_op response) = Some 11"
proof -
  have d: "ldap_decode refusal_env [0x30, 1, 9] = Inr (Some (ldap_action Delete ''cn=Eve''))" by code_simp
  have t: "\<forall>m b. ber_encode refusal_env m = Some b \<longrightarrow> ber_decode refusal_env b = Some m"
    by (simp add: refusal_env_def table_env_def)
  have b: "ldap_build_rejection refusal_env [0x30, 1, 9] ''no'' = Inr [0x30, 1, 8]" by code_simp
  have m: "ber_decode refusal_env [0x30, 1, 9] = Some delete_request" by (simp add: refusal_env_def table_env_def)
  from rejection_matches_request [OF d t, of "''no''"] obtain request tag response where
      r: "ber_decode refusal_env [0x30, 1, 9] = Some request" "application_tag (protocol_op request) = Some tag"
      "application_tag (protocol_op response) = Some (Suc tag)"
      "case ber_encode refusal_env response of None \<Rightarrow> \<exists>e. ldap_build_rejection refusal_env [0x30, 1, 9] ''no'' = Inl e
       | Some bytes \<Rightarrow> ldap_build_rejection refusal_env [0x30, 1, 9] ''no'' = Inr bytes \<and> ber_decode refusal_env bytes = Some response"
    by (elim exE conjE) (rule that)
  have "application_tag (protocol_op response) = Some 11" using r(1-3) m by (auto simp: delete_request_def)
  moreover have "ber_decode refusal_env [0x30, 1, 8] = Some response"
    using r(4) b by (auto split: option.splits)
  ultimately show ?thesis using b by blast
qed

text \<open>Claimed names collapse over case: two simple binds whose names differ only in the case of
  ASCII letters claim one and the same name.\<close>

theorem bind_names_case_folded:
  assumes "ldap_bind_request env f = Inr (Some (i, dn))" "ldap_bind_request env g = Inr (Some (j, dn'))"
    and "ber_decode env f = Some \<lparr>msg_id = i, protocol_op = BindRequest name auth\<rparr>"
    and "ber_decode env g = Some \<lparr>msg_id = j, protocol_op = BindRequest name' auth'\<rparr>"
    and "is_ascii name" "map ascii_lower name = map ascii_lower name'"
  shows "dn = dn'"
proof -
  have "is_ascii name'" using assms(5,6) is_ascii_lower by metis
  with assms show ?thesis by (auto simp: ldap_bind_request_Some normalize_bind_dn_def)
qed

theorem bind_names_case_folded_witness:
  "let f = [0x30, 1, 1]; g = [0x30, 1, 2];
       env = table_env [(f, \<lparr>msg_id = 1, protocol_op = BindRequest ''CN=Bob'' (Simple [1])\<rparr>),
                        (g, \<lparr>msg_id = 2, protocol_op = BindRequest ''cn=bOB'' (Simple [2])\<rparr>)]
   in \<exists>dn dn'. ldap_bind_request env f = Inr (Some (1, dn)) \<and> ldap_bind_request env g = Inr (Some (2, dn')) \<and> dn = dn'"
proof -
  let ?f = "[0x30, 1, 1 :: byte]" and ?g = "[0x30, 1, 2 :: byte]"
  let ?env = "table_env [(?f, \<lparr>msg_id = 1, protocol_op = BindRequest ''CN=Bob'' (Simple [1])\<rparr>),
                        (?g, \<lparr>msg_id = 2, protocol_op = BindRequest ''cn=bOB'' (Simple [2])\<rparr>)]"
  have "ldap_bind_request ?env ?f = Inr (Some (1, ''cn=bob''))" "ldap_bind_request ?env ?g = Inr (Some (2, ''cn=bob''))"
    "is_ascii ''CN=Bob''" "map ascii_lower ''CN=Bob'' = map ascii_lower ''cn=bOB''" by code_simp+
  moreover have "ber_decode ?env ?f = Some \<lparr>msg_id = 1, protocol_op = BindRequest ''CN=Bob'' (Simple [1])\<rparr>"
    "ber_decode ?env ?g = Some \<lparr>msg_id = 2, protocol_op = BindRequest ''cn=bOB'' (Simple [2])\<rparr>"
    by (simp_all add: table_env_def)
  ultimately show ?thesis using bind_names_case_folded unfolding Let_def by blast
qed

text \<open>C35 Claimed names are bounded and kept apart: a claimed name is at most 256 bytes long; two binds
  claim the same one only if their folded names are equal, or both are longer than that, of the same
  length and with the same hash. In particular no name a client can send imitates the marker of an
  oversized one.\<close>

theorem bind_names_kept_apart:
  assumes "lower_ok env" "ldap_bind_request env f = Inr (Some (i, dn))" "ldap_bind_request env g = Inr (Some (j, dn))"
    and "ber_decode env f = Some \<lparr>msg_id = i, protocol_op = BindRequest name auth\<rparr>"
    and "ber_decode env g = Some \<lparr>msg_id = j, protocol_op = BindRequest name' auth'\<rparr>"
    and "length (normalize_bind_dn env name) < 2 ^ 64"
  shows "length dn \<le> 256
    \<and> (normalize_bind_dn env name = normalize_bind_dn env name'
        \<or> (length (normalize_bind_dn env name) > 256
           \<and> length (normalize_bind_dn env name') = length (normalize_bind_dn env name)
           \<and> dn_hash env (normalize_bind_dn env name') = dn_hash env (normalize_bind_dn env name)))"
proof -
  let ?a = "normalize_bind_dn env name" and ?b = "normalize_bind_dn env name'"
  have dn: "dn = cap_dn env ?a" "dn = cap_dn env ?b" using assms(2-5) by (auto simp: ldap_bind_request_Some)
  have up: "no_upper ?a" "no_upper ?b" using normalize_no_upper [OF assms(1)] by blast+
  have "length dn \<le> 256" using dn(1) length_dn_marker [OF assms(6)] by (simp add: cap_dn_cases)
  moreover have "?a = ?b \<or> (length ?a > 256 \<and> length ?b = length ?a \<and> dn_hash env ?b = dn_hash env ?a)"
  proof (cases "length ?a \<le> 256"; cases "length ?b \<le> 256")
    assume "\<not> length ?a \<le> 256" "\<not> length ?b \<le> 256"
    then show ?thesis using dn dn_marker_inj [of env ?a ?b] by (simp add: cap_dn_cases)
  qed (use dn up dn_marker_upper [of env ?a] dn_marker_upper [of env ?b] in \<open>auto simp: cap_dn_cases\<close>)
  ultimately show ?thesis by blast
qed

theorem bind_names_kept_apart_witness:
  "let f = [0x30, 1, 1]; g = [0x30, 1, 2]; name = replicate 300 CHR ''a'';
       env = table_env [(f, \<lparr>msg_id = 1, protocol_op = BindRequest name (Simple [1])\<rparr>),
                        (g, \<lparr>msg_id = 2, protocol_op = BindRequest name (Simple [2])\<rparr>)]
   in \<exists>dn. ldap_bind_request env f = Inr (Some (1, dn)) \<and> length dn \<le> 256"
proof -
  let ?f = "[0x30, 1, 1 :: byte]" and ?g = "[0x30, 1, 2 :: byte]" and ?n = "replicate 300 CHR ''a''"
  let ?env = "table_env [(?f, \<lparr>msg_id = 1, protocol_op = BindRequest ?n (Simple [1])\<rparr>),
                        (?g, \<lparr>msg_id = 2, protocol_op = BindRequest ?n (Simple [2])\<rparr>)]"
  have d: "ber_decode ?env ?f = Some \<lparr>msg_id = 1, protocol_op = BindRequest ?n (Simple [1])\<rparr>"
    "ber_decode ?env ?g = Some \<lparr>msg_id = 2, protocol_op = BindRequest ?n (Simple [2])\<rparr>"
    by (simp_all add: table_env_def)
  then have b: "ldap_bind_request ?env ?f = Inr (Some (1, cap_dn ?env (normalize_bind_dn ?env ?n)))"
    "ldap_bind_request ?env ?g = Inr (Some (2, cap_dn ?env (normalize_bind_dn ?env ?n)))"
    by (auto simp: ldap_bind_request_Some)
  have "lower_ok ?env" by (simp add: lower_ok_def no_upper_def table_env_def)
  moreover have "is_ascii ?n" by (simp add: is_ascii_def list_all_iff)
  then have "length (normalize_bind_dn ?env ?n) < 2 ^ 64" by (simp add: normalize_bind_dn_def)
  ultimately show ?thesis using bind_names_kept_apart [OF _ b d] b unfolding Let_def by blast
qed

text \<open>The upgrade hook answers StartTLS and nothing else: it answers exactly the extended request
  with the StartTLS OID, with a success response under the same message id, and no such frame is an
  action or an identity claim.\<close>

theorem upgrade_only_starttls:
  "ldap_upgrade_request env f = Inr (Some answer) \<longleftrightarrow>
     (\<exists>i v. ber_decode env f = Some \<lparr>msg_id = i, protocol_op = ExtendedReq (bytes_of_string START_TLS_OID) v\<rparr>
        \<and> ber_encode env \<lparr>msg_id = i, protocol_op = ExtendedResp \<lparr>res_code = Success, matched_dn = [],
             diagnostic_message = [], referral = None, response_name = None, response_value = None\<rparr>\<rparr> = Some answer
        \<and> ldap_decode env f = Inr None \<and> ldap_bind_request env f = Inr None)"
proof -
  have oid: "bytes_of_string START_TLS_OID \<noteq> bytes_of_string PASSWORD_MODIFY_OID" by code_simp
  show ?thesis
  proof (cases "ber_decode env f")
    case None
    then show ?thesis by (simp add: ldap_upgrade_request_def decode_with_def)
  next
    case (Some m)
    obtain j op where m: "m = \<lparr>msg_id = j, protocol_op = op\<rparr>" by (cases m) auto
    show ?thesis
      by (cases op; use Some m oid in \<open>simp add: ldap_upgrade_request_def ldap_decode_def ldap_bind_request_def
            decode_with_def\<close>)
        (auto simp: res_simps split: option.splits)
  qed
qed

text \<open>Only the first added or replaced lock attribute of a Modify decides: what follows it, be it
  the opposite, does not change the operation that is policed.\<close>

theorem first_lock_change_decides:
  assumes "is_lock_attribute env (ch_type c)" "ch_operation c \<in> {ChAdd, ChReplace}"
  shows "modify_operation env (c # later) = modify_operation env [c]"
  using assms by (auto simp: modify_operation_def find_change_def)

theorem first_lock_change_decides_witness:
  "modify_operation (table_env []) [demo_change ''nsAccountLock'' ''FALSE'', demo_change ''userAccountControl'' ''514''] = Some AccountUnlock"
proof -
  have "is_lock_attribute (table_env []) (ch_type (demo_change ''nsAccountLock'' ''FALSE''))"
    "ch_operation (demo_change ''nsAccountLock'' ''FALSE'') = ChReplace"
    "modify_operation (table_env []) [demo_change ''nsAccountLock'' ''FALSE''] = Some AccountUnlock" by code_simp+
  with first_lock_change_decides [of "table_env []" "demo_change ''nsAccountLock'' ''FALSE''"] show ?thesis by simp
qed

end
