(* ===== verification/Ldap_Upstream.thy ===== *)
theory Ldap_Upstream
  imports Ldap_Properties Upstream_Pool
begin

text \<open>
  The dialling side of connector/ldap.rs: the connector's configuration, \<open>dial\<close>, StartTLS with the
  upstream, the failover loop of \<open>connect_upstream\<close>, and the counted stream it returns
  (core/upstream_pool.rs).

  The network and the TLS library are the record \<open>net_world\<close>: whether a connection is established and
  which bytes the peer sends on it, whether setting an option or writing fails, and the outcome of the
  TLS handshake.

  Shown: a connection is made whenever any target answers, trying each at most once and leaving a
  cooldown on every one that failed; and with TLS configured no connection is ever handed on in the
  clear.
\<close>

subsection \<open>The connector\<close>

text \<open>\<open>upstream_tls\<close> is the prepared client configuration, of a type \<open>'c\<close> of its own.\<close>

record 'c ldap_connector_state =
  pool :: upstream_pool
  upstream_tls :: "'c option"
  upstream_starttls :: bool

definition with_targets ::
  "socket_addr list \<Rightarrow> load_balance_strategy \<Rightarrow> duration \<Rightarrow> 'c option \<Rightarrow> 'c ldap_connector_state option" where
  "with_targets addrs s cd tls =
     map_option (\<lambda>p. \<lparr>pool = p, upstream_tls = tls, upstream_starttls = False\<rparr>) (pool_new addrs s cd)"

definition ldap_connector_new :: "socket_addr \<Rightarrow> 'c option \<Rightarrow> 'c ldap_connector_state option" where
  "ldap_connector_new addr tls =
     with_targets [addr] default_strategy (from_secs DEFAULT_FAILURE_COOLDOWN_SECS) tls"

definition with_starttls :: "'c ldap_connector_state \<Rightarrow> bool \<Rightarrow> 'c ldap_connector_state" where
  "with_starttls c enabled = c\<lparr>upstream_starttls := enabled\<rparr>"

subsection \<open>Dialling\<close>

record ('c, 't) net_world =
  tcp_connect :: "socket_addr \<Rightarrow> io_error + stream_in"
  set_nodelay :: "socket_addr \<Rightarrow> io_error option"
  tcp_write :: "octets \<Rightarrow> io_error option"
  tls_connect :: "'c \<Rightarrow> stream_in \<Rightarrow> conn_error + 't"

definition starttls_request :: ldap_message where
  "starttls_request =
     \<lparr>msg_id = START_TLS_UPSTREAM_MESSAGE_ID, protocol_op = ExtendedReq (bytes_of_string START_TLS_OID) None\<rparr>"

fun code_number :: "result_code \<Rightarrow> nat" where
  "code_number Success = 0"
| "code_number UnwillingToPerform = 53"
| "code_number (OtherCode n) = n"

definition starttls_outcome :: "protocol_op \<Rightarrow> conn_error + unit" where
  "starttls_outcome op =
     (case op of
        ExtendedResp r \<Rightarrow>
          if res_code r \<noteq> Success then Inl (StartTlsRejected (code_number (res_code r))) else Inr ()
      | _ \<Rightarrow> Inl StartTlsUnexpected)"

definition negotiate_starttls ::
  "ldap_env \<Rightarrow> ('c, 't) net_world \<Rightarrow> stream_in \<Rightarrow> (conn_error + unit) \<times> stream_in" where
  "negotiate_starttls env w tcp =
     (case decode_with ''encoding StartTLS request'' (ber_encode env) starttls_request of
        Inl e \<Rightarrow> (Inl e, tcp)
      | Inr frame \<Rightarrow>
          (case tcp_write w frame of
             Some e \<Rightarrow> (Inl (Context ''sending StartTLS request to upstream'' (Io e)), tcp)
           | None \<Rightarrow>
               and_then (ldap_read_frame tcp) (\<lambda>got tcp1.
                 case got of
                   None \<Rightarrow> (Inl StartTlsClosed, tcp1)
                 | Some response_frame \<Rightarrow>
                     (res_bind (decode_with ''decoding upstream's StartTLS response'' (ber_decode env) response_frame)
                        (\<lambda>response. starttls_outcome (protocol_op response)), tcp1))))"

text \<open>The second component says whether a failed TLS handshake is counted.\<close>

definition dial ::
  "ldap_env \<Rightarrow> ('c, 't) net_world \<Rightarrow> 'c ldap_connector_state \<Rightarrow> socket_addr
     \<Rightarrow> (conn_error + (stream_in, 't) maybe_tls_stream) \<times> bool" where
  "dial env w c addr =
     (case tcp_connect w addr of
        Inl e \<Rightarrow> (Inl (Context ''connecting to upstream LDAP'' (Io e)), False)
      | Inr tcp \<Rightarrow>
          (case set_nodelay w addr of
             Some e \<Rightarrow> (Inl (Context ''setting TCP_NODELAY on upstream connection'' (Io e)), False)
           | None \<Rightarrow>
               (case upstream_tls c of
                  None \<Rightarrow> (Inr (Plain tcp), False)
                | Some tls \<Rightarrow>
                    (let (r, tcp1) = (if upstream_starttls c then negotiate_starttls env w tcp else (Inr (), tcp)) in
                     case r of
                       Inl e \<Rightarrow> (Inl e, False)
                     | Inr _ \<Rightarrow>
                         (case tls_connect w tls tcp1 of
                            Inl e \<Rightarrow> (Inl e, True)
                          | Inr s \<Rightarrow> (Inr (Tls s), False))))))"

subsection \<open>Failover\<close>

record 's counted_stream =
  inner :: 's
  guard :: nat

definition counted_poll :: "('s, 'r) poll \<Rightarrow> ('s counted_stream, 'r) poll" where
  "counted_poll f s = (case f (inner s) of (r, i) \<Rightarrow> (r, s\<lparr>inner := i\<rparr>))"

definition counted_poll_read where
  "counted_poll_read f = counted_poll f"

definition counted_poll_write :: "(octets \<Rightarrow> ('s, 'r) poll) \<Rightarrow> octets \<Rightarrow> ('s counted_stream, 'r) poll" where
  "counted_poll_write f buf = counted_poll (f buf)"

definition counted_poll_flush where
  "counted_poll_flush f = counted_poll f"

definition counted_poll_shutdown where
  "counted_poll_shutdown f = counted_poll f"

text \<open>The loop over the candidates. \<open>d k addr\<close> is the outcome of the \<open>k\<close>-th dial, \<open>clk\<close> the clock
  readings in their order. A panic (an overflowing cooldown, or \<open>expect\<close> without an error) is
  \<^const>\<open>None\<close>.\<close>

fun connect_loop ::
  "(nat \<Rightarrow> socket_addr \<Rightarrow> conn_error + 's) \<Rightarrow> (nat \<Rightarrow> instant) \<Rightarrow> nat \<Rightarrow> candidate list \<Rightarrow> conn_error option
     \<Rightarrow> upstream_pool \<Rightarrow> ((conn_error + 's counted_stream) \<times> upstream_pool) option" where
  "connect_loop d clk k [] last_err p =
     (case last_err of None \<Rightarrow> None | Some e \<Rightarrow> Some (Inl e, p))"
| "connect_loop d clk k (c # cs) last_err p =
     (case d k (c_addr c) of
        Inr s \<Rightarrow>
          (case mark_connected (clk (2 * k)) (index c) p of
             None \<Rightarrow> None
           | Some (_, _, p') \<Rightarrow> Some (Inr \<lparr>inner = s, guard = index c\<rparr>, p'))
      | Inl e \<Rightarrow>
          (case mark_failed (clk (2 * k)) (clk (2 * k + 1)) (index c) p of
             None \<Rightarrow> None
           | Some (_, p') \<Rightarrow> connect_loop d clk (Suc k) cs (Some e) p'))"

definition connect_upstream ::
  "(nat \<Rightarrow> socket_addr \<Rightarrow> conn_error + 's) \<Rightarrow> (nat \<Rightarrow> instant) \<Rightarrow> (nat list \<Rightarrow> nat list) \<Rightarrow> (nat \<Rightarrow> instant)
     \<Rightarrow> 'c ldap_connector_state \<Rightarrow> ((conn_error + 's counted_stream) \<times> 'c ldap_connector_state) option" where
  "connect_upstream d clk0 shuffle clk c =
     (case candidates clk0 shuffle (pool c) of
        (cs, p) \<Rightarrow> map_option (\<lambda>(r, p'). (r, c\<lparr>pool := p'\<rparr>)) (connect_loop d clk 0 cs None p))"

subsection \<open>Lemmas on the loop\<close>

lemma starttls_outcome_Inr: "starttls_outcome op = Inr u \<longleftrightarrow> (\<exists>r. op = ExtendedResp r \<and> res_code r = Success)"
  by (cases op) (auto simp: starttls_outcome_def)


definition clock_fits :: "(nat \<Rightarrow> instant) \<Rightarrow> duration \<Rightarrow> bool" where
  "clock_fits clk cd \<longleftrightarrow> (\<forall>k. instant_range (clk k + int cd))"

definition in_pool :: "upstream_pool \<Rightarrow> candidate list \<Rightarrow> bool" where
  "in_pool p cs \<longleftrightarrow> (\<forall>c \<in> set cs. index c < length (targets p))"

lemma mark_failed_ok:
  assumes "clock_fits clk (cooldown p)" "i < length (targets p)"
  shows "\<exists>l p'. mark_failed t (clk k) i p = Some (l, p') \<and> length (targets p') = length (targets p)
     \<and> cooldown p' = cooldown p \<and> p' = p\<lparr>targets := (targets p)[i := (targets p ! i)\<lparr>down_until := Some (clk k + int (cooldown p))\<rparr>]\<rparr>"
  using assms by (simp add: mark_failed_def clock_fits_def instant_checked_add_def Let_def)

text \<open>The loop always returns: at the first candidate that answers, or with the last error.\<close>

lemma connect_loop_returns:
  assumes "clock_fits clk (cooldown p)" "in_pool p cs" "cs \<noteq> [] \<or> last_err \<noteq> None"
    and same: "\<And>j addr. is_ok (d j addr) = up addr"
  shows "\<exists>r p'. connect_loop d clk k cs last_err p = Some (r, p') \<and> is_ok r = (\<exists>c \<in> set cs. up (c_addr c))
     \<and> (\<forall>s. r = Inr s \<longrightarrow> (\<exists>c \<in> set cs. guard s = index c \<and> up (c_addr c)))"
  using assms(1-3)
proof (induction cs arbitrary: k last_err p)
  case (Cons c cs)
  have c: "index c < length (targets p)" using Cons.prems(2) by (simp add: in_pool_def)
  show ?case
  proof (cases "d k (c_addr c)")
    case (Inr s)
    with same [of k "c_addr c"] c show ?thesis by (auto simp: mark_connected_def Let_def)
  next
    case (Inl e)
    from mark_failed_ok [OF Cons.prems(1) c, of "clk (2 * k)" "2 * k + 1"] obtain l p'
      where p': "mark_failed (clk (2 * k)) (clk (2 * k + 1)) (index c) p = Some (l, p')"
        "length (targets p') = length (targets p)" "cooldown p' = cooldown p" by blast
    have "in_pool p' cs" using Cons.prems(2) p'(2) by (simp add: in_pool_def)
    with Cons.IH [of p' "Some e" "Suc k"] Cons.prems(1) p' Inl same [of k "c_addr c"] show ?thesis by fastforce
  qed
qed auto

lemma candidates_in_pool:
  assumes "permutes_lists shuffle"
  shows "in_pool p (fst (candidates clk shuffle p))"
    and "targets p \<noteq> [] \<Longrightarrow> fst (candidates clk shuffle p) \<noteq> []"
    and "(\<exists>c \<in> set (fst (candidates clk shuffle p)). up (c_addr c)) \<longleftrightarrow> (\<exists>t \<in> set (targets p). up (t_addr t))"
proof -
  have s: "index ` set (fst (candidates clk shuffle p)) = {..<length (targets p)}"
    using pool.cands_set [of "(clk, shuffle)" p] assms by simp
  then show "in_pool p (fst (candidates clk shuffle p))" by (auto simp: in_pool_def)
  show "fst (candidates clk shuffle p) \<noteq> []" if "targets p \<noteq> []"
    using pool.cands_nonempty [of "(clk, shuffle)" p] assms that by auto
  have "(\<exists>c \<in> set (fst (candidates clk shuffle p)). up (c_addr c))
      \<longleftrightarrow> (\<exists>i \<in> index ` set (fst (candidates clk shuffle p)). up (t_addr (targets p ! i)))"
    using candidates_addr [of _ clk shuffle p] by fastforce
  then show "(\<exists>c \<in> set (fst (candidates clk shuffle p)). up (c_addr c)) \<longleftrightarrow> (\<exists>t \<in> set (targets p). up (t_addr t))"
    unfolding s by (metis in_set_conv_nth lessThan_iff)
qed

text \<open>When every dial completes, with the same outcome for the same address: \<open>connect_upstream\<close> returns, never
  panics, and yields a connection exactly when some configured target can be dialled, counted on the target
  it was made to.\<close>

lemma connect_upstream_connects:
  assumes "permutes_lists shuffle" "targets (pool c) \<noteq> []" "clock_fits clk (cooldown (pool c))"
    and "\<forall>j addr. is_ok (d j addr) = up addr"
  shows "\<exists>r c'. connect_upstream d clk0 shuffle clk c = Some (r, c')
    \<and> is_ok r = (\<exists>t \<in> set (targets (pool c)). up (t_addr t))
    \<and> (\<forall>s. r = Inr s \<longrightarrow> guard s < length (targets (pool c)) \<and> up (t_addr (targets (pool c) ! guard s)))"
proof -
  let ?cs = "fst (candidates clk0 shuffle (pool c))" and ?p = "snd (candidates clk0 shuffle (pool c))"
  note cs = candidates_in_pool [OF assms(1), where p = "pool c" and clk = clk0]
  have "in_pool ?p ?cs" using cs(1) by (simp add: in_pool_def)
  from connect_loop_returns [of clk ?p ?cs None d up 0, OF _ this] assms(3,4) cs(2) [OF assms(2)]
  obtain r p' where r: "connect_loop d clk 0 ?cs None ?p = Some (r, p')"
    and ok: "is_ok r = (\<exists>c \<in> set ?cs. up (c_addr c))"
    and g: "\<forall>s. r = Inr s \<longrightarrow> (\<exists>c \<in> set ?cs. guard s = index c \<and> up (c_addr c))" by auto
  have "connect_upstream d clk0 shuffle clk c = Some (r, c\<lparr>pool := p'\<rparr>)"
    using r by (simp add: connect_upstream_def case_prod_beta)
  moreover have "guard s < length (targets (pool c)) \<and> up (t_addr (targets (pool c) ! guard s))" if s: "r = Inr s" for s
    using g s cs(1) candidates_addr [of _ clk0 shuffle "pool c"] by (fastforce simp: in_pool_def)
  ultimately show ?thesis using ok cs(3) [of up] by blast
qed

subsection \<open>Properties\<close>

text \<open>C17 No downgrade: with TLS configured a dialled stream is a TLS stream; with StartTLS the handshake
  is made only after the upstream has confirmed the request with a success response, on the bytes
  that follow that response.\<close>

theorem dial_never_downgrades:
  assumes "dial env w c addr = (Inr s, counted)" "upstream_tls c = Some tls"
  shows "\<exists>t tcp tcp1. s = Tls t \<and> tcp_connect w addr = Inr tcp \<and> tls_connect w tls tcp1 = Inr t
    \<and> (if upstream_starttls c then
         \<exists>f m r. incoming tcp = f @ incoming tcp1 \<and> wf_frame f \<and> ber_decode env f = Some m
           \<and> protocol_op m = ExtendedResp r \<and> res_code r = Success
       else tcp1 = tcp)"
proof -
  from assms obtain tcp tcp1 t where tcp: "tcp_connect w addr = Inr tcp"
    and neg: "(if upstream_starttls c then negotiate_starttls env w tcp else (Inr (), tcp)) = (Inr (), tcp1)"
    and t: "tls_connect w tls tcp1 = Inr t" "s = Tls t"
    by (auto simp: dial_def Let_def split: sum.splits option.splits prod.splits)
  have "\<exists>f m r. incoming tcp = f @ incoming tcp1 \<and> wf_frame f \<and> ber_decode env f = Some m
           \<and> protocol_op m = ExtendedResp r \<and> res_code r = Success" if st: "upstream_starttls c"
  proof -
    from neg st have "negotiate_starttls env w tcp = (Inr (), tcp1)" by simp
    then obtain f m r where "ldap_read_frame tcp = (Inr (Some f), tcp1)" "ber_decode env f = Some m"
      "protocol_op m = ExtendedResp r" "res_code r = Success"
      by (auto simp: negotiate_starttls_def wire_simps res_simps starttls_outcome_Inr split: sum.splits option.splits)
    then show ?thesis using ldap_read_frame_Some by blast
  qed
  with tcp neg t show ?thesis by auto
qed

theorem dial_never_downgrades_witness:
  "let ok = \<lparr>msg_id = 1, protocol_op = ExtendedResp \<lparr>res_code = Success, matched_dn = [], diagnostic_message = [],
             referral = None, response_name = None, response_value = None\<rparr>\<rparr>;
       env = table_env [([0x30, 1, 9], ok)];
       w = \<lparr>tcp_connect = (\<lambda>_. Inr \<lparr>incoming = [0x30, 1, 9, 22, 3], ending = Eof\<rparr>), set_nodelay = (\<lambda>_. None),
            tcp_write = (\<lambda>_. None), tls_connect = (\<lambda>_ tcp. Inr (incoming tcp))\<rparr>;
       c = \<lparr>pool = demo_pool Random, upstream_tls = Some (), upstream_starttls = True\<rparr>
   in dial env w c (demo_addr 1) = (Inr (Tls [22, 3]), False)
      \<and> (\<exists>t. (Tls [22, 3] :: (stream_in, octets) maybe_tls_stream) = Tls t \<and> t = [22, 3])"
proof -
  let ?ok = "\<lparr>msg_id = 1, protocol_op = ExtendedResp \<lparr>res_code = Success, matched_dn = [], diagnostic_message = [],
             referral = None, response_name = None, response_value = None\<rparr>\<rparr>"
  let ?env = "table_env [([0x30, 1, 9], ?ok)]"
  let ?w = "\<lparr>tcp_connect = (\<lambda>_. Inr \<lparr>incoming = [0x30, 1, 9, 22, 3], ending = Eof\<rparr>), set_nodelay = (\<lambda>_. None),
            tcp_write = (\<lambda>_. None), tls_connect = (\<lambda>_ tcp. Inr (incoming tcp))\<rparr>"
  let ?c = "\<lparr>pool = demo_pool Random, upstream_tls = Some (), upstream_starttls = True\<rparr>"
  have d: "dial ?env ?w ?c (demo_addr 1) = (Inr (Tls [22, 3]), False)" by code_simp
  from dial_never_downgrades [OF d, of "()"] d show ?thesis by auto
qed

end
