(* ===== verification/Config.thy ===== *)
theory Config
  imports Upstream_Pool Proxy_Conn
begin

text \<open>
  The process configuration (config.rs): the records that \<open>serde\<close> fills from a TOML document, with the
  defaults and the checks the attributes ask for, and \<open>Config::load\<close>.

  Reading TOML text is the \<open>toml\<close> library's: a parameter that gives a document as a value of the type
  \<open>toml\<close>. So is the reading of a socket address, \<open>parse_addr\<close>. The functions \<open>de_...\<close> are the derived
  deserializers: a missing field is an error unless it is optional or has a default, fields the record
  does not have are ignored. When a document has several errors, which one is reported is left open.
\<close>

subsection \<open>Documents\<close>

datatype toml =
    TomlString string
  | TomlInt int
  | TomlBool bool
  | TomlArray "toml list"
  | TomlTable "(string \<times> toml) list"
  | TomlOther

datatype de_error = Missing_field string | Invalid_type | Invalid_value | Unknown_variant string | Custom string

definition de_string :: "toml \<Rightarrow> de_error + string" where
  "de_string v = (case v of TomlString s \<Rightarrow> Inr s | _ \<Rightarrow> Inl Invalid_type)"

text \<open>A \<open>u64\<close>, or a \<open>usize\<close> of 64 bits.\<close>

definition de_u64 :: "toml \<Rightarrow> de_error + nat" where
  "de_u64 v =
     (case v of
        TomlInt n \<Rightarrow> if 0 \<le> n \<and> n < 18446744073709551616 then Inr (nat n) else Inl Invalid_value
      | _ \<Rightarrow> Inl Invalid_type)"

definition de_bool :: "toml \<Rightarrow> de_error + bool" where
  "de_bool v = (case v of TomlBool b \<Rightarrow> Inr b | _ \<Rightarrow> Inl Invalid_type)"

fun de_list :: "(toml \<Rightarrow> de_error + 'a) \<Rightarrow> toml list \<Rightarrow> de_error + 'a list" where
  "de_list f [] = Inr []"
| "de_list f (v # vs) = res_bind (f v) (\<lambda>x. res_bind (de_list f vs) (\<lambda>xs. Inr (x # xs)))"

definition de_array :: "(toml \<Rightarrow> de_error + 'a) \<Rightarrow> toml \<Rightarrow> de_error + 'a list" where
  "de_array f v = (case v of TomlArray vs \<Rightarrow> de_list f vs | _ \<Rightarrow> Inl Invalid_type)"

definition de_table :: "((string \<times> toml) list \<Rightarrow> de_error + 'a) \<Rightarrow> toml \<Rightarrow> de_error + 'a" where
  "de_table f v = (case v of TomlTable t \<Rightarrow> f t | _ \<Rightarrow> Inl Invalid_type)"

definition field :: "string \<Rightarrow> (toml \<Rightarrow> de_error + 'a) \<Rightarrow> (string \<times> toml) list \<Rightarrow> de_error + 'a" where
  "field name f t = (case map_of t name of None \<Rightarrow> Inl (Missing_field name) | Some v \<Rightarrow> f v)"

definition field_default :: "string \<Rightarrow> 'a \<Rightarrow> (toml \<Rightarrow> de_error + 'a) \<Rightarrow> (string \<times> toml) list \<Rightarrow> de_error + 'a" where
  "field_default name d f t = (case map_of t name of None \<Rightarrow> Inr d | Some v \<Rightarrow> f v)"

definition field_opt :: "string \<Rightarrow> (toml \<Rightarrow> de_error + 'a) \<Rightarrow> (string \<times> toml) list \<Rightarrow> de_error + 'a option" where
  "field_opt name f t = try_opt f (map_of t name)"

text \<open>A unit enum with \<open>rename_all = "snake_case"\<close>: the names of its variants.\<close>

definition de_variant :: "(string \<times> 'a) list \<Rightarrow> toml \<Rightarrow> de_error + 'a" where
  "de_variant names v =
     res_bind (de_string v) (\<lambda>s. case map_of names s of Some x \<Rightarrow> Inr x | None \<Rightarrow> Inl (Unknown_variant s))"

subsection \<open>The process configuration\<close>

datatype 'pe config_error =
    ConfigRead string io_error
  | ConfigParse string 'pe
  | NoProxies string

record metrics_config =
  m_listen_addr :: socket_addr

record health_config =
  h_listen_addr :: socket_addr

record client_cert_config =
  cc_cert_file :: string
  cc_key_file :: string

record upstream_tls_config =
  ut_server_name :: string
  ut_ca_file :: "string option"
  ut_client_cert :: "client_cert_config option"
  ut_starttls :: bool

record listen_tls_config =
  lt_cert_file :: string
  lt_key_file :: string
  lt_client_ca_file :: "string option"

record policy_source =
  ps_file :: string

record proxy_config =
  p_listen_addr :: socket_addr
  p_upstream_addrs :: "socket_addr list"
  p_upstream_strategy :: load_balance_strategy
  p_upstream_failure_cooldown_secs :: nat
  p_upstream_tls :: "upstream_tls_config option"
  p_listen_tls :: "listen_tls_config option"
  p_listen_starttls :: "listen_tls_config option"
  p_max_connections :: nat
  p_io_timeout_secs :: nat
  p_shutdown_timeout_secs :: nat
  p_policy :: policy_source

record process_config =
  c_proxy :: "proxy_config list"
  c_metrics :: "metrics_config option"
  c_health :: "health_config option"

definition default_max_connections :: nat where
  "default_max_connections = max_connections default_connection_limits"

definition default_io_timeout_secs :: nat where
  "default_io_timeout_secs = io_timeout default_connection_limits div 1000000000"

definition default_shutdown_timeout_secs :: nat where
  "default_shutdown_timeout_secs = shutdown_timeout default_connection_limits div 1000000000"

definition default_upstream_failure_cooldown_secs :: nat where
  "default_upstream_failure_cooldown_secs = DEFAULT_FAILURE_COOLDOWN_SECS"

type_synonym addr_parser = "string \<Rightarrow> socket_addr option"

definition de_addr :: "addr_parser \<Rightarrow> toml \<Rightarrow> de_error + socket_addr" where
  "de_addr parse_addr v =
     res_bind (de_string v) (\<lambda>s. case parse_addr s of Some a \<Rightarrow> Inr a | None \<Rightarrow> Inl Invalid_value)"

definition deserialize_non_empty_addrs :: "addr_parser \<Rightarrow> toml \<Rightarrow> de_error + socket_addr list" where
  "deserialize_non_empty_addrs parse_addr v =
     res_bind (de_array (de_addr parse_addr) v) (\<lambda>addrs.
       if addrs = [] then Inl (Custom ''upstream_addrs must have at least one address'') else Inr addrs)"

definition strategy_names :: "(string \<times> load_balance_strategy) list" where
  "strategy_names = [(''round_robin'', RoundRobin), (''random'', Random), (''least_connections'', LeastConnections)]"

definition de_metrics_config :: "addr_parser \<Rightarrow> toml \<Rightarrow> de_error + metrics_config" where
  "de_metrics_config pa = de_table (\<lambda>t. res_bind (field ''listen_addr'' (de_addr pa) t) (\<lambda>a. Inr \<lparr>m_listen_addr = a\<rparr>))"

definition de_health_config :: "addr_parser \<Rightarrow> toml \<Rightarrow> de_error + health_config" where
  "de_health_config pa = de_table (\<lambda>t. res_bind (field ''listen_addr'' (de_addr pa) t) (\<lambda>a. Inr \<lparr>h_listen_addr = a\<rparr>))"

definition de_client_cert_config :: "toml \<Rightarrow> de_error + client_cert_config" where
  "de_client_cert_config = de_table (\<lambda>t.
     res_bind (field ''cert_file'' de_string t) (\<lambda>c.
     res_bind (field ''key_file'' de_string t) (\<lambda>k.
     Inr \<lparr>cc_cert_file = c, cc_key_file = k\<rparr>)))"

definition de_upstream_tls_config :: "toml \<Rightarrow> de_error + upstream_tls_config" where
  "de_upstream_tls_config = de_table (\<lambda>t.
     res_bind (field ''server_name'' de_string t) (\<lambda>n.
     res_bind (field_opt ''ca_file'' de_string t) (\<lambda>ca.
     res_bind (field_opt ''client_cert'' de_client_cert_config t) (\<lambda>cc.
     res_bind (field_default ''starttls'' False de_bool t) (\<lambda>st.
     Inr \<lparr>ut_server_name = n, ut_ca_file = ca, ut_client_cert = cc, ut_starttls = st\<rparr>)))))"

definition de_listen_tls_config :: "toml \<Rightarrow> de_error + listen_tls_config" where
  "de_listen_tls_config = de_table (\<lambda>t.
     res_bind (field ''cert_file'' de_string t) (\<lambda>c.
     res_bind (field ''key_file'' de_string t) (\<lambda>k.
     res_bind (field_opt ''client_ca_file'' de_string t) (\<lambda>ca.
     Inr \<lparr>lt_cert_file = c, lt_key_file = k, lt_client_ca_file = ca\<rparr>))))"

definition de_policy_source :: "toml \<Rightarrow> de_error + policy_source" where
  "de_policy_source = de_table (\<lambda>t. res_bind (field ''file'' de_string t) (\<lambda>f. Inr \<lparr>ps_file = f\<rparr>))"

definition de_proxy_config :: "addr_parser \<Rightarrow> toml \<Rightarrow> de_error + proxy_config" where
  "de_proxy_config pa = de_table (\<lambda>t.
     res_bind (field ''listen_addr'' (de_addr pa) t) (\<lambda>la.
     res_bind (field ''upstream_addrs'' (deserialize_non_empty_addrs pa) t) (\<lambda>ua.
     res_bind (field_default ''upstream_strategy'' default_strategy (de_variant strategy_names) t) (\<lambda>us.
     res_bind (field_default ''upstream_failure_cooldown_secs'' default_upstream_failure_cooldown_secs de_u64 t) (\<lambda>cd.
     res_bind (field_opt ''upstream_tls'' de_upstream_tls_config t) (\<lambda>ut.
     res_bind (field_opt ''listen_tls'' de_listen_tls_config t) (\<lambda>lt.
     res_bind (field_opt ''listen_starttls'' de_listen_tls_config t) (\<lambda>ls.
     res_bind (field_default ''max_connections'' default_max_connections de_u64 t) (\<lambda>mc.
     res_bind (field_default ''io_timeout_secs'' default_io_timeout_secs de_u64 t) (\<lambda>io.
     res_bind (field_default ''shutdown_timeout_secs'' default_shutdown_timeout_secs de_u64 t) (\<lambda>sd.
     res_bind (field ''policy'' de_policy_source t) (\<lambda>po.
     Inr \<lparr>p_listen_addr = la, p_upstream_addrs = ua, p_upstream_strategy = us,
          p_upstream_failure_cooldown_secs = cd, p_upstream_tls = ut, p_listen_tls = lt, p_listen_starttls = ls,
          p_max_connections = mc, p_io_timeout_secs = io, p_shutdown_timeout_secs = sd, p_policy = po\<rparr>))))))))))))"

definition de_config :: "addr_parser \<Rightarrow> toml \<Rightarrow> de_error + process_config" where
  "de_config pa = de_table (\<lambda>t.
     res_bind (field ''proxy'' (de_array (de_proxy_config pa)) t) (\<lambda>px.
     res_bind (field_opt ''metrics'' (de_metrics_config pa) t) (\<lambda>m.
     res_bind (field_opt ''health'' (de_health_config pa) t) (\<lambda>h.
     Inr \<lparr>c_proxy = px, c_metrics = m, c_health = h\<rparr>))))"

text \<open>\<open>toml::from_str\<close>: the text to a document, then the derived deserializer; both errors are the
  library's one error type.\<close>

datatype 'pe toml_error = Toml_syntax 'pe | Toml_de de_error

definition from_str :: "(string \<Rightarrow> 'pe + toml) \<Rightarrow> (toml \<Rightarrow> de_error + 'a) \<Rightarrow> string \<Rightarrow> 'pe toml_error + 'a" where
  "from_str parse de raw = res_bind (map_err Toml_syntax (parse raw)) (\<lambda>v. map_err Toml_de (de v))"

definition config_load ::
  "(string \<Rightarrow> io_error + string) \<Rightarrow> (string \<Rightarrow> 'pe + toml) \<Rightarrow> addr_parser \<Rightarrow> string
     \<Rightarrow> 'pe toml_error config_error + process_config" where
  "config_load fs_read parse pa path =
     res_bind (map_err (ConfigRead path) (fs_read path)) (\<lambda>raw.
     res_bind (map_err (ConfigParse path) (from_str parse (de_config pa) raw)) (\<lambda>config.
     if c_proxy config = [] then Inl (NoProxies path) else Inr config))"

subsection \<open>Lemmas\<close>

named_theorems de_simps \<open>deserializers on documents of a known shape\<close>

lemmas de_primitive_simps [de_simps] = de_string_def de_u64_def de_bool_def de_array_def de_table_def
  field_def field_default_def field_opt_def de_variant_def de_addr_def

lemma de_list_map [de_simps]: "\<forall>x \<in> set xs. f (g x) = Inr x \<Longrightarrow> de_list f (map g xs) = Inr xs"
  by (induction xs) auto

lemma de_list_all: "de_list f vs = Inr xs \<Longrightarrow> x \<in> set xs \<Longrightarrow> \<exists>v \<in> set vs. f v = Inr x"
  by (induction vs arbitrary: xs) (auto simp: res_simps)

lemma deserialize_non_empty: "deserialize_non_empty_addrs pa v = Inr addrs \<Longrightarrow> addrs \<noteq> []"
  by (auto simp: deserialize_non_empty_addrs_def res_simps split: if_splits)

lemma de_proxy_config_addrs: "de_proxy_config pa v = Inr p \<Longrightarrow> p_upstream_addrs p \<noteq> []"
  by (auto simp: de_proxy_config_def de_table_def field_def res_simps dest!: deserialize_non_empty
      split: toml.splits option.splits)

lemma config_load_proxies:
  assumes "config_load fs_read parse pa path = Inr c"
  shows "c_proxy c \<noteq> []" "p \<in> set (c_proxy c) \<Longrightarrow> p_upstream_addrs p \<noteq> []"
proof -
  from assms obtain raw v t where c: "de_config pa v = Inr c" "c_proxy c \<noteq> []"
    by (auto simp: config_load_def from_str_def res_simps split: if_splits)
  then show "c_proxy c \<noteq> []" by simp
  from c(1) obtain w where "de_array (de_proxy_config pa) w = Inr (c_proxy c)"
    by (auto simp: de_config_def de_table_def field_def res_simps split: toml.splits option.splits)
  then show "p_upstream_addrs p \<noteq> []" if "p \<in> set (c_proxy c)"
    using that by (auto simp: de_array_def split: toml.splits dest!: de_list_all dest: de_proxy_config_addrs)
qed

subsection \<open>What a document says\<close>

text \<open>A specification beside the deserializers: which configuration a document stands for. Each default is
  written out as the documentation of the field gives it.\<close>

definition int_field :: "(string \<times> toml) list \<Rightarrow> string \<Rightarrow> nat \<Rightarrow> nat \<Rightarrow> bool" where
  "int_field t name d n \<longleftrightarrow> (case map_of t name of None \<Rightarrow> n = d | Some v \<Rightarrow> v = TomlInt (int n) \<and> n < 2 ^ 64)"

definition flag_field :: "(string \<times> toml) list \<Rightarrow> string \<Rightarrow> bool \<Rightarrow> bool" where
  "flag_field t name b \<longleftrightarrow> (case map_of t name of None \<Rightarrow> \<not> b | Some v \<Rightarrow> v = TomlBool b)"

definition string_field :: "(string \<times> toml) list \<Rightarrow> string \<Rightarrow> string option \<Rightarrow> bool" where
  "string_field t name x \<longleftrightarrow> map_of t name = map_option TomlString x"

definition table_field :: "(string \<times> toml) list \<Rightarrow> string \<Rightarrow> ((string \<times> toml) list \<Rightarrow> 'a \<Rightarrow> bool) \<Rightarrow> 'a option \<Rightarrow> bool" where
  "table_field t name says x \<longleftrightarrow>
     (case map_of t name of None \<Rightarrow> x = None | Some v \<Rightarrow> \<exists>u y. v = TomlTable u \<and> x = Some y \<and> says u y)"

definition client_cert_says :: "(string \<times> toml) list \<Rightarrow> client_cert_config \<Rightarrow> bool" where
  "client_cert_says t c \<longleftrightarrow> string_field t ''cert_file'' (Some (cc_cert_file c)) \<and> string_field t ''key_file'' (Some (cc_key_file c))"

definition upstream_tls_says :: "(string \<times> toml) list \<Rightarrow> upstream_tls_config \<Rightarrow> bool" where
  "upstream_tls_says t u \<longleftrightarrow> string_field t ''server_name'' (Some (ut_server_name u)) \<and> string_field t ''ca_file'' (ut_ca_file u)
     \<and> table_field t ''client_cert'' client_cert_says (ut_client_cert u)
     \<and> flag_field t ''starttls'' (ut_starttls u)"

definition listen_tls_says :: "(string \<times> toml) list \<Rightarrow> listen_tls_config \<Rightarrow> bool" where
  "listen_tls_says t l \<longleftrightarrow> string_field t ''cert_file'' (Some (lt_cert_file l)) \<and> string_field t ''key_file'' (Some (lt_key_file l))
     \<and> string_field t ''client_ca_file'' (lt_client_ca_file l)"

definition addr_says :: "addr_parser \<Rightarrow> toml \<Rightarrow> socket_addr \<Rightarrow> bool" where
  "addr_says pa v a \<longleftrightarrow> (\<exists>x. v = TomlString x \<and> pa x = Some a)"

definition strategy_says :: "(string \<times> toml) list \<Rightarrow> load_balance_strategy \<Rightarrow> bool" where
  "strategy_says t s \<longleftrightarrow>
     (case map_of t ''upstream_strategy'' of
        None \<Rightarrow> s = RoundRobin
      | Some v \<Rightarrow> v = TomlString (case s of RoundRobin \<Rightarrow> ''round_robin'' | Random \<Rightarrow> ''random'' | LeastConnections \<Rightarrow> ''least_connections''))"

definition proxy_says :: "addr_parser \<Rightarrow> toml \<Rightarrow> proxy_config \<Rightarrow> bool" where
  "proxy_says pa v p \<longleftrightarrow> (\<exists>t l us.
       v = TomlTable t
     \<and> map_of t ''listen_addr'' = Some l \<and> addr_says pa l (p_listen_addr p)
     \<and> map_of t ''upstream_addrs'' = Some (TomlArray us) \<and> us \<noteq> [] \<and> list_all2 (addr_says pa) us (p_upstream_addrs p)
     \<and> strategy_says t (p_upstream_strategy p)
     \<and> int_field t ''upstream_failure_cooldown_secs'' 30 (p_upstream_failure_cooldown_secs p)
     \<and> table_field t ''upstream_tls'' upstream_tls_says (p_upstream_tls p)
     \<and> table_field t ''listen_tls'' listen_tls_says (p_listen_tls p)
     \<and> table_field t ''listen_starttls'' listen_tls_says (p_listen_starttls p)
     \<and> int_field t ''max_connections'' 1024 (p_max_connections p)
     \<and> int_field t ''io_timeout_secs'' 60 (p_io_timeout_secs p)
     \<and> int_field t ''shutdown_timeout_secs'' 30 (p_shutdown_timeout_secs p)
     \<and> table_field t ''policy'' (\<lambda>u f. string_field u ''file'' (Some f)) (Some (ps_file (p_policy p))))"

subsection \<open>The deserializers follow the document\<close>

named_theorems says_dests \<open>a field that was read is what the document says\<close>

lemma field_default_u64 [says_dests]: "field_default name d de_u64 t = Inr n \<Longrightarrow> int_field t name d n"
  by (auto simp: field_default_def de_u64_def int_field_def split: option.splits toml.splits if_splits)

lemma field_string [says_dests]: "field name de_string t = Inr x \<Longrightarrow> string_field t name (Some x)"
  by (auto simp: field_def de_string_def string_field_def split: option.splits toml.splits)

lemma field_opt_string [says_dests]: "field_opt name de_string t = Inr x \<Longrightarrow> string_field t name x"
  by (cases "map_of t name") (auto simp: field_opt_def de_string_def string_field_def res_simps split: toml.splits)

lemma field_opt_table:
  "field_opt name f t = Inr x \<Longrightarrow> (\<And>v y. f v = Inr y \<Longrightarrow> \<exists>u. v = TomlTable u \<and> says u y) \<Longrightarrow> table_field t name says x"
  by (cases "map_of t name") (auto simp: field_opt_def table_field_def res_simps)

lemma de_table_Inr: "de_table f v = Inr x \<longleftrightarrow> (\<exists>t. v = TomlTable t \<and> f t = Inr x)"
  by (auto simp: de_table_def split: toml.splits)

lemma de_client_cert_says: "de_client_cert_config v = Inr c \<Longrightarrow> \<exists>t. v = TomlTable t \<and> client_cert_says t c"
  by (auto simp: de_client_cert_config_def de_table_Inr res_simps client_cert_says_def dest!: says_dests)

lemma field_default_bool [says_dests]: "field_default name False de_bool t = Inr b \<Longrightarrow> flag_field t name b"
  by (auto simp: field_default_def de_bool_def flag_field_def split: option.splits toml.splits)

lemma de_upstream_tls_says: "de_upstream_tls_config v = Inr u \<Longrightarrow> \<exists>t. v = TomlTable t \<and> upstream_tls_says t u"
  by (auto simp: de_upstream_tls_config_def de_table_Inr res_simps upstream_tls_says_def
      dest!: says_dests field_opt_table [OF _ de_client_cert_says])

lemma de_listen_tls_says: "de_listen_tls_config v = Inr l \<Longrightarrow> \<exists>t. v = TomlTable t \<and> listen_tls_says t l"
  by (auto simp: de_listen_tls_config_def de_table_Inr res_simps listen_tls_says_def dest!: says_dests)

lemma de_addr_says: "de_addr pa v = Inr a \<Longrightarrow> addr_says pa v a"
  by (auto simp: de_addr_def de_string_def addr_says_def res_simps split: toml.splits option.splits)

lemma field_addr_says: "field name (de_addr pa) t = Inr a \<Longrightarrow> \<exists>l. map_of t name = Some l \<and> addr_says pa l a"
  by (auto simp: field_def split: option.splits dest: de_addr_says)

lemma de_list_says: "de_list f vs = Inr xs \<Longrightarrow> (\<And>v x. f v = Inr x \<Longrightarrow> P v x) \<Longrightarrow> list_all2 P vs xs"
  by (induction vs arbitrary: xs) (auto simp: res_simps)

lemma de_strategy_says:
  "field_default ''upstream_strategy'' default_strategy (de_variant strategy_names) t = Inr s \<Longrightarrow> strategy_says t s"
  by (auto simp: field_default_def de_variant_def strategy_names_def de_string_def default_strategy_def strategy_says_def
      res_simps split: option.splits toml.splits if_splits)

lemma de_upstream_addrs_says:
  assumes "field ''upstream_addrs'' (deserialize_non_empty_addrs pa) t = Inr ua"
  shows "\<exists>us. map_of t ''upstream_addrs'' = Some (TomlArray us) \<and> us \<noteq> [] \<and> list_all2 (addr_says pa) us ua"
proof -
  from assms obtain us where us: "map_of t ''upstream_addrs'' = Some (TomlArray us)" "de_list (de_addr pa) us = Inr ua" "ua \<noteq> []"
    by (auto simp: field_def deserialize_non_empty_addrs_def de_array_def res_simps split: option.splits toml.splits if_splits)
  then have "us \<noteq> []" by auto
  moreover have "list_all2 (addr_says pa) us ua" by (rule de_list_says [OF us(2)]) (rule de_addr_says)
  ultimately show ?thesis using us(1) by blast
qed

lemma de_proxy_says:
  assumes "de_proxy_config pa v = Inr p"
  shows "proxy_says pa v p"
proof -
  from assms obtain t la ua us cd ut lt ls mc io sd po where v: "v = TomlTable t"
    and la: "field ''listen_addr'' (de_addr pa) t = Inr la"
    and ua: "field ''upstream_addrs'' (deserialize_non_empty_addrs pa) t = Inr ua"
    and us: "field_default ''upstream_strategy'' default_strategy (de_variant strategy_names) t = Inr us"
    and ints: "field_default ''upstream_failure_cooldown_secs'' default_upstream_failure_cooldown_secs de_u64 t = Inr cd"
      "field_default ''max_connections'' default_max_connections de_u64 t = Inr mc"
      "field_default ''io_timeout_secs'' default_io_timeout_secs de_u64 t = Inr io"
      "field_default ''shutdown_timeout_secs'' default_shutdown_timeout_secs de_u64 t = Inr sd"
    and tls: "field_opt ''upstream_tls'' de_upstream_tls_config t = Inr ut" "field_opt ''listen_tls'' de_listen_tls_config t = Inr lt"
      "field_opt ''listen_starttls'' de_listen_tls_config t = Inr ls"
    and po: "field ''policy'' de_policy_source t = Inr po"
    and p: "p = \<lparr>p_listen_addr = la, p_upstream_addrs = ua, p_upstream_strategy = us,
          p_upstream_failure_cooldown_secs = cd, p_upstream_tls = ut, p_listen_tls = lt, p_listen_starttls = ls,
          p_max_connections = mc, p_io_timeout_secs = io, p_shutdown_timeout_secs = sd, p_policy = po\<rparr>"
    unfolding de_proxy_config_def de_table_Inr res_bind_eq_Inr by blast
  have defaults: "default_upstream_failure_cooldown_secs = 30" "default_max_connections = 1024"
    "default_io_timeout_secs = 60" "default_shutdown_timeout_secs = 30"
    by (simp_all add: default_upstream_failure_cooldown_secs_def DEFAULT_FAILURE_COOLDOWN_SECS_def default_max_connections_def
        default_io_timeout_secs_def default_shutdown_timeout_secs_def default_connection_limits_def from_secs_def)
  have "\<exists>l. map_of t ''listen_addr'' = Some l \<and> addr_says pa l la"
    using la by (rule field_addr_says)
  moreover have "table_field t ''policy'' (\<lambda>u f. string_field u ''file'' (Some f)) (Some (ps_file po))"
  proof -
    from po obtain u f where "map_of t ''policy'' = Some (TomlTable u)" "field ''file'' de_string u = Inr f" "po = \<lparr>ps_file = f\<rparr>"
      by (auto simp: field_def [of "''policy''"] de_policy_source_def de_table_Inr res_simps split: option.splits)
    with field_string [of "''file''" u f] show ?thesis by (simp add: table_field_def)
  qed
  moreover have "table_field t ''upstream_tls'' upstream_tls_says ut"
    by (rule field_opt_table [OF tls(1)]) (rule de_upstream_tls_says)
  moreover have "table_field t ''listen_tls'' listen_tls_says lt"
    by (rule field_opt_table [OF tls(2)]) (rule de_listen_tls_says)
  moreover have "table_field t ''listen_starttls'' listen_tls_says ls"
    by (rule field_opt_table [OF tls(3)]) (rule de_listen_tls_says)
  ultimately show ?thesis
    using v p de_upstream_addrs_says [OF ua] de_strategy_says [OF us] ints [THEN field_default_u64, unfolded defaults]
    by (auto simp: proxy_says_def)
qed

subsection \<open>Properties\<close>

text \<open>C37 A configuration is what its file says: a file that loads is a document whose \<open>proxy\<close> tables, at least
  one, give the entries in their order. Each entry has at least one upstream address, every field that is given
  has the value of the document, within the range of its type, and every field that is left out has its
  documented default: 1024 connections, 60 seconds for a read or write, 30 seconds to drain, 30 seconds of
  cooldown, round robin, no TLS on either side, no StartTLS.\<close>

theorem config_is_the_file:
  assumes "config_load fs_read parse pa path = Inr c"
  shows "\<exists>raw doc tables. fs_read path = Inr raw \<and> parse raw = Inr (TomlTable doc)
    \<and> map_of doc ''proxy'' = Some (TomlArray tables) \<and> tables \<noteq> [] \<and> list_all2 (proxy_says pa) tables (c_proxy c)
    \<and> table_field doc ''metrics'' (\<lambda>u m. \<exists>l. map_of u ''listen_addr'' = Some l \<and> addr_says pa l (m_listen_addr m)) (c_metrics c)
    \<and> table_field doc ''health'' (\<lambda>u h. \<exists>l. map_of u ''listen_addr'' = Some l \<and> addr_says pa l (h_listen_addr h)) (c_health c)"
proof -
  from assms obtain raw doc px where raw: "fs_read path = Inr raw" "parse raw = Inr (TomlTable doc)"
    and px: "field ''proxy'' (de_array (de_proxy_config pa)) doc = Inr px" "px \<noteq> []" "c_proxy c = px"
    and mh: "field_opt ''metrics'' (de_metrics_config pa) doc = Inr (c_metrics c)"
      "field_opt ''health'' (de_health_config pa) doc = Inr (c_health c)"
    by (auto simp: config_load_def from_str_def de_config_def de_table_Inr res_simps split: if_splits)
  from px(1) obtain tables where t: "map_of doc ''proxy'' = Some (TomlArray tables)" "de_list (de_proxy_config pa) tables = Inr px"
    by (auto simp: field_def de_array_def split: option.splits toml.splits)
  have "tables \<noteq> []" using t(2) px(2) by auto
  moreover have "list_all2 (proxy_says pa) tables px" by (rule de_list_says [OF t(2) de_proxy_says])
  moreover have "table_field doc ''metrics'' (\<lambda>u m. \<exists>l. map_of u ''listen_addr'' = Some l \<and> addr_says pa l (m_listen_addr m)) (c_metrics c)"
    by (rule field_opt_table [OF mh(1)])
      (auto simp: de_metrics_config_def de_table_Inr res_simps dest: field_addr_says)
  moreover have "table_field doc ''health'' (\<lambda>u h. \<exists>l. map_of u ''listen_addr'' = Some l \<and> addr_says pa l (h_listen_addr h)) (c_health c)"
    by (rule field_opt_table [OF mh(2)])
      (auto simp: de_health_config_def de_table_Inr res_simps dest: field_addr_says)
  ultimately show ?thesis using raw t(1) px(3) by blast
qed

definition demo_proxy_config :: "socket_addr \<Rightarrow> proxy_config" where
  "demo_proxy_config a = \<lparr>p_listen_addr = a, p_upstream_addrs = [a, a], p_upstream_strategy = Random,
     p_upstream_failure_cooldown_secs = 5,
     p_upstream_tls = Some \<lparr>ut_server_name = ''dc'', ut_ca_file = None,
        ut_client_cert = Some \<lparr>cc_cert_file = ''c'', cc_key_file = ''k''\<rparr>, ut_starttls = True\<rparr>,
     p_listen_tls = None, p_listen_starttls = Some \<lparr>lt_cert_file = ''c'', lt_key_file = ''k'', lt_client_ca_file = None\<rparr>,
     p_max_connections = 7, p_io_timeout_secs = 8, p_shutdown_timeout_secs = 9, p_policy = \<lparr>ps_file = ''p.toml''\<rparr>\<rparr>"

definition demo_document :: toml where
  "demo_document = TomlTable [(''proxy'', TomlArray [TomlTable [(''listen_addr'', TomlString ''l''),
     (''upstream_addrs'', TomlArray [TomlString ''u'']), (''io_timeout_secs'', TomlInt 5),
     (''policy'', TomlTable [(''file'', TomlString ''p.toml'')])]])]"

theorem config_is_the_file_witness:
  "\<exists>c p. config_load (\<lambda>_. Inr ''text'') (\<lambda>_. Inr demo_document :: unit + toml) (\<lambda>_. Some \<lparr>sock_ip = V4 127 0 0 1, sock_port = 389\<rparr>)
       ''config.toml'' = Inr c
     \<and> c_proxy c = [p] \<and> p_io_timeout_secs p = 5 \<and> p_shutdown_timeout_secs p = 30"
proof -
  let ?load = "config_load (\<lambda>_. Inr ''text'') (\<lambda>_. Inr demo_document :: unit + toml)
    (\<lambda>_. Some \<lparr>sock_ip = V4 127 0 0 1, sock_port = 389\<rparr>) ''config.toml''"
  have "is_ok ?load" by code_simp
  then obtain c where c: "?load = Inr c" by (auto simp: is_ok_def split: sum.splits)
  from config_is_the_file [OF c] c show ?thesis
    by (auto simp: demo_document_def list_all2_Cons1 proxy_says_def int_field_def)
qed

text \<open>The defaults: an entry that gives only its listen address, its upstream addresses and its policy
  file gets 1024 connections, 60 seconds for a read or write, 30 seconds to drain, 30 seconds of
  cooldown, round robin, and no TLS on either side; an empty list of upstream addresses is refused.\<close>

theorem minimal_proxy_entry:
  assumes "parse_addr l = Some la" "map parse_addr us = map Some ua"
  shows "de_proxy_config parse_addr (TomlTable [(''listen_addr'', TomlString l),
           (''upstream_addrs'', TomlArray (map TomlString us)), (''policy'', TomlTable [(''file'', TomlString f)])])
       = (if us = [] then Inl (Custom ''upstream_addrs must have at least one address'')
          else Inr \<lparr>p_listen_addr = la, p_upstream_addrs = ua, p_upstream_strategy = RoundRobin,
             p_upstream_failure_cooldown_secs = 30, p_upstream_tls = None, p_listen_tls = None, p_listen_starttls = None,
             p_max_connections = 1024, p_io_timeout_secs = 60, p_shutdown_timeout_secs = 30,
             p_policy = \<lparr>ps_file = f\<rparr>\<rparr>)"
proof -
  have "de_list (de_addr parse_addr) (map TomlString us) = Inr ua"
    using assms(2)
  proof (induction us arbitrary: ua)
    case (Cons u us)
    then obtain a as where "ua = a # as" by (cases ua) auto
    with Cons show ?case by (auto simp: de_addr_def de_string_def)
  qed simp
  moreover have "us = [] \<longleftrightarrow> ua = []" using assms(2) by (metis map_is_Nil_conv)
  ultimately show ?thesis
    using assms(1)
    by (simp add: de_proxy_config_def deserialize_non_empty_addrs_def de_policy_source_def de_simps
        default_strategy_def default_max_connections_def default_io_timeout_secs_def default_shutdown_timeout_secs_def
        default_upstream_failure_cooldown_secs_def DEFAULT_FAILURE_COOLDOWN_SECS_def default_connection_limits_def from_secs_def)
qed

theorem minimal_proxy_entry_witness:
  "\<exists>p. de_proxy_config (\<lambda>s. Some \<lparr>sock_ip = V4 127 0 0 1, sock_port = 389\<rparr>)
      (TomlTable [(''listen_addr'', TomlString ''l''), (''upstream_addrs'', TomlArray (map TomlString [''u''])),
         (''policy'', TomlTable [(''file'', TomlString ''p.toml'')])]) = Inr p \<and> p_max_connections p = 1024"
  by (subst minimal_proxy_entry [where la = "\<lparr>sock_ip = V4 127 0 0 1, sock_port = 389\<rparr>"
        and ua = "[\<lparr>sock_ip = V4 127 0 0 1, sock_port = 389\<rparr>]"]) simp_all

end
