(* ===== verification/History.thy ===== *)
theory History
  imports Policy_Core
begin

text \<open>
  The sliding-window history of a threshold policy (\<open>History\<close> in core/policy/threshold.rs): a map
  from identities to the times of their admitted actions, and a secondary index over it, ordered by
  \<open>(last activity, identity)\<close>, from which the eviction victim is read.

  The lemmas show that every operation keeps the index in step with the map (\<open>hist_inv\<close>), what each
  operation does to the windows, and that eviction by the index is eviction of the least recently
  active identities.
\<close>

type_synonym window_times = "instant list"

record history =
  by_identity :: "(identity \<times> window_times) list"
  by_activity :: "(instant option \<times> identity) list"

definition empty_history :: history where
  "empty_history = \<lparr>by_identity = [], by_activity = []\<rparr>"

definition activity_key :: "window_times \<Rightarrow> instant option" where
  "activity_key ts = (if ts = [] then None else Some (last ts))"

definition hist_len :: "history \<Rightarrow> nat" where
  "hist_len h = length (by_identity h)"

definition contains_key :: "history \<Rightarrow> identity \<Rightarrow> bool" where
  "contains_key h k \<longleftrightarrow> map_of (by_identity h) k \<noteq> None"

definition window_len :: "history \<Rightarrow> identity \<Rightarrow> nat" where
  "window_len h k = (case map_of (by_identity h) k of None \<Rightarrow> 0 | Some ts \<Rightarrow> length ts)"

definition ensure :: "identity \<Rightarrow> history \<Rightarrow> history" where
  "ensure k h =
     (case map_of (by_identity h) k of
        Some _ \<Rightarrow> h
      | None \<Rightarrow> h\<lparr>by_identity := AList.update k [] (by_identity h),
                  by_activity := bt_insert (None, k) (by_activity h)\<rparr>)"

fun drop_stale :: "instant \<Rightarrow> duration \<Rightarrow> window_times \<Rightarrow> window_times" where
  "drop_stale now window [] = []"
| "drop_stale now window (t # ts) =
     (if duration_since now t > window then drop_stale now window ts else t # ts)"

definition prune_stale :: "identity \<Rightarrow> instant \<Rightarrow> duration \<Rightarrow> history \<Rightarrow> history" where
  "prune_stale k now window h =
     (case map_of (by_identity h) k of
        None \<Rightarrow> h
      | Some ts \<Rightarrow> h\<lparr>by_identity := AList.update k (drop_stale now window ts) (by_identity h)\<rparr>)"

definition record_admitted :: "identity \<Rightarrow> instant \<Rightarrow> nat \<Rightarrow> history \<Rightarrow> history" where
  "record_admitted k now count h =
     (case map_of (by_identity h) k of
        None \<Rightarrow> h
      | Some ts \<Rightarrow>
          (let h' = h\<lparr>by_identity := AList.update k (ts @ replicate count now) (by_identity h)\<rparr>
           in if activity_key ts \<noteq> Some now
              then h'\<lparr>by_activity := bt_insert (Some now, k) (bt_remove (activity_key ts, k) (by_activity h'))\<rparr>
              else h'))"

definition hist_set :: "identity \<Rightarrow> window_times \<Rightarrow> history \<Rightarrow> history" where
  "hist_set k ts h =
     (let act = (case map_of (by_identity h) k of
                   None \<Rightarrow> by_activity h
                 | Some old \<Rightarrow> bt_remove (activity_key old, k) (by_activity h))
      in if ts = [] then h\<lparr>by_identity := AList.delete k (by_identity h), by_activity := act\<rparr>
         else h\<lparr>by_identity := AList.update k ts (by_identity h),
                by_activity := bt_insert (activity_key ts, k) act\<rparr>)"

definition evict_entry :: "instant option \<times> identity \<Rightarrow> history \<Rightarrow> history" where
  "evict_entry e h = h\<lparr>by_identity := AList.delete (snd e) (by_identity h),
                       by_activity := bt_remove e (by_activity h)\<rparr>"

function evict_stalest_until :: "nat \<Rightarrow> history \<Rightarrow> history" where
  "evict_stalest_until target_len h =
     (if hist_len h > target_len then
        (case bt_first (by_activity h) of
           None \<Rightarrow> h
         | Some stalest \<Rightarrow> evict_stalest_until target_len (evict_entry stalest h))
      else h)"
  by pat_completeness auto
termination
  by (relation "measure (\<lambda>(n, h). length (by_activity h))")
    (auto simp: bt_first_def bt_remove_def evict_entry_def split: list.splits)

declare evict_stalest_until.simps [simp del]

subsection \<open>Invariants\<close>

text \<open>The window of an identity as a client sees it, and the identities that are tracked.\<close>

definition window_of :: "history \<Rightarrow> identity \<Rightarrow> window_times" where
  "window_of h k = (case map_of (by_identity h) k of None \<Rightarrow> [] | Some ts \<Rightarrow> ts)"

definition tracked :: "history \<Rightarrow> identity set" where
  "tracked h = dom (map_of (by_identity h))"

text \<open>\<open>hist_wf\<close>: both containers are well formed and every tracked identity has an index entry, so
  that eviction always finds a victim. \<open>index_exact\<close>: the index holds nothing else, and each entry
  carries the time of the identity's last admitted action. The program means to keep both.\<close>

definition hist_wf :: "history \<Rightarrow> bool" where
  "hist_wf h \<longleftrightarrow> distinct (map fst (by_identity h)) \<and> sorted (by_activity h) \<and> distinct (by_activity h)
     \<and> (\<forall>k \<in> tracked h. \<exists>t. (t, k) \<in> set (by_activity h))"

definition index_exact :: "history \<Rightarrow> bool" where
  "index_exact h \<longleftrightarrow>
     (\<forall>(t, k) \<in> set (by_activity h). k \<in> tracked h \<and> t = activity_key (window_of h k))"

subsection \<open>Lemmas on single operations\<close>

lemma window_len_window_of: "window_len h k = length (window_of h k)"
  by (simp add: window_len_def window_of_def split: option.splits)

lemma contains_key_tracked: "contains_key h k \<longleftrightarrow> k \<in> tracked h"
  by (auto simp: contains_key_def tracked_def)

lemma window_of_untracked: "k \<notin> tracked h \<Longrightarrow> window_of h k = []"
  by (auto simp: window_of_def tracked_def split: option.splits)

lemma finite_tracked [simp]: "finite (tracked h)"
  by (simp add: tracked_def finite_dom_map_of)

lemma hist_wfD:
  assumes "hist_wf h"
  shows "distinct (map fst (by_identity h))" "sorted (by_activity h)" "distinct (by_activity h)"
    and "k \<in> tracked h \<Longrightarrow> \<exists>t. (t, k) \<in> set (by_activity h)"
  using assms by (auto simp: hist_wf_def)

lemma hist_len_tracked: "hist_wf h \<Longrightarrow> hist_len h = card (tracked h)"
  by (simp add: hist_wf_def hist_len_def tracked_def length_alist_dom)

lemma index_exactD:
  "index_exact h \<Longrightarrow> (t, k) \<in> set (by_activity h) \<Longrightarrow> k \<in> tracked h \<and> t = activity_key (window_of h k)"
  by (auto simp: index_exact_def)

lemma index_exact_entry:
  "hist_wf h \<Longrightarrow> index_exact h \<Longrightarrow> k \<in> tracked h \<Longrightarrow>
   (activity_key (window_of h k), k) \<in> set (by_activity h)"
  by (metis hist_wfD(4) index_exactD)

lemma empty_history_wf [simp]: "hist_wf empty_history" "index_exact empty_history"
  by (simp_all add: hist_wf_def index_exact_def empty_history_def tracked_def)

lemma empty_history_simps [simp]:
  "tracked empty_history = {}" "window_of empty_history k = []" "hist_len empty_history = 0"
  by (simp_all add: tracked_def empty_history_def window_of_def hist_len_def)

text \<open>Windows and tracked identities after each operation.\<close>

lemma window_of_ensure [simp]: "window_of (ensure k h) = window_of h"
  by (auto simp: window_of_def ensure_def fun_eq_iff split: option.splits)

lemma tracked_ensure [simp]: "tracked (ensure k h) = insert k (tracked h)"
  by (auto simp: tracked_def ensure_def split: option.splits)

lemma drop_stale_Nil_iff: "drop_stale now w ts = [] \<longleftrightarrow> (\<forall>t \<in> set ts. duration_since now t > w)"
  by (induction ts) auto

lemma last_drop_stale: "drop_stale now w ts \<noteq> [] \<Longrightarrow> last (drop_stale now w ts) = last ts"
  by (induction ts) (auto split: if_splits)

lemma drop_stale_suffix: "\<exists>us. ts = us @ drop_stale now w ts \<and> (\<forall>t \<in> set us. duration_since now t > w)"
proof (induction ts)
  case Nil
  then show ?case by simp
next
  case (Cons t ts)
  then obtain us where us: "ts = us @ drop_stale now w ts" "\<forall>t \<in> set us. duration_since now t > w" by blast
  show ?case
  proof (cases "duration_since now t > w")
    case True
    with us show ?thesis by (intro exI [of _ "t # us"]) auto
  next
    case False
    then show ?thesis by (intro exI [of _ "[]"]) auto
  qed
qed

text \<open>Pruning a sorted window keeps exactly the timestamps that are still inside it.\<close>

lemma drop_stale_sorted: "sorted ts \<Longrightarrow> drop_stale now w ts = filter (\<lambda>t. duration_since now t \<le> w) ts"
proof (induction ts)
  case Nil
  then show ?case by simp
next
  case (Cons t ts)
  show ?case
  proof (cases "duration_since now t > w")
    case True
    with Cons show ?thesis by simp
  next
    case False
    with Cons.prems have "\<forall>u \<in> set ts. duration_since now u \<le> w"
      by (auto simp: time_simps)
    with False show ?thesis by (simp add: filter_id_conv)
  qed
qed

lemma window_of_prune [simp]:
  "window_of (prune_stale k now w h) = (window_of h)(k := drop_stale now w (window_of h k))"
  by (auto simp: window_of_def prune_stale_def fun_eq_iff split: option.splits)

lemma tracked_prune [simp]: "tracked (prune_stale k now w h) = tracked h"
  by (auto simp: tracked_def prune_stale_def split: option.splits)

lemma window_of_record:
  "k \<in> tracked h \<Longrightarrow>
   window_of (record_admitted k now n h) = (window_of h)(k := window_of h k @ replicate n now)"
  by (auto simp: window_of_def tracked_def record_admitted_def Let_def fun_eq_iff split: option.splits)

lemma tracked_record [simp]: "tracked (record_admitted k now n h) = tracked h"
  by (auto simp: tracked_def record_admitted_def Let_def split: option.splits)

lemma window_of_hist_set [simp]: "window_of (hist_set k ts h) = (window_of h)(k := ts)"
  by (auto simp: window_of_def hist_set_def Let_def fun_eq_iff split: option.splits)

lemma tracked_hist_set:
  "tracked (hist_set k ts h) = (if ts = [] then tracked h - {k} else insert k (tracked h))"
  by (auto simp: tracked_def hist_set_def Let_def split: option.splits)

subsection \<open>Each operation keeps the history well formed\<close>

lemma by_activity_ensure:
  "by_activity (ensure k h) = (if k \<in> tracked h then by_activity h else bt_insert (None, k) (by_activity h))"
  by (auto simp: ensure_def tracked_def split: option.splits)

lemma by_activity_record:
  "by_activity (record_admitted k now n h) =
     (if k \<in> tracked h \<and> activity_key (window_of h k) \<noteq> Some now
      then bt_insert (Some now, k) (bt_remove (activity_key (window_of h k), k) (by_activity h))
      else by_activity h)"
  by (auto simp: record_admitted_def tracked_def window_of_def Let_def split: option.splits)

lemma by_activity_prune [simp]: "by_activity (prune_stale k now w h) = by_activity h"
  by (auto simp: prune_stale_def split: option.splits)

lemma by_activity_hist_set:
  "by_activity (hist_set k ts h) =
     (let act = (if k \<in> tracked h then bt_remove (activity_key (window_of h k), k) (by_activity h)
                 else by_activity h)
      in if ts = [] then act else bt_insert (activity_key ts, k) act)"
  by (auto simp: hist_set_def tracked_def window_of_def Let_def split: option.splits)

lemma distinct_by_identity:
  assumes "distinct (map fst (by_identity h))"
  shows "distinct (map fst (by_identity (ensure k h)))"
    and "distinct (map fst (by_identity (prune_stale k now w h)))"
    and "distinct (map fst (by_identity (record_admitted k now n h)))"
    and "distinct (map fst (by_identity (hist_set k ts h)))"
  using assms
  by (simp_all add: ensure_def prune_stale_def record_admitted_def hist_set_def Let_def split: option.split)

lemma ensure_wf: "hist_wf h \<Longrightarrow> hist_wf (ensure k h)"
  unfolding hist_wf_def
  by (auto simp: distinct_by_identity by_activity_ensure strict_sorted_bt_insert)

lemma prune_wf: "hist_wf h \<Longrightarrow> hist_wf (prune_stale k now w h)"
  unfolding hist_wf_def by (simp add: distinct_by_identity)

lemma record_wf:
  assumes "hist_wf h"
  shows "hist_wf (record_admitted k now n h)"
proof -
  have "\<exists>t. (t, k') \<in> set (by_activity (record_admitted k now n h))" if "k' \<in> tracked h" for k'
    using hist_wfD(4) [OF assms that] hist_wfD(3) [OF assms]
    by (cases "k' = k") (auto simp: by_activity_record set_bt_remove)
  with assms show ?thesis
    unfolding hist_wf_def
    by (simp add: distinct_by_identity by_activity_record strict_sorted_bt_insert strict_sorted_bt_remove)
qed

lemma hist_set_wf:
  assumes "hist_wf h"
  shows "hist_wf (hist_set k ts h)"
proof -
  have "\<exists>t. (t, k') \<in> set (by_activity (hist_set k ts h))" if "k' \<in> tracked (hist_set k ts h)" for k'
    using that hist_wfD(4) [OF assms, of k'] hist_wfD(3) [OF assms]
    by (cases "k' = k") (auto simp: by_activity_hist_set tracked_hist_set Let_def set_bt_remove split: if_splits)
  with assms show ?thesis
    unfolding hist_wf_def
    by (simp add: distinct_by_identity by_activity_hist_set Let_def strict_sorted_bt_insert strict_sorted_bt_remove)
qed

subsection \<open>Exactness of the index\<close>

lemma ensure_exact:
  assumes "index_exact h"
  shows "index_exact (ensure k h)"
  using assms unfolding index_exact_def
  by (auto simp: by_activity_ensure window_of_untracked activity_key_def split: if_splits)

lemma activity_key_drop_stale:
  "drop_stale now w ts \<noteq> [] \<Longrightarrow> activity_key (drop_stale now w ts) = activity_key ts"
  by (auto simp: activity_key_def last_drop_stale)

lemma prune_exact:
  assumes "index_exact h" and "drop_stale now w (window_of h k) \<noteq> [] \<or> window_of h k = []"
  shows "index_exact (prune_stale k now w h)"
  using assms unfolding index_exact_def by (auto simp: activity_key_drop_stale)

lemma record_exact:
  assumes "hist_wf h" "index_exact h" "0 < n"
  shows "index_exact (record_admitted k now n h)"
proof (cases "k \<in> tracked h")
  case False
  with assms show ?thesis by (auto simp: record_admitted_def tracked_def split: option.splits)
next
  case True
  have key: "activity_key (window_of h k @ replicate n now) = Some now"
    using assms(3) by (simp add: activity_key_def)
  show ?thesis
    using assms True key hist_wfD(3) [OF assms(1)] unfolding index_exact_def
    by (auto simp: by_activity_record window_of_record set_bt_remove split: if_splits)
qed

lemma hist_set_exact:
  assumes "hist_wf h" "index_exact h"
  shows "index_exact (hist_set k ts h)"
  using assms(2) hist_wfD(3) [OF assms(1)] unfolding index_exact_def
  by (auto simp: by_activity_hist_set tracked_hist_set Let_def set_bt_remove split: if_splits)

subsection \<open>Eviction\<close>

lemma tracked_evict_entry: "tracked (evict_entry e h) = tracked h - {snd e}"
  by (auto simp: tracked_def evict_entry_def)

lemma window_of_evict_entry: "window_of (evict_entry e h) = (window_of h)(snd e := [])"
  by (auto simp: window_of_def evict_entry_def fun_eq_iff)

lemma by_activity_evict_entry: "by_activity (evict_entry e h) = bt_remove e (by_activity h)"
  by (simp add: evict_entry_def)

lemma evict_entry_wf:
  assumes "hist_wf h"
  shows "hist_wf (evict_entry e h)"
proof -
  have "\<exists>t. (t, k) \<in> set (bt_remove e (by_activity h))" if "k \<in> tracked h" "k \<noteq> snd e" for k
    using hist_wfD(4) [OF assms that(1)] hist_wfD(3) [OF assms] that(2)
    by (auto simp: set_bt_remove)
  with assms show ?thesis
    unfolding hist_wf_def tracked_evict_entry
    by (simp add: evict_entry_def strict_sorted_bt_remove)
qed

lemma evict_entry_exact:
  assumes "hist_wf h" "index_exact h" "e \<in> set (by_activity h)"
  shows "index_exact (evict_entry e h)"
proof -
  obtain te ke where e: "e = (te, ke)" by (cases e)
  have "k \<in> tracked (evict_entry e h) \<and> t = activity_key (window_of (evict_entry e h) k)"
    if "(t, k) \<in> set (by_activity (evict_entry e h))" for t k
  proof -
    from that have m: "(t, k) \<in> set (by_activity h)" "(t, k) \<noteq> e"
      by (simp_all add: by_activity_evict_entry set_bt_remove hist_wfD(3) [OF assms(1)])
    with index_exactD [OF assms(2)] assms(3) e have "k \<noteq> ke" by metis
    with index_exactD [OF assms(2) m(1)] e show ?thesis
      by (simp add: tracked_evict_entry window_of_evict_entry)
  qed
  then show ?thesis by (auto simp: index_exact_def)
qed

lemma bt_first_wf: "hist_wf h \<Longrightarrow> hist_len h > n \<Longrightarrow> \<exists>e. bt_first (by_activity h) = Some e"
proof -
  assume wf: "hist_wf h" and n: "hist_len h > n"
  then have "tracked h \<noteq> {}" by (auto simp: hist_len_tracked)
  with wf show ?thesis by (auto simp: hist_wf_def bt_first_def split: list.split)
qed

lemma bt_first_in: "bt_first xs = Some e \<Longrightarrow> e \<in> set xs"
  by (auto simp: bt_first_def split: list.splits)

lemma hist_len_evict_entry:
  assumes "hist_wf h"
  shows "hist_len h \<le> Suc (hist_len (evict_entry e h))"
proof (cases "snd e \<in> dom (map_of (by_identity h))")
  case True
  with length_alist_delete [OF hist_wfD(1) [OF assms]] show ?thesis
    by (simp add: hist_len_def evict_entry_def)
next
  case False
  then have "AList.delete (snd e) (by_identity h) = by_identity h"
    by (simp add: AList.delete_idem dom_map_of_conv_image_fst)
  then show ?thesis by (simp add: hist_len_def evict_entry_def)
qed

text \<open>The loop ends with the map at its target length, whatever the index says.\<close>

lemma evict_wf_len:
  assumes "hist_wf h"
  shows "hist_wf (evict_stalest_until n h) \<and> hist_len (evict_stalest_until n h) = min n (hist_len h)"
  using assms
proof (induction n h rule: evict_stalest_until.induct)
  case (1 n h)
  show ?case
  proof (cases "hist_len h > n")
    case False
    with "1.prems" show ?thesis by (simp add: evict_stalest_until.simps [of n h])
  next
    case True
    with "1.prems" obtain e where e: "bt_first (by_activity h) = Some e"
      using bt_first_wf by blast
    have "hist_len (evict_entry e h) \<ge> n" using hist_len_evict_entry [OF "1.prems", of e] True by simp
    with "1.IH" [OF True e evict_entry_wf [OF "1.prems"]] True e show ?thesis
      by (simp add: evict_stalest_until.simps [of n h])
  qed
qed

lemma evict_noop: "hist_len h \<le> n \<Longrightarrow> evict_stalest_until n h = h"
  by (simp add: evict_stalest_until.simps [of n h])

lemma evict_tracked_subset: "tracked (evict_stalest_until n h) \<subseteq> tracked h"
proof (induction n h rule: evict_stalest_until.induct)
  case (1 n h)
  then show ?case
    by (auto simp: evict_stalest_until.simps [of n h] tracked_evict_entry split: option.splits)
qed

text \<open>What eviction leaves, it leaves as it was.\<close>

lemma evict_window_of:
  assumes "k \<in> tracked (evict_stalest_until n h)"
  shows "window_of (evict_stalest_until n h) k = window_of h k"
  using assms
proof (induction n h rule: evict_stalest_until.induct)
  case (1 n h)
  show ?case
  proof (cases "hist_len h > n \<and> by_activity h \<noteq> []")
    case False
    with "1.prems" show ?thesis
      by (auto simp: evict_stalest_until.simps [of n h] bt_first_def split: list.splits)
  next
    case True
    then obtain e where e: "bt_first (by_activity h) = Some e"
      by (cases "by_activity h") (auto simp: bt_first_def)
    let ?r = "evict_stalest_until n (evict_entry e h)"
    have eq: "evict_stalest_until n h = ?r"
      using True e by (simp add: evict_stalest_until.simps [of n h])
    with "1.prems" have k: "k \<in> tracked ?r" by simp
    then have "k \<noteq> snd e"
      using evict_tracked_subset [of n "evict_entry e h"] by (auto simp: tracked_evict_entry)
    with "1.IH" [OF _ e] True k eq show ?thesis by (simp add: window_of_evict_entry)
  qed
qed

text \<open>With an exact index, the identities evicted are the least recently active ones, and the index
  stays exact.\<close>

lemma evict_exact_order:
  assumes "hist_wf h" "index_exact h"
  shows "index_exact (evict_stalest_until n h)
    \<and> (\<forall>k \<in> tracked (evict_stalest_until n h). \<forall>k' \<in> tracked h - tracked (evict_stalest_until n h).
         activity_key (window_of h k') \<le> activity_key (window_of h k))"
  using assms
proof (induction n h rule: evict_stalest_until.induct)
  case (1 n h)
  show ?case
  proof (cases "hist_len h > n")
    case False
    with "1.prems" show ?thesis by (simp add: evict_stalest_until.simps [of n h])
  next
    case True
    then obtain e where e: "bt_first (by_activity h) = Some e"
      using bt_first_wf "1.prems"(1) by blast
    let ?g = "evict_entry e h"
    let ?r = "evict_stalest_until n ?g"
    have eq: "evict_stalest_until n h = ?r"
      using True e by (simp add: evict_stalest_until.simps [of n h])
    obtain ke where ke: "e = (activity_key (window_of h ke), ke)"
      using bt_first_in [OF e] index_exactD [OF "1.prems"(2)] by (metis surj_pair)
    have first: "activity_key (window_of h ke) \<le> activity_key (window_of h k)" if "k \<in> tracked h" for k
      using bt_first_least [OF hist_wfD(2) [OF "1.prems"(1)] e index_exact_entry [OF "1.prems" that]] ke
      by (auto simp: less_eq_prod_def)
    from "1.IH" [OF True e evict_entry_wf [OF "1.prems"(1)] evict_entry_exact [OF "1.prems" bt_first_in [OF e]]]
    have IH: "index_exact ?r"
      "\<forall>k \<in> tracked ?r. \<forall>k' \<in> tracked ?g - tracked ?r. activity_key (window_of ?g k') \<le> activity_key (window_of ?g k)"
      by blast+
    have "activity_key (window_of h k') \<le> activity_key (window_of h k)"
      if k: "k \<in> tracked ?r" and k': "k' \<in> tracked h - tracked ?r" for k k'
    proof (cases "k' = ke")
      case True
      with k evict_tracked_subset [of n ?g] show ?thesis by (auto simp: tracked_evict_entry intro: first)
    next
      case False
      with k k' ke IH(2) evict_tracked_subset [of n ?g] show ?thesis
        by (fastforce simp: tracked_evict_entry window_of_evict_entry)
    qed
    with IH(1) eq show ?thesis by auto
  qed
qed

end
