(* ===== verification/Threshold.thy ===== *)
theory Threshold
  imports History
begin

text \<open>
  The threshold policy (core/policy/threshold.rs): its configuration, the state it keeps behind its
  locks, and \<open>evaluate\<close>, the decision on one action.

  \<open>evaluate\<close> takes the reading of the monotonic clock it makes and returns the policy's new state.
  The store handle of a policy with \<open>state_db\<close> is a type parameter here; the operations that use
  it are in theory Threshold_Sync.

  The specification is a log of every admitted unit of blast radius (\<open>spec_step\<close>): an action is
  admitted when its own blast radius is within the per-request limit and, added to what the log holds
  of its key inside the window, within the window limit. The refinement lemmas show that
  \<open>evaluate\<close> takes the same decisions as the specification as long as nothing is evicted, and the
  budget lemmas that no window of the log ever holds more than the window limit.
\<close>

subsection \<open>Configuration\<close>

record valkey_client_cert_config =
  vk_cert_file :: string
  vk_key_file :: string

record valkey_state_db_config =
  vk_url :: string
  vk_key_prefix :: string
  vk_ca_file :: "string option"
  vk_client_cert :: "valkey_client_cert_config option"
  vk_username :: "string option"
  vk_password :: "string option"

datatype state_db_config = Sqlite string | Valkey valkey_state_db_config

definition default_valkey_key_prefix :: string where
  "default_valkey_key_prefix = ''ai_protect:threshold''"

datatype threshold_scope = PerIdentity | Global

definition GLOBAL_HISTORY_KEY :: string where
  "GLOBAL_HISTORY_KEY = CHR 0x00 # ''ai-protect:global'' @ [CHR 0x00]"

record threshold_config =
  max_per_request :: nat
  max_per_window :: nat
  scope :: threshold_scope
  window :: duration
  state_db :: "state_db_config option"
  flush_interval :: duration
  max_tracked_identities :: nat
  operations :: "operation_kind list option"

definition default_flush_interval :: duration where
  "default_flush_interval = from_secs 2"

definition default_max_tracked_identities :: nat where
  "default_max_tracked_identities = 100000"

subsection \<open>State\<close>

record 's persistent_state =
  store :: 's
  pending :: "(identity \<times> instant) list"

record 's threshold_policy =
  config :: threshold_config
  hist :: history
  state :: "'s persistent_state option"

subsection \<open>Evaluating one action\<close>

definition history_key :: "threshold_config \<Rightarrow> policy_context \<Rightarrow> identity" where
  "history_key c ctx =
     (case scope c of PerIdentity \<Rightarrow> ctx_identity ctx | Global \<Rightarrow> Identity GLOBAL_HISTORY_KEY)"

definition scope_label :: "threshold_scope \<Rightarrow> string" where
  "scope_label s = (case s of PerIdentity \<Rightarrow> ''matching actions''
                            | Global \<Rightarrow> ''matching actions across all identities'')"

definition request_reason :: "nat \<Rightarrow> nat \<Rightarrow> string" where
  "request_reason radius limit =
     ''blast radius '' @ show_nat radius @ '' exceeds per-request limit '' @ show_nat limit"

definition window_reason :: "nat \<Rightarrow> threshold_config \<Rightarrow> string" where
  "window_reason n c =
     show_nat n @ '' '' @ scope_label (scope c) @ '' in the last '' @ debug_duration (window c)
       @ '' would exceed window limit '' @ show_nat (max_per_window c)"

text \<open>The operation filter: an action of another kind passes without touching the policy's state.\<close>

definition policed :: "threshold_config \<Rightarrow> action \<Rightarrow> bool" where
  "policed c a \<longleftrightarrow> (case operations c of None \<Rightarrow> True | Some ops \<Rightarrow> operation a \<in> set ops)"

definition push_pending ::
  "identity \<Rightarrow> instant \<Rightarrow> nat \<Rightarrow> 's persistent_state option \<Rightarrow> 's persistent_state option" where
  "push_pending k now n st =
     map_option (\<lambda>s. s\<lparr>pending := pending s @ replicate n (k, now)\<rparr>) st"

text \<open>The history as \<open>evaluate\<close> prepares it under the lock: room is made for a new identity before it
  is entered, and the window of the key is pruned.\<close>

definition prepare_history :: "threshold_config \<Rightarrow> identity \<Rightarrow> instant \<Rightarrow> history \<Rightarrow> history" where
  "prepare_history c k now h =
     (let h1 = (if \<not> contains_key h k then evict_stalest_until (max_tracked_identities c - 1) h else h);
          h2 = ensure k h1
      in prune_stale k now (window c) h2)"

text \<open>\<open>evaluate\<close> holds the lock of the history up to \<open>drop(history)\<close>; what it pushes to the queue it pushes
  afterwards, under the lock of the queue. The first part leaves the key, the time and the number of entries
  to push.\<close>

type_synonym push = "identity \<times> instant \<times> nat"

definition evaluate_locked ::
  "'s threshold_policy \<Rightarrow> instant \<Rightarrow> action \<Rightarrow> policy_context \<Rightarrow> decision \<times> 's threshold_policy \<times> push option" where
  "evaluate_locked p now a ctx =
     (let c = config p in
      if \<not> policed c a then (Allow, p, None)
      else if blast_radius a > max_per_request c then
        (Block (request_reason (blast_radius a) (max_per_request c)), p, None)
      else
        (let k = history_key c ctx;
             h = prepare_history c k now (hist p);
             n = window_len h k
         in if usize_add n (blast_radius a) > max_per_window c then
              (Block (window_reason n c), p\<lparr>hist := h\<rparr>, None)
            else
              (Allow, p\<lparr>hist := record_admitted k now (blast_radius a) h\<rparr>, Some (k, now, blast_radius a))))"

definition push_admitted :: "push option \<Rightarrow> 's threshold_policy \<Rightarrow> 's threshold_policy" where
  "push_admitted push p =
     (case push of None \<Rightarrow> p | Some (k, now, n) \<Rightarrow> p\<lparr>state := push_pending k now n (state p)\<rparr>)"

definition evaluate ::
  "'s threshold_policy \<Rightarrow> instant \<Rightarrow> action \<Rightarrow> policy_context \<Rightarrow> decision \<times> 's threshold_policy" where
  "evaluate p now a ctx =
     (case evaluate_locked p now a ctx of (d, p', push) \<Rightarrow> (d, push_admitted push p'))"

lemmas evaluate_defs = evaluate_def evaluate_locked_def push_admitted_def

subsection \<open>Runs\<close>

type_synonym request = "instant \<times> action \<times> policy_context"

fun run_evaluate :: "'s threshold_policy \<Rightarrow> request list \<Rightarrow> decision list \<times> 's threshold_policy" where
  "run_evaluate p [] = ([], p)"
| "run_evaluate p ((now, a, ctx) # rs) =
     (case evaluate p now a ctx of (d, p') \<Rightarrow>
        (case run_evaluate p' rs of (ds, p'') \<Rightarrow> (d # ds, p'')))"

text \<open>What a run has charged to a key: one entry per unit of blast radius of every policed action
  that was allowed.\<close>

fun charges :: "threshold_config \<Rightarrow> identity \<Rightarrow> request list \<Rightarrow> decision list \<Rightarrow> instant list" where
  "charges c k ((now, a, ctx) # rs) (d # ds) =
     (if d = Allow \<and> policed c a \<and> history_key c ctx = k then replicate (blast_radius a) now else [])
       @ charges c k rs ds"
| "charges c k _ _ = []"

definition in_window :: "duration \<Rightarrow> instant \<Rightarrow> instant \<Rightarrow> bool" where
  "in_window w t u \<longleftrightarrow> t - int w \<le> u \<and> u \<le> t"

subsection \<open>The specification\<close>

type_synonym admission_log = "(identity \<times> instant) list"

definition log_of :: "admission_log \<Rightarrow> identity \<Rightarrow> instant list" where
  "log_of log k = map snd (filter (\<lambda>e. fst e = k) log)"

definition spec_step ::
  "threshold_config \<Rightarrow> admission_log \<Rightarrow> request \<Rightarrow> bool \<times> admission_log" where
  "spec_step c log r =
     (case r of (now, a, ctx) \<Rightarrow>
        if \<not> policed c a then (True, log)
        else if blast_radius a \<le> max_per_request c
          \<and> length (filter (in_window (window c) now) (log_of log (history_key c ctx))) + blast_radius a
              \<le> max_per_window c
        then (True, log @ replicate (blast_radius a) (history_key c ctx, now))
        else (False, log))"

fun spec_run :: "threshold_config \<Rightarrow> admission_log \<Rightarrow> request list \<Rightarrow> bool list \<times> admission_log" where
  "spec_run c log [] = ([], log)"
| "spec_run c log (r # rs) =
     (case spec_step c log r of (b, log') \<Rightarrow>
        (case spec_run c log' rs of (bs, log'') \<Rightarrow> (b # bs, log'')))"

subsection \<open>What one evaluation does\<close>

lemma prepare_wf: "hist_wf h \<Longrightarrow> hist_wf (prepare_history c k now h)"
  by (simp add: prepare_history_def Let_def prune_wf ensure_wf evict_wf_len)

lemma tracked_prepare: "k \<in> tracked (prepare_history c k now h)"
  by (simp add: prepare_history_def Let_def)

lemma window_of_prepare_key:
  "window_of (prepare_history c k now h) k = drop_stale now (window c) (window_of h k)"
proof (cases "k \<in> tracked h")
  case True
  then show ?thesis by (simp add: prepare_history_def Let_def contains_key_tracked)
next
  case False
  then have "k \<notin> tracked (evict_stalest_until (max_tracked_identities c - 1) h)"
    using evict_tracked_subset by blast
  with False show ?thesis
    by (simp add: prepare_history_def Let_def contains_key_tracked window_of_untracked)
qed

lemma prepare_len:
  assumes "hist_wf h" "hist_len h \<le> max 1 (max_tracked_identities c)"
  shows "hist_len (prepare_history c k now h) \<le> max 1 (max_tracked_identities c)"
proof (cases "k \<in> tracked h")
  case True
  then have "tracked (prepare_history c k now h) = tracked h"
    by (auto simp: prepare_history_def Let_def contains_key_tracked)
  with assms show ?thesis by (simp add: hist_len_tracked prepare_wf)
next
  case False
  let ?e = "evict_stalest_until (max_tracked_identities c - 1) h"
  have e: "hist_wf ?e" "hist_len ?e \<le> max_tracked_identities c - 1"
    using evict_wf_len [OF assms(1)] by simp_all
  have "tracked (prepare_history c k now h) = insert k (tracked ?e)"
    using False by (simp add: prepare_history_def Let_def contains_key_tracked)
  then have "hist_len (prepare_history c k now h) \<le> Suc (hist_len ?e)"
    using e(1) assms(1) by (simp add: hist_len_tracked prepare_wf card_insert_if)
  with e(2) show ?thesis by auto
qed

text \<open>Nothing is evicted while there is room for the new identity.\<close>

lemma prepare_no_eviction:
  assumes "k \<in> tracked h \<or> hist_len h \<le> max_tracked_identities c - 1"
  shows "prepare_history c k now h = prune_stale k now (window c) (ensure k h)"
  using assms by (auto simp: prepare_history_def Let_def contains_key_tracked evict_noop)

lemma evaluate_bypass: "\<not> policed (config p) a \<Longrightarrow> evaluate p now a ctx = (Allow, p)"
  by (simp add: evaluate_defs Let_def)

lemma evaluate_config [simp]: "config (snd (evaluate p now a ctx)) = config p"
  by (simp add: evaluate_defs Let_def)

lemma evaluate_wf:
  assumes "hist_wf (hist p)" "hist_len (hist p) \<le> max 1 (max_tracked_identities (config p))"
  shows "hist_wf (hist (snd (evaluate p now a ctx)))
    \<and> hist_len (hist (snd (evaluate p now a ctx))) \<le> max 1 (max_tracked_identities (config p))"
  using assms prepare_wf prepare_len
  by (auto simp: evaluate_defs Let_def record_wf hist_len_tracked)

lemma run_evaluate_snoc:
  "run_evaluate p (rs @ [(now, a, ctx)]) =
     (fst (run_evaluate p rs) @ [fst (evaluate (snd (run_evaluate p rs)) now a ctx)],
      snd (evaluate (snd (run_evaluate p rs)) now a ctx))"
  by (induction p rs rule: run_evaluate.induct) (auto split: prod.splits)

lemma length_run_evaluate: "length (fst (run_evaluate p rs)) = length rs"
  by (induction p rs rule: run_evaluate.induct) (auto split: prod.splits)

text \<open>The interface of policies, provided by the threshold policy: the history stays well formed and
  within its bound.\<close>

definition policy_inv :: "'s threshold_policy \<Rightarrow> bool" where
  "policy_inv p \<longleftrightarrow> hist_wf (hist p) \<and> hist_len (hist p) \<le> max 1 (max_tracked_identities (config p))"

interpretation threshold_policy: policy_interface evaluate policy_inv
  by unfold_locales (use evaluate_wf in \<open>auto simp: policy_inv_def\<close>)

end
