(* ===== verification/Threshold_Budget.thy ===== *)
theory Threshold_Budget
  imports Threshold
begin

text \<open>
  The budget of the threshold policy. \<open>evaluate\<close> is related to the admission log of the
  specification by a simulation: of each key the log ends with the window the policy holds, and what
  the policy has dropped is older than the window. The simulation gives the refinement (same
  decisions) and, with the budget of the specification, the bound on what any window of time can
  admit. It needs that nothing is evicted, which holds while the keys of a run fit into
  \<open>max_tracked_identities\<close>, and always holds for a policy of global scope.
\<close>

subsection \<open>The specification keeps its budget\<close>

definition log_budget :: "threshold_config \<Rightarrow> admission_log \<Rightarrow> bool" where
  "log_budget c log \<longleftrightarrow>
     (\<forall>k t. length (filter (in_window (window c) t) (log_of log k)) \<le> max_per_window c)"

definition log_upto :: "instant \<Rightarrow> admission_log \<Rightarrow> bool" where
  "log_upto T log \<longleftrightarrow> (\<forall>e \<in> set log. snd e \<le> T)"

lemma log_of_append_replicate:
  "log_of (log @ replicate n (k, now)) k' = log_of log k' @ (if k' = k then replicate n now else [])"
  by (auto simp: log_of_def)

lemma filter_len_mono: "\<forall>x \<in> set xs. P x \<longrightarrow> Q x \<Longrightarrow> length (filter P xs) \<le> length (filter Q xs)"
  by (induction xs) auto

lemma log_of_upto: "log_upto T log \<Longrightarrow> u \<in> set (log_of log k) \<Longrightarrow> u \<le> T"
  by (auto simp: log_upto_def log_of_def)

text \<open>A window that ends later than the last admission holds no more than the window that ends at
  it.\<close>

lemma spec_step_budget:
  assumes "log_budget c log" "log_upto T log" "T \<le> now"
    and step: "spec_step c log (now, a, ctx) = (b, log')"
  shows "log_budget c log' \<and> log_upto now log'"
proof (cases "log' = log")
  case True
  with assms show ?thesis by (fastforce simp: log_upto_def)
next
  case False
  let ?k = "history_key c ctx" and ?n = "blast_radius a"
  let ?in = "in_window (window c)"
  from False step have log': "log' = log @ replicate ?n (?k, now)"
    and lim: "length (filter (?in now) (log_of log ?k)) + ?n \<le> max_per_window c"
    by (auto simp: spec_step_def split: if_splits)
  have "length (filter (?in t) (log_of log' k)) \<le> max_per_window c" for k t
  proof (cases "k = ?k \<and> ?in t now")
    case False
    then have "filter (?in t) (log_of log' k) = filter (?in t) (log_of log k)"
      by (auto simp: log' log_of_append_replicate)
    with assms(1) show ?thesis by (simp add: log_budget_def)
  next
    case True
    then have "length (filter (?in t) (log_of log ?k)) \<le> length (filter (?in now) (log_of log ?k))"
      using assms(2,3) by (intro filter_len_mono) (auto simp: in_window_def dest: log_of_upto)
    with True lim show ?thesis by (auto simp: log' log_of_append_replicate)
  qed
  moreover have "log_upto now log'"
    using assms(2,3) by (fastforce simp: log' log_upto_def)
  ultimately show ?thesis by (simp add: log_budget_def)
qed

subsection \<open>The simulation\<close>

definition sim :: "threshold_config \<Rightarrow> history \<Rightarrow> admission_log \<Rightarrow> instant \<Rightarrow> bool" where
  "sim c h log T \<longleftrightarrow> hist_wf h \<and> log_upto T log
     \<and> (\<forall>k. sorted (log_of log k)
          \<and> (\<exists>us. log_of log k = us @ window_of h k \<and> (\<forall>u \<in> set us. T - u > int (window c))))"

lemma sim_empty: "sim c empty_history [] T"
  by (simp add: sim_def log_upto_def log_of_def)

lemma sim_wf: "sim c h log T \<Longrightarrow> hist_wf h"
  by (simp add: sim_def)

lemma simE:
  assumes "sim c h log T"
  obtains us where "log_of log k = us @ window_of h k" "\<forall>u \<in> set us. T - u > int (window c)"
    "sorted (log_of log k)" "log_upto T log"
proof -
  from assms have "sorted (log_of log k)" "log_upto T log"
    "\<exists>us. log_of log k = us @ window_of h k \<and> (\<forall>u \<in> set us. T - u > int (window c))"
    unfolding sim_def by blast+
  with that show thesis by blast
qed

lemma sim_mono:
  assumes "sim c h log T" "T \<le> now"
  shows "sim c h log now"
proof -
  have "sorted (log_of log k) \<and> (\<exists>us. log_of log k = us @ window_of h k \<and> (\<forall>u \<in> set us. now - u > int (window c)))"
    for k
    using assms(1) by (rule simE [where k = k]) (use assms(2) in fastforce)
  with assms show ?thesis by (fastforce simp: sim_def log_upto_def)
qed

text \<open>The pruned window of a key is exactly what the log holds of it inside the window.\<close>

lemma sim_pruned:
  assumes "sim c h log T" "T \<le> now"
  shows "drop_stale now (window c) (window_of h k) = filter (in_window (window c) now) (log_of log k)"
    and "\<exists>us. log_of log k = us @ drop_stale now (window c) (window_of h k)
             \<and> (\<forall>u \<in> set us. now - u > int (window c))"
proof -
  from assms(1) obtain us where us: "log_of log k = us @ window_of h k"
    "\<forall>u \<in> set us. T - u > int (window c)" and so: "sorted (log_of log k)" and up: "log_upto T log"
    by (rule simE)
  from us so have sw: "sorted (window_of h k)" by (simp add: sorted_append)
  have "filter (in_window (window c) now) us = []"
    using us(2) assms(2) by (auto simp: filter_empty_conv in_window_def)
  moreover have "filter (in_window (window c) now) (window_of h k)
      = filter (\<lambda>t. duration_since now t \<le> window c) (window_of h k)"
  proof (intro filter_cong refl)
    fix x assume "x \<in> set (window_of h k)"
    with us(1) log_of_upto [OF up, of x k] assms(2) have "x \<le> now" by auto
    then show "in_window (window c) now x \<longleftrightarrow> duration_since now x \<le> window c"
      by (auto simp: in_window_def time_simps)
  qed
  ultimately show "drop_stale now (window c) (window_of h k)
      = filter (in_window (window c) now) (log_of log k)"
    using sw us(1) by (simp add: drop_stale_sorted)
  obtain vs where vs: "window_of h k = vs @ drop_stale now (window c) (window_of h k)"
    "\<forall>t \<in> set vs. duration_since now t > window c"
    using drop_stale_suffix by blast
  show "\<exists>us. log_of log k = us @ drop_stale now (window c) (window_of h k)
             \<and> (\<forall>u \<in> set us. now - u > int (window c))"
  proof (intro exI conjI ballI)
    show "log_of log k = (us @ vs) @ drop_stale now (window c) (window_of h k)" using us vs by simp
    show "now - u > int (window c)" if "u \<in> set (us @ vs)" for u
      using that us(2) vs(2) assms(2) by (fastforce simp: time_simps)
  qed
qed

definition room_for :: "threshold_config \<Rightarrow> identity \<Rightarrow> history \<Rightarrow> bool" where
  "room_for c k h \<longleftrightarrow> k \<in> tracked h \<or> hist_len h \<le> max_tracked_identities c - 1"

text \<open>Preparing the history for a request keeps the simulation.\<close>

lemma sim_prepare:
  assumes "sim c h log T" "T \<le> now" "room_for c k h"
  shows "sim c (prepare_history c k now h) log now"
    and "window_len (prepare_history c k now h) k
           = length (filter (in_window (window c) now) (log_of log k))"
proof -
  let ?h = "prepare_history c k now h"
  have wf: "hist_wf ?h" using sim_wf [OF assms(1)] by (rule prepare_wf)
  have h: "?h = prune_stale k now (window c) (ensure k h)"
    using assms(3) prepare_no_eviction by (simp add: room_for_def)
  have "\<exists>us. log_of log k' = us @ window_of ?h k' \<and> (\<forall>u \<in> set us. now - u > int (window c))" for k'
  proof (cases "k' = k")
    case True
    with sim_pruned(2) [OF assms(1,2), of k] show ?thesis by (simp add: h)
  next
    case False
    from assms(1) obtain us where "log_of log k' = us @ window_of h k'"
      "\<forall>u \<in> set us. T - u > int (window c)" by (rule simE)
    with False assms(2) show ?thesis by (intro exI [of _ us]) (auto simp: h)
  qed
  with assms(1,2) wf show "sim c ?h log now"
    by (fastforce simp: sim_def log_upto_def)
  show "window_len ?h k = length (filter (in_window (window c) now) (log_of log k))"
    using sim_pruned(1) [OF assms(1,2), of k] by (simp add: window_len_window_of window_of_prepare_key)
qed

lemma sim_record:
  assumes "sim c h log now" "k \<in> tracked h"
  shows "sim c (record_admitted k now n h) (log @ replicate n (k, now)) now"
proof -
  have "sorted (log_of (log @ replicate n (k, now)) k')
      \<and> (\<exists>us. log_of (log @ replicate n (k, now)) k' = us @ window_of (record_admitted k now n h) k'
            \<and> (\<forall>u \<in> set us. now - u > int (window c)))" for k'
  proof -
    from assms(1) obtain us where "log_of log k' = us @ window_of h k'"
      "\<forall>u \<in> set us. now - u > int (window c)" "sorted (log_of log k')" "log_upto now log"
      by (rule simE)
    then show ?thesis
      using assms(2) log_of_upto [OF \<open>log_upto now log\<close>, of _ k']
      by (intro conjI exI [of _ us])
        (auto simp: log_of_append_replicate window_of_record sorted_append sorted_replicate)
  qed
  moreover have "log_upto now (log @ replicate n (k, now))"
    using assms(1) by (auto simp: sim_def log_upto_def)
  ultimately show ?thesis using assms(1) by (simp add: sim_def record_wf)
qed

text \<open>No overflow: the sum the code compares with the window limit is exact.\<close>

definition no_overflow :: "threshold_config \<Rightarrow> action \<Rightarrow> bool" where
  "no_overflow c a \<longleftrightarrow> max_per_window c + blast_radius a < 2 ^ 64"

lemma sim_evaluate:
  assumes "sim c (hist p) log T" "T \<le> now" "config p = c"
    and "policed c a \<longrightarrow> room_for c (history_key c ctx) (hist p)" "no_overflow c a" "log_budget c log"
    and ev: "evaluate p now a ctx = (d, p')" and sp: "spec_step c log (now, a, ctx) = (b, log')"
  shows "(d = Allow \<longleftrightarrow> b) \<and> sim c (hist p') log' now"
proof -
  let ?k = "history_key c ctx" and ?n = "blast_radius a"
  have keep: "sim c (hist p) log now" using assms(1,2) by (rule sim_mono)
  show ?thesis
  proof (cases "policed c a \<and> ?n \<le> max_per_request c")
    case False
    with ev sp assms(3) keep show ?thesis
      by (auto simp: evaluate_defs spec_step_def Let_def split: if_splits)
  next
    case True
    let ?h = "prepare_history c ?k now (hist p)"
    let ?w = "length (filter (in_window (window c) now) (log_of log ?k))"
    note prep = sim_prepare [OF assms(1,2), of ?k]
    from True assms(4) have room: "room_for c ?k (hist p)" by blast
    have "?w \<le> max_per_window c" using assms(6) by (simp add: log_budget_def)
    with assms(5) have ex: "usize_add ?w ?n = ?w + ?n"
      by (intro usize_add_exact) (simp add: no_overflow_def)
    show ?thesis
    proof (cases "?w + ?n \<le> max_per_window c")
      case False
      with True ev sp assms(3) ex prep(1) [OF room] prep(2) [OF room] show ?thesis
        by (auto simp: evaluate_defs spec_step_def Let_def)
    next
      case fits: True
      with True ev sp assms(3) ex prep(2) [OF room] have
        "d = Allow" "b" "log' = log @ replicate ?n (?k, now)"
        "hist p' = record_admitted ?k now ?n ?h"
        by (auto simp: evaluate_defs spec_step_def Let_def)
      with sim_record [OF prep(1) [OF room] tracked_prepare] show ?thesis by simp
    qed
  qed
qed

subsection \<open>Runs\<close>

definition run_keys :: "threshold_config \<Rightarrow> request list \<Rightarrow> identity set" where
  "run_keys c rs = (\<lambda>(now, a, ctx). history_key c ctx) ` set (filter (\<lambda>(now, a, ctx). policed c a) rs)"

definition keys_fit :: "threshold_config \<Rightarrow> identity set \<Rightarrow> bool" where
  "keys_fit c K \<longleftrightarrow> card K \<le> max 1 (max_tracked_identities c)"

definition times_from :: "instant \<Rightarrow> request list \<Rightarrow> bool" where
  "times_from T rs \<longleftrightarrow> sorted (T # map fst rs)"

lemma finite_run_keys: "finite (run_keys c rs)"
  by (simp add: run_keys_def)

lemma room_for_keys:
  assumes "hist_wf h" "tracked h \<subseteq> K" "k \<in> K" "keys_fit c K" "finite K"
  shows "room_for c k h"
proof (cases "k \<in> tracked h")
  case False
  then have "tracked h \<subseteq> K - {k}" using assms(2) by blast
  then have "card (tracked h) \<le> card K - 1"
    using assms(3,5) by (metis card_Diff_singleton card_mono finite_Diff)
  with assms(1,4) show ?thesis by (auto simp: room_for_def keys_fit_def hist_len_tracked)
qed (simp add: room_for_def)

lemma tracked_evaluate:
  "tracked (hist (snd (evaluate p now a ctx)))
     \<subseteq> tracked (hist p) \<union> (if policed (config p) a then {history_key (config p) ctx} else {})"
  using evict_tracked_subset
  by (fastforce simp: evaluate_defs prepare_history_def Let_def split: if_splits)

lemma sim_run:
  assumes "sim c (hist p) log T" "log_budget c log" "config p = c"
    and "times_from T rs" "tracked (hist p) \<subseteq> K" "run_keys c rs \<subseteq> K" "keys_fit c K" "finite K"
    and "\<forall>(now, a, ctx) \<in> set rs. no_overflow c a"
    and "run_evaluate p rs = (ds, p')" "spec_run c log rs = (bs, log')"
  shows "map (\<lambda>d. d = Allow) ds = bs \<and> log_budget c log'
       \<and> (\<forall>k. log_of log' k = log_of log k @ charges c k rs ds)"
  using assms
proof (induction rs arbitrary: p log T ds bs)
  case Nil
  then show ?case by auto
next
  case (Cons r rs)
  obtain now a ctx where r: "r = (now, a, ctx)" by (cases r)
  obtain d p1 where ev: "evaluate p now a ctx = (d, p1)" by (cases "evaluate p now a ctx")
  obtain ds1 where run: "run_evaluate p1 rs = (ds1, p')" and ds: "ds = d # ds1"
    using Cons.prems(10) r ev by (auto split: prod.splits)
  obtain b log1 where sp: "spec_step c log (now, a, ctx) = (b, log1)" by (cases "spec_step c log (now, a, ctx)")
  obtain bs1 where srun: "spec_run c log1 rs = (bs1, log')" and bs: "bs = b # bs1"
    using Cons.prems(11) r sp by (auto split: prod.splits)
  have now: "T \<le> now" and later: "times_from now rs"
    using Cons.prems(4) by (simp_all add: times_from_def r)
  have key: "policed c a \<longrightarrow> history_key c ctx \<in> K"
    using Cons.prems(6) by (auto simp: run_keys_def r)
  have room: "policed c a \<longrightarrow> room_for c (history_key c ctx) (hist p)"
    using key room_for_keys [OF sim_wf [OF Cons.prems(1)] Cons.prems(5) _ Cons.prems(7,8)] by blast
  have nov: "no_overflow c a" using Cons.prems(9) r by auto
  from sim_evaluate [OF Cons.prems(1) now Cons.prems(3) room nov Cons.prems(2) ev sp]
  have d: "d = Allow \<longleftrightarrow> b" and sim1: "sim c (hist p1) log1 now" by auto
  have bud: "log_budget c log1"
    using spec_step_budget [OF Cons.prems(2) _ now sp] Cons.prems(1) by (simp add: sim_def)
  have tr: "tracked (hist p1) \<subseteq> K"
    using tracked_evaluate [of p now a ctx] key Cons.prems(3,5) ev by (auto split: if_splits)
  have cfg: "config p1 = c" using evaluate_config [of p now a ctx] ev Cons.prems(3) by simp
  have keys: "run_keys c rs \<subseteq> K" using Cons.prems(6) by (auto simp: run_keys_def split: if_splits)
  have novs: "\<forall>(now, a, ctx) \<in> set rs. no_overflow c a" using Cons.prems(9) by auto
  from Cons.IH [OF sim1 bud cfg later tr keys Cons.prems(7,8) novs run srun]
  have IH: "map (\<lambda>d. d = Allow) ds1 = bs1" "log_budget c log'"
    "\<forall>k. log_of log' k = log_of log1 k @ charges c k rs ds1" by auto
  have "log_of log1 k = log_of log k @ charges c k [r] [d]" for k
    using sp d by (auto simp: r spec_step_def log_of_append_replicate split: if_splits)
  with IH d ds bs r show ?case by simp
qed

text \<open>A fresh policy, as \<open>ThresholdPolicy::new\<close> builds it when no history is loaded.\<close>

definition fresh :: "threshold_config \<Rightarrow> 's threshold_policy \<Rightarrow> bool" where
  "fresh c p \<longleftrightarrow> config p = c \<and> hist p = empty_history"

lemma fresh_run:
  assumes "fresh c p" "sorted (map fst rs)" "keys_fit c (run_keys c rs)"
    and "\<forall>(now, a, ctx) \<in> set rs. no_overflow c a"
  shows "map (\<lambda>d. d = Allow) (fst (run_evaluate p rs)) = fst (spec_run c [] rs)
       \<and> log_budget c (snd (spec_run c [] rs))
       \<and> (\<forall>k. log_of (snd (spec_run c [] rs)) k = charges c k rs (fst (run_evaluate p rs)))"
proof -
  define T where "T = (case rs of [] \<Rightarrow> 0 | r # _ \<Rightarrow> fst r)"
  have "times_from T rs" using assms(2) by (cases rs) (auto simp: times_from_def T_def)
  moreover have "log_budget c []" by (simp add: log_budget_def log_of_def)
  ultimately show ?thesis
    using sim_run [of c p "[]" T rs "run_keys c rs" "fst (run_evaluate p rs)" "snd (run_evaluate p rs)"
        "fst (spec_run c [] rs)" "snd (spec_run c [] rs)"] assms sim_empty
    by (simp add: fresh_def log_of_def finite_run_keys)
qed

lemma run_keys_global: "scope c = Global \<Longrightarrow> run_keys c rs \<subseteq> {Identity GLOBAL_HISTORY_KEY}"
  by (auto simp: run_keys_def history_key_def)

lemma keys_fit_global: "scope c = Global \<Longrightarrow> keys_fit c (run_keys c rs)"
  using card_mono [OF _ run_keys_global [of c rs]]
  by (simp add: keys_fit_def le_max_iff_disj)

text \<open>The total blast radius of the allowed actions of a run inside the window that ends at \<open>t\<close>,
  whoever asked for them.\<close>

fun admitted_radius :: "threshold_config \<Rightarrow> instant \<Rightarrow> request list \<Rightarrow> decision list \<Rightarrow> nat" where
  "admitted_radius c t ((now, a, ctx) # rs) (d # ds) =
     (if d = Allow \<and> policed c a \<and> in_window (window c) t now then blast_radius a else 0)
       + admitted_radius c t rs ds"
| "admitted_radius c t _ _ = 0"

lemma admitted_radius_global:
  assumes "scope c = Global"
  shows "admitted_radius c t rs ds
    = length (filter (in_window (window c) t) (charges c (Identity GLOBAL_HISTORY_KEY) rs ds))"
  using assms
  by (induction c t rs ds rule: admitted_radius.induct) (auto simp: history_key_def)

lemma run_policy_inv: "policy_inv p \<Longrightarrow> policy_inv (snd (run_evaluate p rs)) \<and> config (snd (run_evaluate p rs)) = config p"
proof (induction rs arbitrary: p)
  case Nil
  then show ?case by simp
next
  case (Cons r rs)
  obtain now a ctx where r: "r = (now, a, ctx)" by (cases r)
  let ?p = "snd (evaluate p now a ctx)"
  have "policy_inv ?p" using Cons.prems by (rule threshold_policy.inv_evaluate)
  with Cons.IH [of ?p] show ?case by (auto simp: r split: prod.splits)
qed

subsection \<open>The index does not stay exact\<close>

text \<open>A key that comes back after its whole window has aged out: pruning empties the window, the
  index entry of the old activity is not found under the emptied window's key, and stays.\<close>

definition lone_key :: "identity \<Rightarrow> instant \<Rightarrow> history \<Rightarrow> bool" where
  "lone_key k t h \<longleftrightarrow> by_identity h = [(k, [t])] \<and> distinct (by_activity h)
     \<and> (\<forall>e \<in> set (by_activity h). \<exists>u \<le> t. e = (Some u, k))"

lemma stale_entry_stays:
  assumes "lone_key k t h" "now - t > int (window c)" "k = history_key c ctx" "hist p = h" "config p = c"
    and "policed c a" "blast_radius a = 1" "1 \<le> max_per_request c" "1 \<le> max_per_window c"
  shows "\<exists>p'. evaluate p now a ctx = (Allow, p') \<and> config p' = c \<and> lone_key k now (hist p')
            \<and> length (by_activity (hist p')) = Suc (length (by_activity h))"
proof -
  let ?h1 = "prepare_history c k now h"
  let ?h2 = "record_admitted k now 1 ?h1"
  have m: "map_of (by_identity h) k = Some [t]" using assms(1) by (simp add: lone_key_def)
  have h1: "?h1 = h\<lparr>by_identity := [(k, [])]\<rparr>"
    using assms(1,2) m
    by (simp add: prepare_history_def Let_def contains_key_def ensure_def prune_stale_def time_simps lone_key_def)
  have fresh_now: "(Some now, k) \<notin> set (by_activity h)" "(None, k) \<notin> set (by_activity h)"
    using assms(1,2) by (fastforce simp: lone_key_def)+
  have h2: "by_identity ?h2 = [(k, [now])]" "by_activity ?h2 = bt_insert (Some now, k) (by_activity h)"
    using fresh_now by (simp_all add: h1 record_admitted_def Let_def activity_key_def bt_remove_def remove1_idem)
  have len: "length (by_activity ?h2) = Suc (length (by_activity h))"
    using fresh_now unfolding h2(2) by (simp add: bt_insert_def)
  have "lone_key k now ?h2"
    using assms(1,2) h2 fresh_now
    by (fastforce simp: lone_key_def bt_insert_def distinct_insort set_insort_key)
  moreover have "evaluate p now a ctx = (Allow, p\<lparr>hist := ?h2, state := push_pending k now 1 (state p)\<rparr>)"
  proof -
    have "window_len (prepare_history c (history_key c ctx) now h) (history_key c ctx) = 0"
      using h1 assms(3) by (simp add: window_len_def)
    with assms(3-9) show ?thesis by (simp add: evaluate_defs Let_def usize_add_def)
  qed
  ultimately show ?thesis using assms(5) len by simp
qed

definition idle_requests :: "threshold_config \<Rightarrow> action \<Rightarrow> policy_context \<Rightarrow> instant \<Rightarrow> nat \<Rightarrow> request list" where
  "idle_requests c a ctx t n = map (\<lambda>i. (t + int (Suc i) * (int (window c) + 1), a, ctx)) [0..<n]"

lemma idle_requests_Suc:
  "idle_requests c a ctx t (Suc n) =
     (t + int (window c) + 1, a, ctx) # idle_requests c a ctx (t + int (window c) + 1) n"
proof -
  have "[0..<Suc n] = 0 # map Suc [0..<n]" by (simp add: upt_conv_Cons map_Suc_upt)
  then show ?thesis by (simp add: idle_requests_def algebra_simps)
qed

lemma stale_entries_grow:
  assumes "lone_key (history_key c ctx) t (hist p)" "config p = c"
    and "policed c a" "blast_radius a = 1" "1 \<le> max_per_request c" "1 \<le> max_per_window c"
  shows "length (by_activity (hist (snd (run_evaluate p (idle_requests c a ctx t n)))))
      = length (by_activity (hist p)) + n
    \<and> hist_len (hist (snd (run_evaluate p (idle_requests c a ctx t n)))) = 1"
  using assms
proof (induction n arbitrary: p t)
  case 0
  then show ?case by (simp add: idle_requests_def hist_len_def lone_key_def)
next
  case (Suc n)
  let ?now = "t + int (window c) + 1"
  from stale_entry_stays [OF Suc.prems(1) _ refl refl Suc.prems(2-6), of ?now] obtain p'
    where p': "evaluate p ?now a ctx = (Allow, p')" "config p' = c"
      "lone_key (history_key c ctx) ?now (hist p')"
      "length (by_activity (hist p')) = Suc (length (by_activity (hist p)))" by auto
  from Suc.IH [OF p'(3,2) Suc.prems(3-6)] p' show ?case
    by (auto simp: idle_requests_Suc split: prod.splits)
qed

lemma first_request_lone:
  assumes "fresh c p" "policed c a" "blast_radius a = 1" "1 \<le> max_per_request c" "1 \<le> max_per_window c"
  shows "\<exists>p'. evaluate p t a ctx = (Allow, p') \<and> config p' = c
            \<and> lone_key (history_key c ctx) t (hist p') \<and> length (by_activity (hist p')) = 1"
  using assms
  by (simp add: evaluate_defs Let_def fresh_def prepare_history_def contains_key_def evict_noop
      ensure_def prune_stale_def empty_history_def window_len_def usize_add_def record_admitted_def
      activity_key_def bt_insert_def bt_remove_def lone_key_def hist_len_def)

text \<open>Windows only shrink when an action is blocked: what is left of each is a tail of what was.\<close>

lemma prepare_window_tail: "\<exists>us. window_of h k' = us @ window_of (prepare_history c k now h) k'"
proof (cases "k' = k")
  case True
  with drop_stale_suffix [of "window_of h k" now "window c"] show ?thesis
    by (auto simp: window_of_prepare_key)
next
  case False
  let ?e = "if \<not> contains_key h k then evict_stalest_until (max_tracked_identities c - 1) h else h"
  have "window_of (prepare_history c k now h) k' = window_of ?e k'"
    using False by (simp add: prepare_history_def Let_def)
  moreover have "window_of ?e k' = window_of h k' \<or> window_of ?e k' = []"
    using evict_window_of [of k' "max_tracked_identities c - 1" h]
      window_of_untracked [of k' "evict_stalest_until (max_tracked_identities c - 1) h"] by auto
  ultimately show ?thesis by auto
qed

subsection \<open>Concrete policies for the witnesses\<close>

definition demo_config :: "threshold_scope \<Rightarrow> nat \<Rightarrow> nat \<Rightarrow> threshold_config" where
  "demo_config s limit cap =
     \<lparr>max_per_request = 3, max_per_window = limit, scope = s, window = from_secs 60, state_db = None,
      flush_interval = default_flush_interval, max_tracked_identities = cap, operations = None\<rparr>"

definition demo_policy :: "threshold_config \<Rightarrow> unit threshold_policy" where
  "demo_policy c = \<lparr>config = c, hist = empty_history, state = None\<rparr>"

definition demo_lock :: action where
  "demo_lock = \<lparr>backend = ''ldap'', operation = AccountLock, target = ''cn=a'', blast_radius = 1\<rparr>"

definition demo_request :: "nat \<Rightarrow> string \<Rightarrow> request" where
  "demo_request secs name = (int (from_secs secs), demo_lock, \<lparr>ctx_identity = Identity name\<rparr>)"

definition demo_run :: "request list" where
  "demo_run = [demo_request 1 ''a'', demo_request 2 ''b'', demo_request 3 ''a'', demo_request 70 ''a'']"

subsection \<open>Properties\<close>

text \<open>C1 Refinement of the sliding-window specification, while nothing has to be evicted: from an empty
  history, over any sequence of requests in clock order whose distinct history keys are at most
  \<open>max_tracked_identities\<close> (or whose scope is global, with the one key), and limits whose sum with the
  blast radius does not overflow, the policy takes exactly the decisions of the specification, which
  keeps the full log of admissions and blocks an action when and only when it would take the per-request or
  the window limit over. Beyond that many keys an evicted identity starts afresh.\<close>

theorem threshold_refines_spec:
  assumes "fresh c p" "sorted (map fst rs)" "keys_fit c (run_keys c rs)"
    and "\<forall>(now, a, ctx) \<in> set rs. no_overflow c a"
  shows "map (\<lambda>d. d = Allow) (fst (run_evaluate p rs)) = fst (spec_run c [] rs)"
  using fresh_run [OF assms] by blast

theorem threshold_refines_spec_witness:
  "map (\<lambda>d. d = Allow) (fst (run_evaluate (demo_policy (demo_config PerIdentity 1 5)) demo_run))
     = fst (spec_run (demo_config PerIdentity 1 5) [] demo_run)
   \<and> fst (spec_run (demo_config PerIdentity 1 5) [] demo_run) = [True, True, False, True]"
proof -
  have "fresh (demo_config PerIdentity 1 5) (demo_policy (demo_config PerIdentity 1 5))" by code_simp
  moreover have "sorted (map fst demo_run)" by code_simp
  moreover have "keys_fit (demo_config PerIdentity 1 5) (run_keys (demo_config PerIdentity 1 5) demo_run)" by code_simp
  moreover have "\<forall>(now, a, ctx) \<in> set demo_run. no_overflow (demo_config PerIdentity 1 5) a" by code_simp
  moreover have "fst (spec_run (demo_config PerIdentity 1 5) [] demo_run) = [True, True, False, True]" by code_simp
  ultimately show ?thesis using threshold_refines_spec by blast
qed

text \<open>The window budget: over any such run, in which the keys fit and nothing is evicted, no window of time of
  the configured length ever holds more than \<open>max_per_window\<close> units of blast radius admitted for one key.\<close>

theorem threshold_window_budget:
  assumes "fresh c p" "sorted (map fst rs)" "keys_fit c (run_keys c rs)"
    and "\<forall>(now, a, ctx) \<in> set rs. no_overflow c a"
  shows "length (filter (in_window (window c) t) (charges c k rs (fst (run_evaluate p rs)))) \<le> max_per_window c"
  using fresh_run [OF assms] by (metis log_budget_def)

theorem threshold_window_budget_witness:
  "length (filter (in_window (from_secs 60) (int (from_secs 61)))
     (charges (demo_config PerIdentity 2 5) (Identity ''a'') demo_run
        (fst (run_evaluate (demo_policy (demo_config PerIdentity 2 5)) demo_run)))) \<le> 2"
proof -
  have "fresh (demo_config PerIdentity 2 5) (demo_policy (demo_config PerIdentity 2 5))"
    and "sorted (map fst demo_run)"
    and "keys_fit (demo_config PerIdentity 2 5) (run_keys (demo_config PerIdentity 2 5) demo_run)"
    and "\<forall>(now, a, ctx) \<in> set demo_run. no_overflow (demo_config PerIdentity 2 5) a" by code_simp+
  from threshold_window_budget [OF this] show ?thesis by (simp add: demo_config_def)
qed

text \<open>The global budget: under \<open>ThresholdScope::Global\<close> the total blast radius of everything
  admitted inside any window of time is within \<open>max_per_window\<close>, however many identities the
  requests claim and whatever \<open>max_tracked_identities\<close> is.\<close>

theorem threshold_global_budget:
  assumes "scope c = Global" "fresh c p" "sorted (map fst rs)"
    and "\<forall>(now, a, ctx) \<in> set rs. no_overflow c a"
  shows "admitted_radius c t rs (fst (run_evaluate p rs)) \<le> max_per_window c"
  using fresh_run [OF assms(2,3) keys_fit_global [OF assms(1)] assms(4)]
  by (metis admitted_radius_global [OF assms(1)] log_budget_def)

theorem threshold_global_budget_witness:
  "admitted_radius (demo_config Global 2 0) (int (from_secs 61)) demo_run
     (fst (run_evaluate (demo_policy (demo_config Global 2 0)) demo_run)) \<le> 2
   \<and> fst (run_evaluate (demo_policy (demo_config Global 2 0)) demo_run)
     = [Allow, Allow, Block ''2 matching actions across all identities in the last 60s would exceed window limit 2'', Allow]"
proof -
  have "scope (demo_config Global 2 0) = Global" "fresh (demo_config Global 2 0) (demo_policy (demo_config Global 2 0))"
    and "sorted (map fst demo_run)" "\<forall>(now, a, ctx) \<in> set demo_run. no_overflow (demo_config Global 2 0) a"
    by code_simp+
  note budget = threshold_global_budget [OF this, of "int (from_secs 61)"]
  have "fst (run_evaluate (demo_policy (demo_config Global 2 0)) demo_run)
     = [Allow, Allow, Block ''2 matching actions across all identities in the last 60s would exceed window limit 2'', Allow]"
    by code_simp
  with budget show ?thesis by (simp add: demo_config_def)
qed

text \<open>Bounded identity map: however many distinct identities a caller goes through, and whether
  their actions are admitted or blocked, the history tracks at most \<open>max_tracked_identities\<close> of them
  (one, when that is configured as zero).\<close>

theorem threshold_memory_bound:
  assumes "fresh c p"
  shows "hist_len (hist (snd (run_evaluate p rs))) \<le> max 1 (max_tracked_identities c)"
  using run_policy_inv [of p rs] assms by (auto simp: policy_inv_def fresh_def)

theorem threshold_memory_bound_witness:
  "hist_len (hist (snd (run_evaluate (demo_policy (demo_config PerIdentity 5 1)) demo_run))) \<le> 1"
  using threshold_memory_bound [of "demo_config PerIdentity 5 1" "demo_policy (demo_config PerIdentity 5 1)" demo_run]
  by (simp add: fresh_def demo_policy_def demo_config_def)

text \<open>C32 A blocked action costs nothing: the decision carries one of the two documented reasons, no
  window gains an entry (each is a tail of what it was), and nothing is queued for the state store.\<close>

theorem blocked_action_charges_nothing:
  assumes "evaluate p now a ctx = (Block r, p')"
  shows "(r = request_reason (blast_radius a) (max_per_request (config p))
          \<or> (\<exists>n. r = window_reason n (config p)))
       \<and> state p' = state p
       \<and> (\<forall>k. \<exists>us. window_of (hist p) k = us @ window_of (hist p') k)"
proof -
  from assms have "p' = p \<or> p' = p\<lparr>hist := prepare_history (config p) (history_key (config p) ctx) now (hist p)\<rparr>"
    by (auto simp: evaluate_defs Let_def split: if_splits)
  then have "\<exists>us. window_of (hist p) k = us @ window_of (hist p') k" for k
    using prepare_window_tail by auto
  moreover from assms have "state p' = state p"
    and "r = request_reason (blast_radius a) (max_per_request (config p)) \<or> (\<exists>n. r = window_reason n (config p))"
    by (auto simp: evaluate_defs Let_def split: if_splits)
  ultimately show ?thesis by blast
qed

theorem blocked_action_charges_nothing_witness:
  "\<exists>r p'. evaluate (demo_policy (demo_config Global 0 5)) 7 demo_lock \<lparr>ctx_identity = Identity ''a''\<rparr> = (Block r, p')
     \<and> state p' = None \<and> (\<forall>k. \<exists>us. [] = us @ window_of (hist p') k)"
proof -
  let ?p = "demo_policy (demo_config Global 0 5)" and ?ctx = "\<lparr>ctx_identity = Identity ''a''\<rparr>"
  have "fst (evaluate ?p 7 demo_lock ?ctx)
      = Block ''0 matching actions across all identities in the last 60s would exceed window limit 0''" by code_simp
  then obtain r p' where e: "evaluate ?p 7 demo_lock ?ctx = (Block r, p')" by (metis prod.collapse)
  from blocked_action_charges_nothing [OF e] e show ?thesis by (auto simp: demo_policy_def)
qed

text \<open>The activity index leaks: an identity that acts once, waits until its whole window has aged
  out, and acts again leaves a stale entry behind each time. After \<open>n\<close> such rounds of one single
  identity the map has one entry and the index has \<open>n + 1\<close>. (The comment on \<open>prune_stale\<close> says that
  pruning never changes the last activity; it does when it empties the window.)\<close>

theorem activity_index_leaks:
  assumes "fresh c p" "policed c a" "blast_radius a = 1" "1 \<le> max_per_request c" "1 \<le> max_per_window c"
  shows "hist_len (hist (snd (run_evaluate p ((t, a, ctx) # idle_requests c a ctx t n)))) = 1
       \<and> length (by_activity (hist (snd (run_evaluate p ((t, a, ctx) # idle_requests c a ctx t n))))) = n + 1"
proof -
  obtain p' where p': "evaluate p t a ctx = (Allow, p')" "config p' = c"
    "lone_key (history_key c ctx) t (hist p')" "length (by_activity (hist p')) = 1"
    using first_request_lone [OF assms] by blast
  with stale_entries_grow [OF p'(3,2) assms(2-5), of n] show ?thesis by (auto split: prod.splits)
qed

theorem activity_index_leaks_witness:
  "length (by_activity (hist (snd (run_evaluate (demo_policy (demo_config PerIdentity 2 5))
     ((0, demo_lock, \<lparr>ctx_identity = Identity ''a''\<rparr>)
       # idle_requests (demo_config PerIdentity 2 5) demo_lock \<lparr>ctx_identity = Identity ''a''\<rparr> 0 100))))) = 101"
  using activity_index_leaks [of "demo_config PerIdentity 2 5" "demo_policy (demo_config PerIdentity 2 5)" demo_lock
      0 "\<lparr>ctx_identity = Identity ''a''\<rparr>" 100]
  by (simp add: fresh_def demo_policy_def demo_config_def demo_lock_def policed_def)

definition misdirected_run :: "request list" where
  "misdirected_run = [demo_request 0 ''a'', demo_request 50 ''b'', demo_request 100 ''a'',
                      demo_request 101 ''c'', demo_request 102 ''a'']"

text \<open>The stale entry misdirects eviction: with room for two identities and a window limit of one,
  the most recently active identity is evicted for a third one although another identity has been
  idle for longer, and is then admitted a second time inside its window.\<close>

theorem stale_entry_misdirects_eviction:
  "let c = demo_config PerIdentity 1 2;
       h4 = hist (snd (run_evaluate (demo_policy c) (take 4 misdirected_run)));
       ds = fst (run_evaluate (demo_policy c) misdirected_run)
   in ds = [Allow, Allow, Allow, Allow, Allow]
      \<and> contains_key h4 (Identity ''b'') \<and> \<not> contains_key h4 (Identity ''a'')
      \<and> length (filter (in_window (window c) (int (from_secs 102))) (charges c (Identity ''a'') misdirected_run ds)) = 2
      \<and> max_per_window c = 1"
  by code_simp

text \<open>Eviction with an exact index: it removes as few identities as the cap asks for and only the
  least recently active ones, leaves the windows of the others alone and the index exact.\<close>

theorem eviction_is_least_recently_active:
  assumes "hist_wf h" "index_exact h"
  shows "hist_len (evict_stalest_until n h) = min n (hist_len h)
    \<and> index_exact (evict_stalest_until n h)
    \<and> (\<forall>k \<in> tracked (evict_stalest_until n h).
         window_of (evict_stalest_until n h) k = window_of h k
         \<and> (\<forall>k' \<in> tracked h - tracked (evict_stalest_until n h).
              activity_key (window_of h k') \<le> activity_key (window_of h k)))"
  using evict_wf_len [OF assms(1), of n] evict_exact_order [OF assms, of n] evict_window_of [of _ n h]
  by blast

theorem eviction_is_least_recently_active_witness:
  "\<exists>h. hist_len h = 2 \<and> hist_len (evict_stalest_until 1 h) = 1
     \<and> (\<forall>k \<in> tracked (evict_stalest_until 1 h). \<forall>k' \<in> tracked h - tracked (evict_stalest_until 1 h).
              activity_key (window_of h k') \<le> activity_key (window_of h k))"
proof -
  let ?h = "hist_set (Identity ''b'') [7] (hist_set (Identity ''a'') [3, 5] empty_history)"
  have "hist_wf ?h" "index_exact ?h" by (simp_all add: hist_set_wf hist_set_exact)
  moreover have "hist_len ?h = 2" by code_simp
  ultimately show ?thesis using eviction_is_least_recently_active [of ?h 1] by (intro exI [of _ ?h]) auto
qed

end
