(* ===== verification/History_Store.thy ===== *)
theory History_Store
  imports Prelude "HOL-Library.Multiset"
begin

text \<open>
  The seam between the threshold policy and its backing stores (core/policy/store/mod.rs): the clock
  anchor that takes instants to epoch milliseconds and back, and the contract of \<open>HistoryStore\<close>.

  The contract is the locale \<open>history_store\<close>: over the multiset of \<open>(identity, timestamp)\<close> events a
  store holds, a successful \<open>sync\<close> adds the new events, drops what is older than the cutoff, caps the
  number of identities by dropping the least recently active ones, and returns the whole content
  grouped by identity. Both backends interpret it; the policy uses only its consequences.
\<close>

subsection \<open>The anchor\<close>

record anchor =
  anchor_instant :: instant
  anchor_epoch_millis :: int

text \<open>\<open>wall\<close> is the reading of the wall clock, in nanoseconds since the epoch (negative before it).\<close>

definition anchor_now :: "instant \<Rightarrow> int \<Rightarrow> anchor" where
  "anchor_now now wall =
     \<lparr>anchor_instant = now, anchor_epoch_millis = to_i64 (int (as_millis (nat wall)))\<rparr>"

definition to_epoch_millis :: "anchor \<Rightarrow> instant \<Rightarrow> int" where
  "to_epoch_millis an i =
     (if i \<ge> anchor_instant an then
        to_i64 (anchor_epoch_millis an + to_i64 (int (as_millis (duration_since i (anchor_instant an)))))
      else
        to_i64 (anchor_epoch_millis an - to_i64 (int (as_millis (duration_since (anchor_instant an) i)))))"

definition to_instant :: "anchor \<Rightarrow> int \<Rightarrow> instant option" where
  "to_instant an ms =
     (let delta = to_i64 (ms - anchor_epoch_millis an)
      in if delta \<ge> 0 then instant_checked_add (anchor_instant an) (from_millis (nat delta))
         else instant_checked_sub (anchor_instant an) (from_millis (nat (- delta))))"

definition epoch_millis_before :: "anchor \<Rightarrow> duration \<Rightarrow> int" where
  "epoch_millis_before an w = to_i64 (anchor_epoch_millis an - to_i64 (int (as_millis w)))"

subsection \<open>Snapshots\<close>

type_synonym row = "string \<times> int"
type_synonym snapshot = "(string \<times> int list) list"

definition snapshot_events :: "snapshot \<Rightarrow> row multiset" where
  "snapshot_events s = mset (concat (map (\<lambda>(i, ts). map (Pair i) ts) s))"

definition last_seen :: "row multiset \<Rightarrow> string \<Rightarrow> int \<Rightarrow> bool" where
  "last_seen M i t \<longleftrightarrow> (i, t) \<in># M \<and> (\<forall>u. (i, u) \<in># M \<longrightarrow> u \<le> t)"

definition identities :: "row multiset \<Rightarrow> string set" where
  "identities M = fst ` set_mset M"

lemma count_snapshot_events:
  "distinct (map fst m) \<Longrightarrow>
     count (snapshot_events m) (i, t) = (case map_of m i of None \<Rightarrow> 0 | Some ts \<Rightarrow> count (mset ts) t)"
proof (induction m)
  case Nil
  then show ?case by (simp add: snapshot_events_def)
next
  case (Cons e m)
  obtain j ts where e: "e = (j, ts)" by (cases e)
  have step: "snapshot_events ((j, ts) # m) = mset (map (Pair j) ts) + snapshot_events m"
    by (simp add: snapshot_events_def e)
  have c: "count (mset (map (Pair j) ts)) (i, t) = (if i = j then count (mset ts) t else 0)"
    by (induction ts) auto
  have "map_of m j = None" using Cons.prems by (simp add: e map_of_eq_None_iff)
  with Cons c show ?case by (simp add: e step del: mset_map)
qed

subsection \<open>The contract of a store\<close>

text \<open>The part of the new content that survives pruning by age, before identities are capped.\<close>

definition pruned_events :: "row multiset \<Rightarrow> row list \<Rightarrow> int \<Rightarrow> row multiset" where
  "pruned_events M new cutoff = filter_mset (\<lambda>r. snd r \<ge> cutoff) (M + mset new)"

locale history_store =
  fixes sync :: "'s \<Rightarrow> row list \<Rightarrow> int \<Rightarrow> nat \<Rightarrow> ('e + snapshot) \<times> 's"
    and contents :: "'s \<Rightarrow> row multiset"
    and ok :: "'s \<Rightarrow> row list \<Rightarrow> int \<Rightarrow> nat \<Rightarrow> bool"
  assumes sync_snapshot:
      "ok s new cutoff cap \<Longrightarrow> sync s new cutoff cap = (Inr snap, s') \<Longrightarrow>
         distinct (map fst snap) \<and> snapshot_events snap = contents s'
         \<and> (\<forall>(i, ts) \<in> set snap. ts \<noteq> [] \<and> sorted ts)"
    and sync_contents:
      "ok s new cutoff cap \<Longrightarrow> sync s new cutoff cap = (Inr snap, s') \<Longrightarrow>
         \<exists>K \<subseteq> identities (pruned_events (contents s) new cutoff).
           contents s' = filter_mset (\<lambda>r. fst r \<in> K) (pruned_events (contents s) new cutoff)
           \<and> card K = min cap (card (identities (pruned_events (contents s) new cutoff)))
           \<and> (\<forall>i \<in> K. \<forall>j \<in> identities (pruned_events (contents s) new cutoff) - K. \<forall>t u.
                last_seen (pruned_events (contents s) new cutoff) i t \<longrightarrow>
                last_seen (pruned_events (contents s) new cutoff) j u \<longrightarrow> u \<le> t)"
begin

text \<open>What the policy relies on: the snapshot names at most \<open>cap\<close> identities, holds nothing older than
  the cutoff and, while the identities fit, holds every event that is not.\<close>

lemma finite_identities: "finite (identities M)"
  by (simp add: identities_def)

lemma snapshot_capped:
  assumes "ok s new cutoff cap" "sync s new cutoff cap = (Inr snap, s')"
  shows "length snap \<le> cap"
proof -
  let ?P = "pruned_events (contents s) new cutoff"
  from sync_contents [OF assms] obtain K where K: "contents s' = filter_mset (\<lambda>r. fst r \<in> K) ?P"
    "K \<subseteq> identities ?P" "card K \<le> cap" by auto
  have "set (map fst snap) \<subseteq> K"
  proof
    fix i assume "i \<in> set (map fst snap)"
    then obtain ts where ts: "(i, ts) \<in> set snap" by auto
    with sync_snapshot [OF assms] obtain t where "t \<in> set ts" by (fastforce simp: neq_Nil_conv)
    with ts have "(i, t) \<in># snapshot_events snap" by (force simp: snapshot_events_def)
    with sync_snapshot [OF assms] K(1) show "i \<in> K" by simp
  qed
  then have "card (set (map fst snap)) \<le> cap"
    using K finite_subset [OF K(2) finite_identities] card_mono le_trans by blast
  then show ?thesis using sync_snapshot [OF assms] distinct_card by fastforce
qed

lemma snapshot_fresh:
  assumes "ok s new cutoff cap" "sync s new cutoff cap = (Inr snap, s')" "(i, ts) \<in> set snap" "t \<in> set ts"
  shows "cutoff \<le> t"
proof -
  from assms(3,4) have "(i, t) \<in># snapshot_events snap" by (force simp: snapshot_events_def)
  with sync_snapshot [OF assms(1,2)] have "(i, t) \<in># contents s'" by simp
  with sync_contents [OF assms(1,2)] show ?thesis by (auto simp: pruned_events_def)
qed

lemma snapshot_complete:
  assumes "ok s new cutoff cap" "sync s new cutoff cap = (Inr snap, s')"
    and "card (identities (pruned_events (contents s) new cutoff)) \<le> cap"
  shows "snapshot_events snap = pruned_events (contents s) new cutoff"
proof -
  let ?P = "pruned_events (contents s) new cutoff"
  from sync_contents [OF assms(1,2)] obtain K where K: "contents s' = filter_mset (\<lambda>r. fst r \<in> K) ?P"
    "K \<subseteq> identities ?P" "card K = min cap (card (identities ?P))" by auto
  with assms(3) have "K = identities ?P" by (metis card_subset_eq finite_identities min.absorb2)
  then have "contents s' = ?P" using K(1) by (auto simp: identities_def filter_mset_eq_conv)
  with sync_snapshot [OF assms(1,2)] show ?thesis by simp
qed

end

subsection \<open>The anchor: round trips and drift\<close>

definition anchor_ok :: "anchor \<Rightarrow> bool" where
  "anchor_ok an \<longleftrightarrow> 0 \<le> anchor_epoch_millis an \<and> anchor_epoch_millis an < 2 ^ 62
     \<and> \<bar>anchor_instant an\<bar> < 2 ^ 62 * 1000000000"

definition near :: "anchor \<Rightarrow> instant \<Rightarrow> bool" where
  "near an i \<longleftrightarrow> \<bar>i - anchor_instant an\<bar> < 2 ^ 62 * 1000000"

lemma millis_of_near: "near an i \<Longrightarrow> as_millis (nat \<bar>i - anchor_instant an\<bar>) < 2 ^ 62"
  by (auto simp: near_def as_millis_def less_mult_imp_div_less nat_less_iff)

text \<open>Within its range the conversion is exact integer arithmetic: the distance to the anchor, in
  whole milliseconds, on the side of the anchor the instant lies on.\<close>

lemma to_epoch_millis_near:
  assumes "anchor_ok an" "near an i"
  shows "to_epoch_millis an i =
     (if i \<ge> anchor_instant an then anchor_epoch_millis an + (i - anchor_instant an) div 1000000
      else anchor_epoch_millis an - (anchor_instant an - i) div 1000000)"
proof -
  have b: "\<bar>i - anchor_instant an\<bar> div 1000000 < 2 ^ 62"
    using assms(2) by (auto simp: near_def)
  have m: "int (as_millis (duration_since x y)) = (x - y) div 1000000" if "x \<ge> y" for x y
    using that by (simp add: as_millis_def duration_since_def zdiv_int)
  show ?thesis
    using b assms(1) m [of i "anchor_instant an"] m [of "anchor_instant an" i]
    by (auto simp: to_epoch_millis_def to_i64_def anchor_ok_def)
qed

lemma to_instant_near:
  assumes "anchor_ok an" "\<bar>d\<bar> < 2 ^ 62"
  shows "to_instant an (anchor_epoch_millis an + d) = Some (anchor_instant an + d * 1000000)"
proof -
  have d: "to_i64 (anchor_epoch_millis an + d - anchor_epoch_millis an) = d"
    using assms(2) by (simp add: to_i64_def)
  have "instant_range (anchor_instant an + d * 1000000)"
    using assms by (auto simp: instant_range_def i64_range_def anchor_ok_def)
  with d show ?thesis
    by (auto simp: to_instant_def Let_def from_millis_def instant_checked_add_def instant_checked_sub_def
        algebra_simps)
qed

text \<open>The round trip through epoch milliseconds: an instant converted and recovered by the same
  anchor comes back, less than one millisecond nearer to the anchor.\<close>

theorem anchor_round_trip:
  assumes "anchor_ok an" "near an i"
  shows "\<exists>r. to_instant an (to_epoch_millis an i) = Some r \<and> \<bar>r - i\<bar> < 1000000
           \<and> \<bar>r - anchor_instant an\<bar> \<le> \<bar>i - anchor_instant an\<bar>"
proof -
  define d where "d = (if i \<ge> anchor_instant an then (i - anchor_instant an) div 1000000
                       else - ((anchor_instant an - i) div 1000000))"
  have e: "to_epoch_millis an i = anchor_epoch_millis an + d"
    using to_epoch_millis_near [OF assms] by (simp add: d_def)
  have "\<bar>d\<bar> < 2 ^ 62" using assms(2) by (auto simp: d_def near_def)
  note r = to_instant_near [OF assms(1) this]
  show ?thesis
  proof (intro exI conjI)
    show "to_instant an (to_epoch_millis an i) = Some (anchor_instant an + d * 1000000)" using e r by simp
    show "\<bar>anchor_instant an + d * 1000000 - i\<bar> < 1000000" unfolding d_def by auto
    show "\<bar>anchor_instant an + d * 1000000 - anchor_instant an\<bar> \<le> \<bar>i - anchor_instant an\<bar>"
      unfolding d_def by auto
  qed
qed

theorem anchor_round_trip_witness:
  "\<exists>r. to_instant \<lparr>anchor_instant = 5000000, anchor_epoch_millis = 1700000000000\<rparr>
         (to_epoch_millis \<lparr>anchor_instant = 5000000, anchor_epoch_millis = 1700000000000\<rparr> 1234567) = Some r
       \<and> \<bar>r - 1234567\<bar> < 1000000"
  using anchor_round_trip [of "\<lparr>anchor_instant = 5000000, anchor_epoch_millis = 1700000000000\<rparr>" 1234567]
  by (auto simp: anchor_ok_def near_def)

end
