(* ===== verification/Sqlite_Store.thy ===== *)
theory Sqlite_Store
  imports History_Store
begin

text \<open>
  The SQLite backend (core/policy/store/sqlite.rs). The table \<open>threshold_history\<close> is the list of its
  rows; each SQL statement of \<open>blocking_sync\<close> is one function on it. What SQL leaves open, the order of
  groups with equal \<open>MAX(timestamp_millis)\<close> in the ranking, is the parameter \<open>tie\<close>, a permutation of
  the groups applied before the stable sort. Which statement fails, if any, is the parameter
  \<open>faults\<close>; an error leaves the transaction uncommitted and the table as it was.

  The last part shows that the backend meets the contract \<open>history_store\<close>.
\<close>

type_synonym table = "row list"

datatype sql_step = Open_file | Journal_mode | Synchronous | Create_schema
  | Begin_tx | Prepare_insert | Exec_insert nat | Delete_old | Delete_ranked
  | Prepare_select | Exec_query | Next_row nat | Commit_tx

type_synonym 'e sql_faults = "sql_step \<Rightarrow> 'e option"

definition sql :: "'e sql_faults \<Rightarrow> sql_step \<Rightarrow> 'a \<Rightarrow> 'e + 'a" where
  "sql faults s x = (case faults s of None \<Rightarrow> Inr x | Some e \<Rightarrow> Inl e)"

text \<open>INSERT INTO threshold_history (identity, timestamp_millis) VALUES (?1, ?2), once per event.\<close>

fun insert_all :: "'e sql_faults \<Rightarrow> nat \<Rightarrow> row list \<Rightarrow> table \<Rightarrow> 'e + table" where
  "insert_all faults n [] tbl = Inr tbl"
| "insert_all faults n (r # rs) tbl =
     res_bind (sql faults (Exec_insert n) (tbl @ [r])) (insert_all faults (Suc n) rs)"

text \<open>DELETE FROM threshold_history WHERE timestamp_millis < ?1\<close>

definition delete_old :: "int \<Rightarrow> table \<Rightarrow> table" where
  "delete_old cutoff tbl = filter (\<lambda>r. \<not> snd r < cutoff) tbl"

definition max_timestamp :: "table \<Rightarrow> string \<Rightarrow> int" where
  "max_timestamp tbl i = Max (snd ` set (filter (\<lambda>r. fst r = i) tbl))"

text \<open>SELECT identity, ROW_NUMBER() OVER (ORDER BY MAX(timestamp_millis) DESC) ... GROUP BY identity:
  the identities in the order of their rank.\<close>

definition ranked :: "(string list \<Rightarrow> string list) \<Rightarrow> table \<Rightarrow> string list" where
  "ranked tie tbl = sort_key (\<lambda>i. - max_timestamp tbl i) (tie (remdups (map fst tbl)))"

text \<open>DELETE ... WHERE identity IN (... WHERE rank > ?1); ranks count from one.\<close>

definition delete_ranked :: "(string list \<Rightarrow> string list) \<Rightarrow> int \<Rightarrow> table \<Rightarrow> table" where
  "delete_ranked tie cap tbl =
     (let doomed = drop (nat cap) (ranked tie tbl) in filter (\<lambda>r. fst r \<notin> set doomed) tbl)"

text \<open>SELECT identity, timestamp_millis FROM threshold_history ORDER BY timestamp_millis ASC\<close>

definition select_all :: "table \<Rightarrow> table" where
  "select_all tbl = sort_key snd tbl"

definition entry_push :: "string \<Rightarrow> int \<Rightarrow> snapshot \<Rightarrow> snapshot" where
  "entry_push i t m =
     AList.update i ((case map_of m i of None \<Rightarrow> [] | Some ts \<Rightarrow> ts) @ [t]) m"

fun read_rows :: "'e sql_faults \<Rightarrow> nat \<Rightarrow> row list \<Rightarrow> snapshot \<Rightarrow> 'e + snapshot" where
  "read_rows faults n [] m = sql faults (Next_row n) m"
| "read_rows faults n ((i, t) # rs) m =
     res_bind (sql faults (Next_row n) (entry_push i t m)) (read_rows faults (Suc n) rs)"

text \<open>\<open>max_identities as i64\<close> is the bound of the ranking; the rows come from the table as it stands
  inside the transaction, which takes effect when it commits.\<close>

definition blocking_sync ::
  "'e sql_faults \<Rightarrow> (string list \<Rightarrow> string list) \<Rightarrow> table \<Rightarrow> row list \<Rightarrow> int \<Rightarrow> nat
     \<Rightarrow> ('e + snapshot) \<times> table" where
  "blocking_sync faults tie tbl new_events cutoff max_identities =
     (let r =
        res_bind (sql faults Begin_tx ()) (\<lambda>_.
        res_bind (sql faults Prepare_insert ()) (\<lambda>_.
        res_bind (insert_all faults 0 new_events tbl) (\<lambda>t1.
        res_bind (sql faults Delete_old (delete_old cutoff t1)) (\<lambda>t2.
        res_bind (sql faults Delete_ranked (delete_ranked tie (to_i64 (int max_identities)) t2)) (\<lambda>t3.
        res_bind (sql faults Prepare_select ()) (\<lambda>_.
        res_bind (sql faults Exec_query (select_all t3)) (\<lambda>rows.
        res_bind (read_rows faults 0 rows []) (\<lambda>snap.
        sql faults Commit_tx (snap, t3)))))))))
      in case r of Inl e \<Rightarrow> (Inl e, tbl) | Inr (snap, t3) \<Rightarrow> (Inr snap, t3))"

subsection \<open>Lemmas\<close>

lemma sql_Inr [res_simps]: "sql faults s x = Inr y \<longleftrightarrow> faults s = None \<and> y = x"
  by (auto simp: sql_def split: option.splits)

lemma insert_all_Inr: "insert_all faults n rs tbl = Inr t \<Longrightarrow> t = tbl @ rs"
  by (induction faults n rs tbl rule: insert_all.induct) (fastforce simp: res_simps)+

text \<open>Reading rows into the map: the events of the map and of the rest of the rows stay the same.\<close>

lemma entry_push_distinct: "distinct (map fst m) \<Longrightarrow> distinct (map fst (entry_push i t m))"
  by (simp add: entry_push_def)

lemma snapshot_events_Cons: "snapshot_events ((i, ts) # m) = mset (map (Pair i) ts) + snapshot_events m"
  by (simp add: snapshot_events_def)

lemma snapshot_events_push: "snapshot_events (entry_push i t m) = add_mset (i, t) (snapshot_events m)"
proof (induction m)
  case Nil
  then show ?case by (simp add: snapshot_events_def entry_push_def)
next
  case (Cons e m)
  then show ?case by (cases e) (auto simp: snapshot_events_Cons entry_push_def)
qed

definition snapshot_upto :: "int \<Rightarrow> snapshot \<Rightarrow> bool" where
  "snapshot_upto b m \<longleftrightarrow> distinct (map fst m) \<and> (\<forall>(i, ts) \<in> set m. ts \<noteq> [] \<and> sorted ts \<and> (\<forall>t \<in> set ts. t \<le> b))"

lemma snapshot_upto_push:
  assumes "snapshot_upto b m" "b \<le> t"
  shows "snapshot_upto t (entry_push i t m)"
proof -
  have "ts \<noteq> [] \<and> sorted ts \<and> (\<forall>u \<in> set ts. u \<le> t)" if "(j, ts) \<in> set (entry_push i t m)" for j ts
  proof -
    have d: "distinct (map fst (entry_push i t m))" using assms(1) by (simp add: snapshot_upto_def entry_push_distinct)
    with that have "map_of (entry_push i t m) j = Some ts" by simp
    then show ?thesis
      using assms by (fastforce simp: entry_push_def snapshot_upto_def sorted_append
          split: if_splits option.splits dest: map_of_SomeD)
  qed
  then show ?thesis using assms(1) by (auto simp: snapshot_upto_def entry_push_distinct)
qed

lemma read_rows_Inr:
  assumes "read_rows faults n rs m = Inr snap" "snapshot_upto b m" "sorted (map snd rs)" "\<forall>r \<in> set rs. b \<le> snd r"
  shows "snapshot_events snap = snapshot_events m + mset rs
       \<and> distinct (map fst snap) \<and> (\<forall>(i, ts) \<in> set snap. ts \<noteq> [] \<and> sorted ts)"
  using assms
proof (induction faults n rs m arbitrary: b rule: read_rows.induct)
  case (1 faults n m)
  then show ?case by (auto simp: res_simps snapshot_upto_def)
next
  case (2 faults n i t rs m)
  from "2.prems"(1) have r: "read_rows faults (Suc n) rs (entry_push i t m) = Inr snap"
    and f: "sql faults (Next_row n) (entry_push i t m) = Inr (entry_push i t m)"
    by (auto simp: res_simps)
  have up: "snapshot_upto t (entry_push i t m)"
    using snapshot_upto_push [OF "2.prems"(2)] "2.prems"(4) by auto
  from "2.IH" [OF r up] "2.prems"(2,3) show ?case
    by (auto simp: snapshot_events_push snapshot_upto_def)
qed

lemma set_ranked:
  assumes "\<And>xs. mset (tie xs) = mset xs"
  shows "set (ranked tie tbl) = fst ` set tbl" "distinct (ranked tie tbl)"
proof -
  have "set (tie xs) = set xs" for xs by (metis assms set_mset_mset)
  then show "set (ranked tie tbl) = fst ` set tbl" by (simp add: ranked_def)
  have "distinct (tie (remdups (map fst tbl)))" using assms by (metis distinct_remdups mset_eq_imp_distinct_iff)
  then show "distinct (ranked tie tbl)" by (simp add: ranked_def)
qed

text \<open>The identities of rank beyond the cap are the least recently active ones.\<close>

lemma ranked_order:
  assumes "i \<in> set (take n (ranked tie tbl))" "j \<in> set (drop n (ranked tie tbl))"
  shows "max_timestamp tbl j \<le> max_timestamp tbl i"
proof -
  have "sorted (map (\<lambda>i. - max_timestamp tbl i) (take n (ranked tie tbl) @ drop n (ranked tie tbl)))"
    by (simp add: ranked_def)
  then have "\<forall>x \<in> set (take n (ranked tie tbl)). \<forall>y \<in> set (drop n (ranked tie tbl)).
      - max_timestamp tbl x \<le> - max_timestamp tbl y"
    unfolding map_append sorted_append by auto
  with assms show ?thesis by fastforce
qed

lemma max_timestamp_last_seen:
  assumes "i \<in> fst ` set tbl"
  shows "last_seen (mset tbl) i t \<longleftrightarrow> t = max_timestamp tbl i"
proof -
  define A where "A = snd ` set (filter (\<lambda>r. fst r = i) tbl)"
  have fin: "finite A" "A \<noteq> {}" using assms by (auto simp: A_def)
  have A: "(i, u) \<in># mset tbl \<longleftrightarrow> u \<in> A" for u by (force simp: A_def)
  have "max_timestamp tbl i = t \<longleftrightarrow> t \<in> A \<and> (\<forall>a \<in> A. a \<le> t)"
    using Max_eq_iff [OF fin] by (simp add: max_timestamp_def A_def)
  then show ?thesis unfolding last_seen_def A by auto
qed

lemma blocking_sync_Inr:
  assumes "blocking_sync faults tie tbl new cutoff cap = (Inr snap, tbl')" "cap < 2 ^ 63"
  shows "tbl' = delete_ranked tie (int cap) (delete_old cutoff (tbl @ new))"
    and "snapshot_events snap = mset tbl'"
    and "distinct (map fst snap) \<and> (\<forall>(i, ts) \<in> set snap. ts \<noteq> [] \<and> sorted ts)"
proof -
  have cap: "to_i64 (int cap) = int cap" using assms(2) by (intro to_i64_id) (simp add: i64_range_def)
  from assms(1) obtain rows where
    tbl': "tbl' = delete_ranked tie (int cap) (delete_old cutoff (tbl @ new))" and
    rows: "rows = select_all tbl'" "read_rows faults 0 rows [] = Inr snap"
    by (auto simp: blocking_sync_def Let_def res_simps cap dest!: insert_all_Inr split: sum.splits)
  then show "tbl' = delete_ranked tie (int cap) (delete_old cutoff (tbl @ new))" by simp
  have so: "sorted (map snd rows)" by (simp add: rows select_all_def)
  define b where "b = (case rows of [] \<Rightarrow> 0 | r # _ \<Rightarrow> snd r)"
  have "\<forall>r \<in> set rows. b \<le> snd r" using so by (cases rows) (auto simp: b_def)
  from read_rows_Inr [OF rows(2) _ so this]
  have "snapshot_events snap = snapshot_events [] + mset rows
       \<and> distinct (map fst snap) \<and> (\<forall>(i, ts) \<in> set snap. ts \<noteq> [] \<and> sorted ts)"
    by (simp add: snapshot_upto_def)
  then show "snapshot_events snap = mset tbl'"
    and "distinct (map fst snap) \<and> (\<forall>(i, ts) \<in> set snap. ts \<noteq> [] \<and> sorted ts)"
    by (simp_all add: rows select_all_def snapshot_events_def)
qed

text \<open>The capped table: the rows of the identities ranked within the cap.\<close>

lemma delete_ranked_contents:
  assumes "\<And>xs. mset (tie xs) = mset xs"
  shows "\<exists>K \<subseteq> identities (mset tbl).
     mset (delete_ranked tie (int cap) tbl) = filter_mset (\<lambda>r. fst r \<in> K) (mset tbl)
     \<and> card K = min cap (card (identities (mset tbl)))
     \<and> (\<forall>i \<in> K. \<forall>j \<in> identities (mset tbl) - K. \<forall>t u.
          last_seen (mset tbl) i t \<longrightarrow> last_seen (mset tbl) j u \<longrightarrow> u \<le> t)"
proof -
  let ?R = "ranked tie tbl"
  let ?K = "set (take cap ?R)"
  note R = set_ranked [OF assms, of tbl]
  have ids: "identities (mset tbl) = set ?R" using R by (simp add: identities_def)
  have split: "i \<in> ?K \<longleftrightarrow> i \<in> set ?R \<and> i \<notin> set (drop cap ?R)" for i
    using R(2) by (rule in_take_iff_distinct)
  have "?K \<subseteq> identities (mset tbl)" by (auto simp: ids dest: in_set_takeD)
  moreover have "mset (delete_ranked tie (int cap) tbl) = filter_mset (\<lambda>r. fst r \<in> ?K) (mset tbl)"
  proof -
    have "filter (\<lambda>r. fst r \<notin> set (drop cap ?R)) tbl = filter (\<lambda>r. fst r \<in> ?K) tbl"
      using R(1) by (intro filter_cong) (auto simp: split)
    then show ?thesis by (simp add: delete_ranked_def)
  qed
  moreover have "card ?K = min cap (card (identities (mset tbl)))"
    using R(2) by (simp add: ids distinct_card min.commute)
  moreover have "u \<le> t" if "i \<in> ?K" "j \<in> identities (mset tbl) - ?K"
      "last_seen (mset tbl) i t" "last_seen (mset tbl) j u" for i j t u
  proof -
    have "i \<in> fst ` set tbl" "j \<in> fst ` set tbl"
      using that(1,2) R(1) by (auto simp: identities_def dest: in_set_takeD)
    with that(3,4) have "t = max_timestamp tbl i" "u = max_timestamp tbl j"
      by (simp_all add: max_timestamp_last_seen)
    moreover have "j \<in> set (drop cap ?R)" using that(2) ids split by auto
    ultimately show ?thesis using ranked_order that(1) by simp
  qed
  ultimately show ?thesis by blast
qed

text \<open>The backend as a \<open>HistoryStore\<close>: its handle carries the ties and the faults the database
  engine shows during the call.\<close>

record 'e sqlite_store =
  sq_faults :: "'e sql_faults"
  sq_tie :: "string list \<Rightarrow> string list"
  sq_table :: table

definition sqlite_sync ::
  "'e sqlite_store \<Rightarrow> row list \<Rightarrow> int \<Rightarrow> nat \<Rightarrow> ('e + snapshot) \<times> 'e sqlite_store" where
  "sqlite_sync s new cutoff cap =
     (case blocking_sync (sq_faults s) (sq_tie s) (sq_table s) new cutoff cap of
        (r, tbl) \<Rightarrow> (r, s\<lparr>sq_table := tbl\<rparr>))"

text \<open>Opening a file: the schema is created only where it is missing, so that a table that exists keeps its
  rows. \<open>sync_now\<close>, which \<open>ThresholdPolicy::new\<close> calls, is the same transaction without the executor.\<close>

definition sqlite_open ::
  "'e sql_faults \<Rightarrow> (string list \<Rightarrow> string list) \<Rightarrow> table option \<Rightarrow> 'e + 'e sqlite_store" where
  "sqlite_open faults tie file =
     res_bind (sql faults Open_file ()) (\<lambda>_.
     res_bind (sql faults Journal_mode ()) (\<lambda>_.
     res_bind (sql faults Synchronous ()) (\<lambda>_.
     res_bind (sql faults Create_schema (case file of None \<Rightarrow> [] | Some tbl \<Rightarrow> tbl)) (\<lambda>tbl.
     Inr \<lparr>sq_faults = faults, sq_tie = tie, sq_table = tbl\<rparr>))))"

definition sqlite_sync_now ::
  "'e sqlite_store \<Rightarrow> row list \<Rightarrow> int \<Rightarrow> nat \<Rightarrow> ('e + snapshot) \<times> 'e sqlite_store" where
  "sqlite_sync_now s new cutoff cap =
     (case blocking_sync (sq_faults s) (sq_tie s) (sq_table s) new cutoff cap of
        (r, tbl) \<Rightarrow> (r, s\<lparr>sq_table := tbl\<rparr>))"

definition sqlite_ok :: "'e sqlite_store \<Rightarrow> nat \<Rightarrow> bool" where
  "sqlite_ok s cap \<longleftrightarrow> cap < 2 ^ 63 \<and> (\<forall>xs. mset (sq_tie s xs) = mset xs)"

lemma mset_delete_old: "mset (delete_old cutoff (tbl @ new)) = pruned_events (mset tbl) new cutoff"
  by (simp add: delete_old_def pruned_events_def not_less flip: mset_filter)

interpretation sqlite: history_store sqlite_sync "\<lambda>s. mset (sq_table s)" "\<lambda>s new cutoff cap. sqlite_ok s cap"
proof (unfold_locales, goal_cases)
  case (1 s new cutoff cap snap s')
  then obtain tbl where b: "blocking_sync (sq_faults s) (sq_tie s) (sq_table s) new cutoff cap = (Inr snap, tbl)"
    and s': "s' = s\<lparr>sq_table := tbl\<rparr>" by (auto simp: sqlite_sync_def split: prod.splits)
  from blocking_sync_Inr [OF b] 1(1) s' show ?case by (simp add: sqlite_ok_def)
next
  case (2 s new cutoff cap snap s')
  then obtain tbl where b: "blocking_sync (sq_faults s) (sq_tie s) (sq_table s) new cutoff cap = (Inr snap, tbl)"
    and s': "s' = s\<lparr>sq_table := tbl\<rparr>" by (auto simp: sqlite_sync_def split: prod.splits)
  from 2(1) have ok: "cap < 2 ^ 63" "\<And>xs. mset (sq_tie s xs) = mset xs" by (simp_all add: sqlite_ok_def)
  from delete_ranked_contents [OF ok(2), of "delete_old cutoff (sq_table s @ new)" cap]
    blocking_sync_Inr(1) [OF b ok(1)] s' show ?case by (simp add: mset_delete_old)
qed

subsection \<open>Properties\<close>

text \<open>C10 The contract of the SQLite backend: a \<open>sync\<close> that succeeds answers with a snapshot of at
  most \<open>max_identities\<close> distinct identities, nothing in it older than the cutoff, each list in time
  order, and equal to the table it leaves; while the identities fit, it is every stored and every new
  event not older than the cutoff, duplicates counted.\<close>

theorem sqlite_sync_contract:
  assumes "sqlite_ok s cap" "sqlite_sync s new cutoff cap = (Inr snap, s')"
  shows "length snap \<le> cap \<and> distinct (map fst snap)
    \<and> (\<forall>(i, ts) \<in> set snap. ts \<noteq> [] \<and> sorted ts \<and> (\<forall>t \<in> set ts. cutoff \<le> t))
    \<and> snapshot_events snap = mset (sq_table s')
    \<and> (card (identities (pruned_events (mset (sq_table s)) new cutoff)) \<le> cap \<longrightarrow>
         snapshot_events snap = pruned_events (mset (sq_table s)) new cutoff)"
  using sqlite.snapshot_capped [OF assms] sqlite.sync_snapshot [OF assms] sqlite.snapshot_fresh [OF assms]
    sqlite.snapshot_complete [OF assms] by fast

theorem sqlite_sync_contract_witness:
  "let s = \<lparr>sq_faults = \<lambda>_. None :: unit option, sq_tie = id, sq_table = [(''a'', 5), (''b'', 40), (''a'', 30)]\<rparr>
   in fst (sqlite_sync s [(''c'', 35), (''b'', 40)] 30 2) = Inr [(''c'', [35]), (''b'', [40, 40])]
      \<and> (\<forall>snap s'. sqlite_sync s [(''c'', 35), (''b'', 40)] 30 2 = (Inr snap, s') \<longrightarrow> snapshot_events snap = mset (sq_table s'))"
proof -
  let ?s = "\<lparr>sq_faults = \<lambda>_. None :: unit option, sq_tie = id, sq_table = [(''a'', 5), (''b'', 40), (''a'', 30)]\<rparr>"
  have "sqlite_ok ?s 2" by (simp add: sqlite_ok_def)
  note c = sqlite_sync_contract [OF this]
  have "fst (sqlite_sync ?s [(''c'', 35), (''b'', 40)] 30 2) = Inr [(''c'', [35]), (''b'', [40, 40])]" by code_simp
  with c [of "[(''c'', 35), (''b'', 40)]" 30] show ?thesis unfolding Let_def by blast
qed

text \<open>A \<open>sync\<close> is one transaction: an error at any statement of it leaves the table as it was.\<close>

theorem sqlite_sync_atomic:
  "fst (sqlite_sync s new cutoff cap) = Inl e \<Longrightarrow> snd (sqlite_sync s new cutoff cap) = s"
  by (auto simp: sqlite_sync_def blocking_sync_def Let_def split: prod.splits sum.splits)

theorem sqlite_sync_atomic_witness:
  "let s = \<lparr>sq_faults = (\<lambda>x. if x = Exec_insert 1 then Some () else None), sq_tie = id, sq_table = [(''a'', 5)]\<rparr>
   in snd (sqlite_sync s [(''c'', 35), (''b'', 40)] 30 2) = s"
proof -
  let ?s = "\<lparr>sq_faults = (\<lambda>x. if x = Exec_insert 1 then Some () else None), sq_tie = id, sq_table = [(''a'', 5)]\<rparr>"
  have "fst (sqlite_sync ?s [(''c'', 35), (''b'', 40)] 30 2) = Inl ()" by code_simp
  from sqlite_sync_atomic [OF this] show ?thesis by simp
qed

end
