(* ===== verification/Valkey_Store.thy ===== *)
theory Valkey_Store
  imports History_Store Policy_Core Rust_Text
begin

text \<open>
  The Valkey backend (core/policy/store/valkey.rs) and the form in which its URL is logged
  (\<open>redact_valkey_url\<close> of core/policy/threshold.rs).

  The Valkey server and the \<open>redis\<close> client library are parameters: \<open>redis_client\<close> is what \<open>open\<close> calls,
  \<open>valkey_server\<close> the commands \<open>sync\<close> sends, each of which may fail. The sorted sets are seen as one
  multiset of rows \<open>(key, member, score)\<close>. \<open>law_commands\<close> and \<open>law_scan\<close> state what the documentation of the commands
  says about it. The \<open>SCAN\<close> loop ends when the server answers with the cursor zero; it is a
  \<open>partial_function\<close>, so a server that never does makes \<open>sync\<close> the value \<open>None\<close>.

  The last part shows that the backend meets the contract \<open>history_store\<close>, and where it does not.
\<close>

subsection \<open>Opening a store\<close>

record valkey_tls_config =
  tls_ca_file :: "string option"
  tls_client_cert_file :: "string option"
  tls_client_key_file :: "string option"

definition valkey_tls_is_default :: "valkey_tls_config \<Rightarrow> bool" where
  "valkey_tls_is_default t \<longleftrightarrow>
     tls_ca_file t = None \<and> tls_client_cert_file t = None \<and> tls_client_key_file t = None"

record valkey_auth_config =
  auth_username :: "string option"
  auth_password :: "string option"

definition valkey_auth_is_default :: "valkey_auth_config \<Rightarrow> bool" where
  "valkey_auth_is_default a \<longleftrightarrow> auth_username a = None \<and> auth_password a = None"

datatype ('e, 'io) valkey_open_error =
    Parsing_url 'e
  | Opening_client 'e
  | Reading_ca_file string 'io
  | Reading_client_cert string 'io
  | Reading_client_key string 'io
  | Cert_and_key_together
  | Building_tls_client 'e

text \<open>The client library: parsing a URL to connection settings, the two setters, and the two ways to
  build a client, the second with an optional pair of client certificate and key and an optional root
  certificate.\<close>

record ('info, 'client, 'e) redis_client =
  into_connection_info :: "string \<Rightarrow> 'e + 'info"
  set_username :: "string \<Rightarrow> 'info \<Rightarrow> 'info"
  set_password :: "string \<Rightarrow> 'info \<Rightarrow> 'info"
  client_open :: "'info \<Rightarrow> 'e + 'client"
  build_with_tls :: "'info \<Rightarrow> (octets \<times> octets) option \<Rightarrow> octets option \<Rightarrow> 'e + 'client"

record 'client valkey_handle =
  v_client :: 'client
  v_key_prefix :: string
  v_conn :: bool
  v_member_seq :: nat

definition apply_auth :: "('info, 'client, 'e) redis_client \<Rightarrow> valkey_auth_config \<Rightarrow> 'info \<Rightarrow> 'info" where
  "apply_auth lib auth info =
     (if valkey_auth_is_default auth then info
      else let info1 = (case auth_username auth of None \<Rightarrow> info | Some u \<Rightarrow> set_username lib u info)
           in (case auth_password auth of None \<Rightarrow> info1 | Some p \<Rightarrow> set_password lib p info1))"

definition read_client_tls ::
  "(string \<Rightarrow> 'io + octets) \<Rightarrow> valkey_tls_config \<Rightarrow> ('e, 'io) valkey_open_error + (octets \<times> octets) option" where
  "read_client_tls fs_read tls =
     (case (tls_client_cert_file tls, tls_client_key_file tls) of
        (Some cert_path, Some key_path) \<Rightarrow>
          res_bind (map_err (Reading_client_cert cert_path) (fs_read cert_path)) (\<lambda>cert.
          res_bind (map_err (Reading_client_key key_path) (fs_read key_path)) (\<lambda>key.
          Inr (Some (cert, key))))
      | (None, None) \<Rightarrow> Inr None
      | _ \<Rightarrow> Inl Cert_and_key_together)"

definition valkey_open ::
  "('info, 'client, 'e) redis_client \<Rightarrow> (string \<Rightarrow> 'io + octets) \<Rightarrow> string \<Rightarrow> string
     \<Rightarrow> valkey_tls_config \<Rightarrow> valkey_auth_config \<Rightarrow> ('e, 'io) valkey_open_error + 'client valkey_handle" where
  "valkey_open lib fs_read url prefix tls auth =
     res_bind (map_err Parsing_url (into_connection_info lib url)) (\<lambda>info.
     res_bind
       (if valkey_tls_is_default tls then map_err Opening_client (client_open lib (apply_auth lib auth info))
        else
          res_bind (try_opt (\<lambda>path. map_err (Reading_ca_file path) (fs_read path)) (tls_ca_file tls)) (\<lambda>root_cert.
          res_bind (read_client_tls fs_read tls) (\<lambda>client_tls.
          map_err Building_tls_client (build_with_tls lib (apply_auth lib auth info) client_tls root_cert))))
       (\<lambda>client. Inr \<lparr>v_client = client, v_key_prefix = prefix, v_conn = False, v_member_seq = 0\<rparr>))"

subsection \<open>The URL in the log\<close>

definition redact_valkey_url :: "string \<Rightarrow> string" where
  "redact_valkey_url url =
     (case find_str ''://'' url of
        None \<Rightarrow> ''<redacted: unparseable state_db url>''
      | Some scheme_end \<Rightarrow>
          (let scheme = take (scheme_end + 3) url;
               rest = drop (scheme_end + 3) url;
               authority_end = (case find_str ''/'' rest of Some n \<Rightarrow> n | None \<Rightarrow> length rest);
               authority = take authority_end rest;
               remainder = drop authority_end rest
           in case rfind_char CHR ''@'' authority of
                Some at \<Rightarrow> scheme @ ''<redacted>@'' @ drop (at + 1) authority @ remainder
              | None \<Rightarrow> url))"

subsection \<open>The commands of the server\<close>

type_synonym zrow = "string \<times> string \<times> int"

text \<open>\<open>vs_view\<close> is what the sorted sets hold; it is no command, only the laws and the properties use it.
  \<open>vs_prune_read\<close> is the pipeline \<open>ZREMRANGEBYSCORE key -inf (cutoff\<close>, \<open>ZRANGE key 0 -1 WITHSCORES\<close>,
  \<open>ZCARD key\<close>. Scores are doubles, read back with \<open>as i64\<close>; the laws hold for whole numbers up to
  \<open>2 ^ 53\<close>, which doubles represent exactly.\<close>

record ('r, 'e) valkey_server =
  vs_connect :: "'r \<Rightarrow> ('e + unit) \<times> 'r"
  vs_zadd :: "zrow list \<Rightarrow> 'r \<Rightarrow> ('e + unit) \<times> 'r"
  vs_scan :: "nat \<Rightarrow> string \<Rightarrow> 'r \<Rightarrow> ('e + nat \<times> string list) \<times> 'r"
  vs_prune_read :: "string \<Rightarrow> int \<Rightarrow> 'r \<Rightarrow> ('e + (string \<times> int) list \<times> nat) \<times> 'r"
  vs_del :: "string \<Rightarrow> 'r \<Rightarrow> ('e + nat) \<times> 'r"
  vs_view :: "'r \<Rightarrow> zrow multiset"

text \<open>The store in use: the handle with the server its client talks to, and the order in which the
  hash map of identities is walked before the stable sort.\<close>

record ('client, 'r, 'e) valkey_store = "'client valkey_handle" +
  v_server :: "('r, 'e) valkey_server"
  v_remote :: 'r
  v_tie :: "(string \<times> int) list \<Rightarrow> (string \<times> int) list"

definition key_prefix :: "('client, 'r, 'e) valkey_store \<Rightarrow> string" where
  "key_prefix s = v_key_prefix s @ '':history:''"

definition valkey_history_key :: "('client, 'r, 'e) valkey_store \<Rightarrow> string \<Rightarrow> string" where
  "valkey_history_key s identity = key_prefix s @ identity"

text \<open>\<open>connection\<close>: the cached connection, or a new one that is then cached.\<close>

definition connection :: "('client, 'r, 'e) valkey_store \<Rightarrow> ('e + unit) \<times> ('client, 'r, 'e) valkey_store" where
  "connection s =
     (if v_conn s then (Inr (), s)
      else case vs_connect (v_server s) (v_remote s) of
             (Inl e, r) \<Rightarrow> (Inl e, s\<lparr>v_remote := r\<rparr>)
           | (Inr _, r) \<Rightarrow> (Inr (), s\<lparr>v_remote := r, v_conn := True\<rparr>))"

definition show_int :: "int \<Rightarrow> string" where
  "show_int t = (if t < 0 then CHR ''-'' # show_nat (nat (- t)) else show_nat (nat t))"

definition event_member :: "int \<Rightarrow> nat \<Rightarrow> string" where
  "event_member timestamp_millis seq = show_int timestamp_millis @ ''-'' @ show_nat seq"

fun zadd_rows :: "('client, 'r, 'e) valkey_store \<Rightarrow> nat \<Rightarrow> row list \<Rightarrow> zrow list" where
  "zadd_rows s seq [] = []"
| "zadd_rows s seq ((i, t) # rest) =
     (valkey_history_key s i, event_member t seq, t) # zadd_rows s (usize_add seq 1) rest"

text \<open>Sending the new events: nothing at all when there are none.\<close>

definition send_events :: "row list \<Rightarrow> ('client, 'r, 'e) valkey_store \<Rightarrow> ('e + unit) \<times> ('client, 'r, 'e) valkey_store" where
  "send_events new_events s =
     (if new_events = [] then (Inr (), s)
      else case vs_zadd (v_server s) (zadd_rows s (v_member_seq s) new_events) (v_remote s) of
             (res, r) \<Rightarrow>
               (res, s\<lparr>v_remote := r, v_member_seq := usize_add (v_member_seq s) (length new_events)\<rparr>))"

partial_function (option) scan_loop ::
  "('r, 'e) valkey_server \<Rightarrow> string \<Rightarrow> nat \<Rightarrow> string list \<Rightarrow> 'r \<Rightarrow> (('e + string list) \<times> 'r) option" where
  "scan_loop v pattern cursor keys r =
     (case vs_scan v cursor pattern r of
        (Inl e, r1) \<Rightarrow> Some (Inl e, r1)
      | (Inr (next_cursor, batch), r1) \<Rightarrow>
          if next_cursor = 0 then Some (Inr (keys @ batch), r1)
          else scan_loop v pattern next_cursor (keys @ batch) r1)"

declare scan_loop.simps [code]

definition strip_prefix :: "string \<Rightarrow> string \<Rightarrow> string option" where
  "strip_prefix p s = (if starts_with s p then Some (drop (length p) s) else None)"

fun read_keys ::
  "('r, 'e) valkey_server \<Rightarrow> string \<Rightarrow> int \<Rightarrow> string list \<Rightarrow> snapshot \<Rightarrow> 'r \<Rightarrow> ('e + snapshot) \<times> 'r" where
  "read_keys v p cutoff [] m r = (Inr m, r)"
| "read_keys v p cutoff (key # keys) m r =
     (case vs_prune_read v key cutoff r of
        (Inl e, r1) \<Rightarrow> (Inl e, r1)
      | (Inr (remaining, n), r1) \<Rightarrow>
          if n = 0 then read_keys v p cutoff keys m (snd (vs_del v key r1))
          else case strip_prefix p key of
                 None \<Rightarrow> read_keys v p cutoff keys m r1
               | Some identity \<Rightarrow>
                   read_keys v p cutoff keys (AList.update identity (map snd remaining) m) r1)"

definition i64_MIN :: int where
  "i64_MIN = - (2 ^ 63)"

definition by_last_seen ::
  "((string \<times> int) list \<Rightarrow> (string \<times> int) list) \<Rightarrow> snapshot \<Rightarrow> (string \<times> int) list" where
  "by_last_seen tie m =
     sort_key snd (tie (map (\<lambda>(i, ts). (i, if ts = [] then i64_MIN else last ts)) m))"

fun delete_keys :: "('client, 'r, 'e) valkey_store \<Rightarrow> string list \<Rightarrow> snapshot \<Rightarrow> 'r \<Rightarrow> snapshot \<times> 'r" where
  "delete_keys s [] m r = (m, r)"
| "delete_keys s (i # is) m r =
     delete_keys s is (AList.delete i m) (snd (vs_del (v_server s) (valkey_history_key s i) r))"

definition cap_identities :: "('client, 'r, 'e) valkey_store \<Rightarrow> nat \<Rightarrow> snapshot \<Rightarrow> 'r \<Rightarrow> snapshot \<times> 'r" where
  "cap_identities s max_identities m r =
     (if length m > max_identities
      then delete_keys s (map fst (take (length m - max_identities) (by_last_seen (v_tie s) m))) m r
      else (m, r))"

definition valkey_sync ::
  "('client, 'r, 'e) valkey_store \<Rightarrow> row list \<Rightarrow> int \<Rightarrow> nat \<Rightarrow> (('e + snapshot) \<times> ('client, 'r, 'e) valkey_store) option" where
  "valkey_sync s0 new_events cutoff max_identities =
     (case connection s0 of
        (Inl e, s1) \<Rightarrow> Some (Inl e, s1)
      | (Inr _, s1) \<Rightarrow>
          (case send_events new_events s1 of
             (Inl e, s2) \<Rightarrow> Some (Inl e, s2)
           | (Inr _, s2) \<Rightarrow>
               (case scan_loop (v_server s2) (key_prefix s2 @ ''*'') 0 [] (v_remote s2) of
                  None \<Rightarrow> None
                | Some (Inl e, r) \<Rightarrow> Some (Inl e, s2\<lparr>v_remote := r\<rparr>)
                | Some (Inr keys, r) \<Rightarrow>
                    (case read_keys (v_server s2) (key_prefix s2) cutoff keys [] r of
                       (Inl e, r1) \<Rightarrow> Some (Inl e, s2\<lparr>v_remote := r1\<rparr>)
                     | (Inr m, r1) \<Rightarrow>
                         (case cap_identities s2 max_identities m r1 of
                            (m', r2) \<Rightarrow> Some (Inr m', s2\<lparr>v_remote := r2\<rparr>))))))"

subsection \<open>What the documentation of the commands says\<close>

text \<open>\<open>ZADD\<close> replaces a member that is already in the set.\<close>

fun zadd_view :: "zrow list \<Rightarrow> zrow multiset \<Rightarrow> zrow multiset" where
  "zadd_view [] V = V"
| "zadd_view ((k, m, t) # rows) V =
     zadd_view rows (add_mset (k, m, t) (filter_mset (\<lambda>x. (fst x, fst (snd x)) \<noteq> (k, m)) V))"

definition set_of_key :: "zrow multiset \<Rightarrow> string \<Rightarrow> (string \<times> int) multiset" where
  "set_of_key V k = image_mset snd (filter_mset (\<lambda>x. fst x = k) V)"

definition prune_key :: "string set \<Rightarrow> int \<Rightarrow> zrow multiset \<Rightarrow> zrow multiset" where
  "prune_key K cutoff V = filter_mset (\<lambda>x. fst x \<in> K \<longrightarrow> cutoff \<le> snd (snd x)) V"

definition exact_double :: "int \<Rightarrow> bool" where
  "exact_double t \<longleftrightarrow> \<bar>t\<bar> \<le> 2 ^ 53"

definition glob_literal :: "string \<Rightarrow> bool" where
  "glob_literal p \<longleftrightarrow> set p \<inter> set ''*?['' = {} \<and> CHR 0x5C \<notin> set p"

text \<open>A full iteration from a cursor: the calls up to the one that answers with the cursor zero.\<close>

inductive scan_run ::
  "('r, 'e) valkey_server \<Rightarrow> string \<Rightarrow> nat \<Rightarrow> 'r \<Rightarrow> string list \<Rightarrow> 'r \<Rightarrow> bool" for v pattern where
  scan_last: "vs_scan v pattern_cursor pattern r = (Inr (0, batch), r') \<Longrightarrow>
     scan_run v pattern pattern_cursor r batch r'"
| scan_next: "vs_scan v pattern_cursor pattern r = (Inr (c, batch), r1) \<Longrightarrow> c \<noteq> 0 \<Longrightarrow>
     scan_run v pattern c r1 keys r' \<Longrightarrow> scan_run v pattern pattern_cursor r (batch @ keys) r'"

definition law_commands :: "('r, 'e) valkey_server \<Rightarrow> bool" where
  "law_commands v \<longleftrightarrow>
     (\<forall>r x r'. vs_connect v r = (x, r') \<longrightarrow> vs_view v r' = vs_view v r)
   \<and> (\<forall>rows r r'. vs_zadd v rows r = (Inr (), r') \<longrightarrow> (\<forall>x \<in> set rows. exact_double (snd (snd x))) \<longrightarrow>
        vs_view v r' = zadd_view rows (vs_view v r))
   \<and> (\<forall>k cutoff r rem n r'. vs_prune_read v k cutoff r = (Inr (rem, n), r') \<longrightarrow> exact_double cutoff \<longrightarrow>
        vs_view v r' = prune_key {k} cutoff (vs_view v r) \<and> sorted (map snd rem)
        \<and> mset rem = set_of_key (vs_view v r') k \<and> n = length rem)
   \<and> (\<forall>k n r r'. vs_del v k r = (Inr n, r') \<longrightarrow> vs_view v r' = filter_mset (\<lambda>x. fst x \<noteq> k) (vs_view v r))"

text \<open>A full \<open>SCAN\<close> names every key that matches, some perhaps more than once, and comes to an end: each
  call makes progress towards the cursor zero.\<close>

definition law_scan :: "('r, 'e) valkey_server \<Rightarrow> bool" where
  "law_scan v \<longleftrightarrow>
     (\<forall>c pattern r x r'. vs_scan v c pattern r = (x, r') \<longrightarrow> vs_view v r' = vs_view v r)
   \<and> (\<forall>p r keys r'. glob_literal p \<longrightarrow> scan_run v (p @ ''*'') 0 r keys r' \<longrightarrow>
        set keys = {k \<in> fst ` set_mset (vs_view v r). starts_with k p})
   \<and> (\<exists>ahead :: nat \<Rightarrow> 'r \<Rightarrow> nat. \<forall>c pattern r c' batch r'.
        vs_scan v c pattern r = (Inr (c', batch), r') \<longrightarrow> c' \<noteq> 0 \<longrightarrow> ahead c' r' < ahead c r)"

definition dels_succeed :: "('r, 'e) valkey_server \<Rightarrow> bool" where
  "dels_succeed v \<longleftrightarrow> (\<forall>k r. is_ok (fst (vs_del v k r)))"

text \<open>What the store holds for its key prefix.\<close>

definition events_under :: "string \<Rightarrow> zrow multiset \<Rightarrow> row multiset" where
  "events_under p V =
     image_mset (\<lambda>x. (drop (length p) (fst x), snd (snd x))) (filter_mset (\<lambda>x. starts_with (fst x) p) V)"

definition valkey_contents :: "('client, 'r, 'e) valkey_store \<Rightarrow> row multiset" where
  "valkey_contents s = events_under (key_prefix s) (vs_view (v_server s) (v_remote s))"



subsection \<open>Members and events\<close>






lemma events_under_union [simp]: "events_under p (V + W) = events_under p V + events_under p W"
  by (simp add: events_under_def)




subsection \<open>The loops of a sync\<close>

lemma scan_loop_run: "scan_run v pattern c r keys r' \<Longrightarrow> scan_loop v pattern c acc r = Some (Inr (acc @ keys), r')"
proof (induction arbitrary: acc rule: scan_run.induct)
  case (scan_last c r batch r')
  then show ?case by (subst scan_loop.simps) simp
next
  case (scan_next c r c' batch r1 keys r')
  then show ?case by (subst scan_loop.simps) simp
qed

lemma scan_loop_ends:
  assumes "\<And>c r c' batch r'. vs_scan v c pattern r = (Inr (c', batch), r') \<Longrightarrow> c' \<noteq> 0 \<Longrightarrow> ahead c' r' < (ahead c r :: nat)"
  shows "(\<exists>keys r'. scan_run v pattern c r keys r') \<or> (\<forall>acc. \<exists>e r'. scan_loop v pattern c acc r = Some (Inl e, r'))"
proof (induction "ahead c r" arbitrary: c r rule: less_induct)
  case less
  obtain x r1 where x: "vs_scan v c pattern r = (x, r1)" by (cases "vs_scan v c pattern r")
  show ?case
  proof (cases x)
    case (Inl e)
    with x have "scan_loop v pattern c acc r = Some (Inl e, r1)" for acc by (subst scan_loop.simps) simp
    then show ?thesis by blast
  next
    case (Inr y)
    obtain c' batch where y: "y = (c', batch)" by (cases y)
    have s: "vs_scan v c pattern r = (Inr (c', batch), r1)" using x Inr y by simp
    show ?thesis
    proof (cases "c' = 0")
      case True
      with s show ?thesis by (blast intro: scan_last)
    next
      case False
      have "scan_loop v pattern c acc r = scan_loop v pattern c' (acc @ batch) r1" for acc
        using s False by (subst scan_loop.simps) simp
      with less [OF assms [OF s False]] show ?thesis by (metis scan_next [OF s False])
    qed
  qed
qed


















subsection \<open>The contract\<close>














subsection \<open>A server that keeps the laws\<close>

text \<open>An in-memory server: the rows in a list, \<open>SCAN\<close> in pages of one key. It shows that the laws can be
  met.\<close>

definition mem_keys :: "string \<Rightarrow> zrow list \<Rightarrow> string list" where
  "mem_keys pattern r = filter (\<lambda>k. starts_with k (butlast pattern)) (remdups (map fst r))"

fun mem_zadd :: "zrow list \<Rightarrow> zrow list \<Rightarrow> zrow list" where
  "mem_zadd [] r = r"
| "mem_zadd (x # rows) r = mem_zadd rows (x # filter (\<lambda>y. (fst y, fst (snd y)) \<noteq> (fst x, fst (snd x))) r)"

definition mem_scan :: "nat \<Rightarrow> string \<Rightarrow> zrow list \<Rightarrow> (unit + nat \<times> string list) \<times> zrow list" where
  "mem_scan c pattern r =
     (let ks = mem_keys pattern r
      in (Inr (if c + 1 < length ks then c + 1 else 0, take 1 (drop c ks)), r))"

definition mem_prune_read ::
  "string \<Rightarrow> int \<Rightarrow> zrow list \<Rightarrow> (unit + (string \<times> int) list \<times> nat) \<times> zrow list" where
  "mem_prune_read k cutoff r =
     (let r' = filter (\<lambda>x. fst x = k \<longrightarrow> cutoff \<le> snd (snd x)) r;
          rem = sort_key snd (map snd (filter (\<lambda>x. fst x = k) r'))
      in (Inr (rem, length rem), r'))"

definition mem_server :: "(zrow list, unit) valkey_server" where
  "mem_server =
     \<lparr>vs_connect = (\<lambda>r. (Inr (), r)),
      vs_zadd = (\<lambda>rows r. (Inr (), mem_zadd rows r)),
      vs_scan = mem_scan,
      vs_prune_read = mem_prune_read,
      vs_del = (\<lambda>k r. (Inr 1, filter (\<lambda>x. fst x \<noteq> k) r)),
      vs_view = mset\<rparr>"

lemma mset_mem_zadd: "mset (mem_zadd rows r) = zadd_view rows (mset r)"
  by (induction rows r rule: mem_zadd.induct) (auto simp: case_prod_beta)

lemma mem_scan_run:
  "scan_run mem_server pattern c r keys r' \<Longrightarrow> r' = r \<and> keys = drop c (mem_keys pattern r)"
proof (induction rule: scan_run.induct)
  case (scan_last c r batch r')
  then show ?case by (auto simp: mem_server_def mem_scan_def mem_prune_read_def Let_def split: if_splits)
next
  case (scan_next c r c' batch r1 keys r')
  then have r1: "r1 = r" and c': "c' = c + 1" "batch = take 1 (drop c (mem_keys pattern r))"
    by (auto simp: mem_server_def mem_scan_def mem_prune_read_def Let_def split: if_splits)
  have "take 1 (drop c ks) @ drop (c + 1) ks = drop c ks" for ks :: "string list"
    by (metis append_take_drop_id drop_drop add.commute)
  with scan_next.IH r1 c' show ?case by simp
qed

lemma mem_server_laws: "law_commands mem_server" "law_scan mem_server" "dels_succeed mem_server"
proof -
  show "law_commands mem_server"
    by (auto simp: law_commands_def mem_server_def mem_scan_def mem_prune_read_def Let_def mset_mem_zadd prune_key_def set_of_key_def simp flip: mset_filter)
  show "dels_succeed mem_server" by (simp add: dels_succeed_def mem_server_def)
  have "set keys = {k \<in> fst ` set_mset (vs_view mem_server r). starts_with k p}"
    if "scan_run mem_server (p @ ''*'') 0 r keys r'" for p r keys r'
    using mem_scan_run [OF that] by (auto simp: mem_keys_def mem_server_def)
  moreover have "Suc (length r') - c' < Suc (length r) - c"
    if "vs_scan mem_server c pattern r = (Inr (c', batch), r')" "c' \<noteq> 0" for c pattern r c' batch r'
  proof -
    have "length (mem_keys pattern r) \<le> length r"
      unfolding mem_keys_def by (metis le_trans length_filter_le length_map length_remdups_leq)
    with that show ?thesis by (auto simp: mem_server_def mem_scan_def mem_prune_read_def Let_def split: if_splits)
  qed
  ultimately show "law_scan mem_server"
    unfolding law_scan_def by (intro conjI exI [of _ "\<lambda>c r. Suc (length r) - c"]) (auto simp: mem_server_def mem_scan_def mem_prune_read_def Let_def)
qed

definition mem_store :: "zrow list \<Rightarrow> (unit, zrow list, unit) valkey_store" where
  "mem_store r = \<lparr>v_client = (), v_key_prefix = ''p'', v_conn = False, v_member_seq = 7,
     v_server = mem_server, v_remote = r, v_tie = id\<rparr>"


subsection \<open>Properties\<close>


text \<open>C34 The \<open>SCAN\<close> loop ends: on a server whose cursor makes progress, as documented, \<open>sync\<close> returns,
  with a snapshot or with an error.\<close>

theorem valkey_sync_returns:
  fixes s :: "('client, 'r, 'e) valkey_store"
  assumes "law_scan (v_server s)"
  shows "\<exists>r s'. valkey_sync s new cutoff cap = Some (r, s')"
proof -
  from assms obtain ahead :: "nat \<Rightarrow> 'r \<Rightarrow> nat" where "\<And>c pattern r c' batch r'.
      vs_scan (v_server s) c pattern r = (Inr (c', batch), r') \<Longrightarrow> c' \<noteq> 0 \<Longrightarrow> ahead c' r' < ahead c r"
    unfolding law_scan_def by blast
  then have "(\<exists>keys r'. scan_run (v_server s) pattern 0 r keys r')
      \<or> (\<forall>acc. \<exists>e r'. scan_loop (v_server s) pattern 0 acc r = Some (Inl e, r'))" for pattern r
    by (rule scan_loop_ends)
  then have "scan_loop (v_server s) pattern 0 [] r \<noteq> None" for pattern r
    by (metis option.distinct(1) scan_loop_run)
  moreover have "v_server s1 = v_server s" if "connection s = (x, s1)" for x s1
    using that by (auto simp: connection_def split: if_splits prod.splits sum.splits)
  moreover have "v_server s2 = v_server s1" if "send_events new s1 = (x, s2)" for x and s1 s2 :: "('client, 'r, 'e) valkey_store"
    using that by (auto simp: send_events_def split: if_splits prod.splits)
  ultimately show ?thesis
    by (auto simp: valkey_sync_def simp del: not_None_eq split: prod.splits sum.splits option.splits)
qed

theorem valkey_sync_returns_witness:
  "\<exists>r s'. valkey_sync (mem_store [(''p:history:a'', ''m'', 5)]) [(''b'', 6)] 0 3 = Some (r, s')"
  by (rule valkey_sync_returns) (simp add: mem_store_def mem_server_laws)


text \<open>The sequence number in a member tells apart the events of one process only: a second instance
  whose counter stands at the same value, as after both have just been started, overwrites the first
  one's event when the same identity acts in the same millisecond, and adds nothing to the count.\<close>

theorem valkey_instances_collide:
  assumes "law_commands (v_server a)" "exact_double t"
    and "send_events [(i, t)] a = (Inr (), a')"
    and "b = a\<lparr>v_remote := v_remote a'\<rparr>" "send_events [(i, t)] b = (Inr (), b')"
  shows "valkey_contents b' = valkey_contents a'"
proof -
  let ?row = "(valkey_history_key a i, event_member t (v_member_seq a), t)"
  have row: "zadd_rows b (v_member_seq b) [(i, t)] = [?row]"
    by (simp add: assms(4) valkey_history_key_def key_prefix_def)
  have za: "vs_zadd (v_server a) [?row] (v_remote a) = (Inr (), v_remote a')"
    and zb: "vs_zadd (v_server a) [?row] (v_remote a') = (Inr (), v_remote b')"
    using assms(3-5) row by (auto simp: send_events_def split: prod.splits)
  have same: "key_prefix a' = key_prefix a" "v_server a' = v_server a" "key_prefix b' = key_prefix a" "v_server b' = v_server a"
    using assms(3-5) by (auto simp: send_events_def key_prefix_def split: prod.splits)
  have ex: "\<forall>x \<in> set [?row]. exact_double (snd (snd x))" using assms(2) by simp
  have view: "vs_view (v_server a) r' = zadd_view [?row] (vs_view (v_server a) r)"
    if "vs_zadd (v_server a) [?row] r = (Inr (), r')" for r r'
    using assms(1) that ex unfolding law_commands_def by blast
  have "zadd_view [?row] (zadd_view [?row] V) = zadd_view [?row] V" for V
    by (simp add: filter_filter_mset)
  then show ?thesis by (simp add: valkey_contents_def same view [OF za] view [OF zb])
qed

theorem valkey_instances_collide_witness:
  "\<exists>a'. send_events [(''x'', 5)] (mem_store []) = (Inr (), a')
     \<and> (\<exists>b'. send_events [(''x'', 5)] ((mem_store [])\<lparr>v_remote := v_remote a'\<rparr>) = (Inr (), b')
          \<and> valkey_contents b' = valkey_contents a')"
proof -
  have e: "\<exists>a'. send_events [(''x'', 5)] (mem_store r) = (Inr (), a')" for r
    by (simp add: send_events_def mem_store_def mem_server_def)
  obtain a' where a: "send_events [(''x'', 5)] (mem_store []) = (Inr (), a')" using e by blast
  have "(mem_store [])\<lparr>v_remote := v_remote a'\<rparr> = mem_store (v_remote a')" by (simp add: mem_store_def)
  with e obtain b' where b: "send_events [(''x'', 5)] ((mem_store [])\<lparr>v_remote := v_remote a'\<rparr>) = (Inr (), b')" by metis
  have "law_commands (v_server (mem_store []))" "exact_double 5"
    by (simp_all add: mem_store_def mem_server_laws exact_double_def)
  from valkey_instances_collide [OF this a refl b] a b show ?thesis by blast
qed

text \<open>What \<open>open\<close> builds: on success the client comes from the parsed URL with the configured
  credential set on it, and, when any TLS file is configured, from the very contents of those files; the
  client certificate and its key are both configured or both absent. The handle starts unconnected with
  its sequence at zero.\<close>

theorem valkey_open_client:
  assumes "valkey_open lib fs_read url prefix tls auth = Inr h"
  shows "(tls_client_cert_file tls = None \<longleftrightarrow> tls_client_key_file tls = None)
    \<and> h = \<lparr>v_client = v_client h, v_key_prefix = prefix, v_conn = False, v_member_seq = 0\<rparr>
    \<and> (\<exists>info root pair.
         into_connection_info lib url = Inr info
       \<and> try_opt fs_read (tls_ca_file tls) = Inr root
       \<and> try_opt (\<lambda>(c, k). res_bind (fs_read c) (\<lambda>cert. res_bind (fs_read k) (\<lambda>key. Inr (cert, key))))
           (case tls_client_cert_file tls of None \<Rightarrow> None | Some c \<Rightarrow> Some (c, the (tls_client_key_file tls))) = Inr pair
       \<and> (if valkey_tls_is_default tls then client_open lib (apply_auth lib auth info)
          else build_with_tls lib (apply_auth lib auth info) pair root) = Inr (v_client h))"
proof -
  have ca: "try_opt (\<lambda>path. map_err (Reading_ca_file path) (fs_read path)) x = Inr y \<longleftrightarrow> try_opt fs_read x = Inr y" for x y
    by (cases x) (auto simp: res_simps)
  from assms show ?thesis
    by (auto simp: valkey_open_def read_client_tls_def res_simps ca valkey_tls_is_default_def
        split: if_splits option.splits)
qed

definition demo_redis :: "(string, string, unit) redis_client" where
  "demo_redis = \<lparr>into_connection_info = Inr, set_username = (\<lambda>u i. i @ ''+'' @ u), set_password = (\<lambda>p i. i @ ''+'' @ p),
     client_open = Inr, build_with_tls = (\<lambda>i pair root. if root = None then Inl () else Inr i)\<rparr>"

theorem valkey_open_client_witness:
  "\<exists>h. valkey_open demo_redis (\<lambda>p. Inr [] :: unit + octets) ''url'' ''pre''
      \<lparr>tls_ca_file = Some ''ca'', tls_client_cert_file = None, tls_client_key_file = None\<rparr>
      \<lparr>auth_username = None, auth_password = Some ''pw''\<rparr> = Inr h \<and> v_key_prefix h = ''pre'' \<and> v_member_seq h = 0"
proof -
  let ?open = "valkey_open demo_redis (\<lambda>p. Inr [] :: unit + octets) ''url'' ''pre''
      \<lparr>tls_ca_file = Some ''ca'', tls_client_cert_file = None, tls_client_key_file = None\<rparr>
      \<lparr>auth_username = None, auth_password = Some ''pw''\<rparr>"
  have "is_ok ?open" by code_simp
  then obtain h where h: "?open = Inr h" by (auto simp: is_ok_def split: sum.splits)
  then have "h = \<lparr>v_client = v_client h, v_key_prefix = ''pre'', v_conn = False, v_member_seq = 0\<rparr>"
    using valkey_open_client [OF h] by blast
  then have "v_key_prefix h = ''pre''" "v_member_seq h = 0" by (metis valkey_handle.select_convs(2), metis valkey_handle.select_convs(4))
  with h show ?thesis by blast
qed

text \<open>The search functions on texts of a known shape.\<close>

lemma find_scheme: "CHR '':'' \<notin> set s \<Longrightarrow> find_str ''://'' (s @ ''://'' @ r) = Some (length s)"
  by (induction s) (auto simp: starts_with_def)

lemma find_slash: "CHR ''/'' \<notin> set s \<Longrightarrow> find_str ''/'' (s @ CHR ''/'' # r) = Some (length s)"
  "CHR ''/'' \<notin> set s \<Longrightarrow> find_str ''/'' s = None"
  by (induction s) (auto simp: starts_with_def)

lemma rfind_char_last: "x \<notin> set r \<Longrightarrow> rfind_char x (s @ x # r) = Some (length s)"
  by (induction s) (auto simp: rfind_char_None [THEN iffD2])

lemma redact_split:
  assumes "CHR '':'' \<notin> set scheme" "CHR ''/'' \<notin> set auth" "remainder = [] \<or> hd remainder = CHR ''/''"
  shows "redact_valkey_url (scheme @ ''://'' @ auth @ remainder) =
    scheme @ ''://'' @ (case rfind_char CHR ''@'' auth of
                          Some at \<Rightarrow> ''<redacted>@'' @ drop (at + 1) auth | None \<Rightarrow> auth) @ remainder"
proof -
  have "(case find_str ''/'' (auth @ remainder) of Some n \<Rightarrow> n | None \<Rightarrow> length (auth @ remainder)) = length auth"
    using assms(3) find_slash(1) [OF assms(2)] find_slash(2) [OF assms(2)] by (cases remainder) auto
  then show ?thesis
    using find_scheme [OF assms(1), of "auth @ remainder"]
    by (simp add: redact_valkey_url_def Let_def split: option.splits)
qed

text \<open>A credential in the URL is kept out of the log: when the user information has no slash, the
  logged form has the scheme, the host and the rest of the URL, and nothing of the user information.\<close>

theorem redacted_url_hides_userinfo:
  assumes "CHR '':'' \<notin> set scheme" "CHR ''/'' \<notin> set userinfo" "CHR ''/'' \<notin> set host" "CHR ''@'' \<notin> set host"
    and "remainder = [] \<or> hd remainder = CHR ''/''"
  shows "redact_valkey_url (scheme @ ''://'' @ userinfo @ ''@'' @ host @ remainder)
       = scheme @ ''://<redacted>@'' @ host @ remainder"
proof -
  have "CHR ''/'' \<notin> set (userinfo @ CHR ''@'' # host)" using assms(2,3) by auto
  from redact_split [OF assms(1) this assms(5)] rfind_char_last [OF assms(4), of userinfo] show ?thesis by simp
qed

theorem redacted_url_hides_userinfo_witness:
  "redact_valkey_url ''redis://u:p@h:1/0'' = ''redis://<redacted>@h:1/0''"
  using redacted_url_hides_userinfo [of "''redis''" "''u:p''" "''h:1''" "''/0''"] by simp

text \<open>A password with a slash is logged: the authority is cut at the first slash, so that the \<open>@\<close>
  after it is not seen and the URL is returned whole.\<close>

theorem redacted_url_leaks_slash:
  assumes "CHR '':'' \<notin> set scheme" "CHR ''/'' \<notin> set user" "CHR ''@'' \<notin> set user"
  shows "redact_valkey_url (scheme @ ''://'' @ user @ ''/'' @ rest) = scheme @ ''://'' @ user @ ''/'' @ rest"
  using redact_split [OF assms(1,2), of "CHR ''/'' # rest"] assms(3) by (simp add: rfind_char_None [THEN iffD2])

theorem redacted_url_leaks_slash_witness:
  "redact_valkey_url ''redis://:pa/ss@h'' = ''redis://:pa/ss@h''"
  using redacted_url_leaks_slash [of "''redis''" "'':pa''" "''ss@h''"] by simp

end
