(* ===== verification/Threshold_Sync.thy ===== *)
theory Threshold_Sync
  imports Threshold_Budget Sqlite_Store Valkey_Store
begin

text \<open>
  The threshold policy and its backing store (core/policy/threshold.rs): how a policy is built and its
  history warmed from the store (\<open>ThresholdPolicy::new\<close>), how a snapshot of the store is folded into the
  local history, and the background sync.

  \<open>sync_once\<close> is not atomic: it drains the queue of admitted actions, talks to the store without any
  lock, and merges the answer under the history lock, while \<open>evaluate\<close> goes on, itself in two parts, under
  the lock of the history and under that of the queue, and other instances write to the store. The step
  relation \<open>sync_step\<close> has these as separate steps; the invariant proved over its reachable states is that the
  window limit holds for every identity that has not been evicted, whatever the store answers and
  however the steps interleave.
\<close>

subsection \<open>Folding a snapshot into the history\<close>

fun merge_loop ::
  "anchor \<Rightarrow> instant \<Rightarrow> duration \<Rightarrow> int list \<Rightarrow> int list \<Rightarrow> instant list \<Rightarrow> instant list" where
  "merge_loop an now w [] seen merged = merged"
| "merge_loop an now w (ms # rest) seen merged =
     (if ms \<in> set seen then merge_loop an now w rest seen merged
      else (case to_instant an ms of
              Some i \<Rightarrow>
                if duration_since now i \<le> w then merge_loop an now w rest (ms # seen) (merged @ [i])
                else merge_loop an now w rest seen merged
            | None \<Rightarrow> merge_loop an now w rest seen merged))"

text \<open>The new window of one identity: what it holds inside the window, whose milliseconds are \<open>seen\<close>,
  then what the loop adds, in time order.\<close>

definition merged_window :: "anchor \<Rightarrow> instant \<Rightarrow> duration \<Rightarrow> window_times \<Rightarrow> int list \<Rightarrow> instant list" where
  "merged_window an now w existing ts =
     (let kept = filter (\<lambda>i. duration_since now i \<le> w) existing
      in sort (merge_loop an now w ts (map (to_epoch_millis an) kept) kept))"

definition merge_identity ::
  "anchor \<Rightarrow> instant \<Rightarrow> duration \<Rightarrow> history \<Rightarrow> string \<times> int list \<Rightarrow> history" where
  "merge_identity an now w h row =
     hist_set (Identity (fst row))
       (merged_window an now w
          (case map_of (by_identity h) (Identity (fst row)) of None \<Rightarrow> [] | Some existing \<Rightarrow> existing) (snd row)) h"

definition merge_history_from_rows ::
  "history \<Rightarrow> anchor \<Rightarrow> instant \<Rightarrow> snapshot \<Rightarrow> duration \<Rightarrow> history" where
  "merge_history_from_rows h an now rows w = foldl (merge_identity an now w) h rows"

definition rows_into_history :: "anchor \<Rightarrow> instant \<Rightarrow> snapshot \<Rightarrow> duration \<Rightarrow> history" where
  "rows_into_history an now rows w =
     foldl (\<lambda>h (name, timestamps).
        let instants = sort (filter (\<lambda>i. duration_since now i \<le> w) (List.map_filter (to_instant an) timestamps))
        in if instants \<noteq> [] then hist_set (Identity name) instants h else h) empty_history rows"

subsection \<open>Building a policy\<close>

text \<open>The two \<open>open\<close> functions of the stores and SQLite's blocking \<open>sync_now\<close>, as the environment of
  the constructor, with the clock readings it makes.\<close>

record ('e, 's) store_env =
  open_sqlite :: "string \<Rightarrow> 'e + 's"
  sync_now :: "'s \<Rightarrow> row list \<Rightarrow> int \<Rightarrow> nat \<Rightarrow> ('e + snapshot) \<times> 's"
  open_valkey :: "string \<Rightarrow> string \<Rightarrow> valkey_tls_config \<Rightarrow> valkey_auth_config \<Rightarrow> 'e + 's"
  env_anchor :: anchor
  env_now :: instant

definition open_state ::
  "('e, 's) store_env \<Rightarrow> threshold_config \<Rightarrow> history \<times> 's persistent_state option" where
  "open_state env c =
     (case state_db c of
        Some (Sqlite path) \<Rightarrow>
          (case open_sqlite env path of
             Inr st \<Rightarrow>
               (let an = env_anchor env; cutoff = epoch_millis_before an (window c) in
                case sync_now env st [] cutoff (max_tracked_identities c) of
                  (Inr rows, st') \<Rightarrow>
                    (evict_stalest_until (max_tracked_identities c)
                       (rows_into_history an (env_now env) rows (window c)),
                     Some \<lparr>store = st', pending = []\<rparr>)
                | (Inl e, st') \<Rightarrow> (empty_history, Some \<lparr>store = st', pending = []\<rparr>))
           | Inl e \<Rightarrow> (empty_history, None))
      | Some (Valkey v) \<Rightarrow>
          (case open_valkey env (vk_url v) (vk_key_prefix v)
              \<lparr>tls_ca_file = vk_ca_file v,
               tls_client_cert_file = map_option vk_cert_file (vk_client_cert v),
               tls_client_key_file = map_option vk_key_file (vk_client_cert v)\<rparr>
              \<lparr>auth_username = vk_username v, auth_password = vk_password v\<rparr> of
             Inr st \<Rightarrow> (empty_history, Some \<lparr>store = st, pending = []\<rparr>)
           | Inl e \<Rightarrow> (empty_history, None))
      | None \<Rightarrow> (empty_history, None))"

definition threshold_new :: "('e, 's) store_env \<Rightarrow> threshold_config \<Rightarrow> 's threshold_policy" where
  "threshold_new env c =
     (case open_state env c of (h, st) \<Rightarrow> \<lparr>config = c, hist = h, state = st\<rparr>)"

subsection \<open>The background sync\<close>

text \<open>Draining takes the queue and leaves it empty; the events are converted by the anchor of the
  cycle.\<close>

definition drain_pending :: "anchor \<Rightarrow> 's persistent_state \<Rightarrow> row list \<times> 's persistent_state" where
  "drain_pending an st =
     (map (\<lambda>(k, i). (identity_name k, to_epoch_millis an i)) (pending st), st\<lparr>pending := []\<rparr>)"

definition fold_snapshot ::
  "threshold_config \<Rightarrow> anchor \<Rightarrow> instant \<Rightarrow> snapshot \<Rightarrow> history \<Rightarrow> history" where
  "fold_snapshot c an now rows h =
     evict_stalest_until (max_tracked_identities c) (merge_history_from_rows h an now rows (window c))"

text \<open>One whole cycle with nothing in between; \<open>now\<close> is the reading the merge makes.\<close>

definition sync_once ::
  "('s \<Rightarrow> row list \<Rightarrow> int \<Rightarrow> nat \<Rightarrow> ('e + snapshot) \<times> 's) \<Rightarrow> anchor \<Rightarrow> instant
     \<Rightarrow> 's threshold_policy \<Rightarrow> 's threshold_policy" where
  "sync_once sync an now p =
     (case state p of
        None \<Rightarrow> p
      | Some st \<Rightarrow>
          (case drain_pending an st of (new_events, st1) \<Rightarrow>
             (case sync (store st1) new_events (epoch_millis_before an (window (config p)))
                     (max_tracked_identities (config p)) of
                (Inl e, s') \<Rightarrow> p\<lparr>state := Some (st1\<lparr>store := s'\<rparr>)\<rparr>
              | (Inr rows, s') \<Rightarrow>
                  p\<lparr>state := Some (st1\<lparr>store := s'\<rparr>),
                    hist := fold_snapshot (config p) an now rows (hist p)\<rparr>)))"

text \<open>\<open>spawn_background_sync\<close>: nothing without a store; otherwise a task with one cycle per tick for as
  long as the weak reference can be upgraded. A tick carries the readings of its cycle and whether the
  policy is still referenced. \<open>tokio::time::interval\<close> asserts that its period is not zero, in the task: with
  \<open>flush_interval_secs = 0\<close> the task panics before its first tick, and nobody awaits it.\<close>

definition spawns_task :: "'s threshold_policy \<Rightarrow> bool" where
  "spawns_task p \<longleftrightarrow> state p \<noteq> None"

definition interval_panics :: "duration \<Rightarrow> bool" where
  "interval_panics period \<longleftrightarrow> period = 0"

fun background_sync ::
  "('s \<Rightarrow> row list \<Rightarrow> int \<Rightarrow> nat \<Rightarrow> ('e + snapshot) \<times> 's)
     \<Rightarrow> (bool \<times> anchor \<times> instant) list \<Rightarrow> 's threshold_policy \<Rightarrow> 's threshold_policy" where
  "background_sync sync [] p = p"
| "background_sync sync ((alive, an, now) # ticks) p =
     (if alive then background_sync sync ticks (sync_once sync an now p) else p)"

definition spawn_background_sync ::
  "('s \<Rightarrow> row list \<Rightarrow> int \<Rightarrow> nat \<Rightarrow> ('e + snapshot) \<times> 's)
     \<Rightarrow> (bool \<times> anchor \<times> instant) list \<Rightarrow> 's threshold_policy \<Rightarrow> 's threshold_policy" where
  "spawn_background_sync sync ticks p =
     (if spawns_task p \<and> \<not> interval_panics (flush_interval (config p)) then background_sync sync ticks p else p)"

subsection \<open>Interleaved steps\<close>

text \<open>Where a cycle of \<open>sync_once\<close> is between two of its await points or locks.\<close>

datatype sync_cycle = Idle | Drained anchor "row list" | Answered anchor snapshot

record 's sync_state =
  pol :: "'s threshold_policy"
  cycle :: sync_cycle
  unpushed :: "push list"
  admitted :: admission_log
  handed :: "(anchor \<times> row list) list"
  clock :: instant
  lost :: "identity set"

text \<open>\<open>evaluate\<close> gives up the history lock before it takes the lock of the queue: \<open>unpushed\<close> are the
  batches of the calls that are between the two. \<open>admitted\<close>, \<open>handed\<close>, \<open>clock\<close> and \<open>lost\<close> are ghost
  fields: the log of the decisions \<open>evaluate\<close> returned, the arguments the cycles called the store's
  \<open>sync\<close> with, the last reading of the clock under the history lock, and the identities evicted so far. A
  window holds less than \<open>2 ^ 63\<close> entries, as any Rust collection does. A cycle starts at a tick, of which
  there are none when the task has panicked.\<close>

definition collection_bound :: "history \<Rightarrow> bool" where
  "collection_bound h \<longleftrightarrow> (\<forall>k. length (window_of h k) < 2 ^ 63)"

definition sync_init :: "'s threshold_policy \<Rightarrow> instant \<Rightarrow> 's sync_state" where
  "sync_init p t0 = \<lparr>pol = p, cycle = Idle, unpushed = [], admitted = [], handed = [], clock = t0, lost = {}\<rparr>"

inductive sync_step ::
  "('s \<Rightarrow> row list \<Rightarrow> int \<Rightarrow> nat \<Rightarrow> ('e + snapshot) \<times> 's) \<Rightarrow> 's sync_state \<Rightarrow> 's sync_state \<Rightarrow> bool"
  for sync where
  step_evaluate:
    "clock s \<le> now \<Longrightarrow> collection_bound (hist (pol s)) \<Longrightarrow> blast_radius a < 2 ^ 63 \<Longrightarrow>
     evaluate_locked (pol s) now a ctx = (d, p', push) \<Longrightarrow>
     sync_step sync s (s\<lparr>pol := p', clock := now,
        unpushed := unpushed s @ (case push of None \<Rightarrow> [] | Some b \<Rightarrow> [b]),
        admitted := admitted s @ (if d = Allow \<and> policed (config p') a
                                  then replicate (blast_radius a) (history_key (config p') ctx, now) else []),
        lost := lost s \<union> (tracked (hist (pol s)) - tracked (hist p'))\<rparr>)"
| step_push:
    "b \<in> set (unpushed s) \<Longrightarrow>
     sync_step sync s (s\<lparr>pol := push_admitted (Some b) (pol s), unpushed := remove1 b (unpushed s)\<rparr>)"
| step_drain:
    "cycle s = Idle \<Longrightarrow> state (pol s) = Some st \<Longrightarrow> \<not> interval_panics (flush_interval (config (pol s))) \<Longrightarrow>
     drain_pending an st = (evs, st1) \<Longrightarrow>
     sync_step sync s (s\<lparr>pol := (pol s)\<lparr>state := Some st1\<rparr>, cycle := Drained an evs\<rparr>)"
| step_failed:
    "cycle s = Drained an evs \<Longrightarrow> state (pol s) = Some st \<Longrightarrow>
     sync (store st) evs (epoch_millis_before an (window (config (pol s))))
       (max_tracked_identities (config (pol s))) = (Inl e, s') \<Longrightarrow>
     sync_step sync s (s\<lparr>pol := (pol s)\<lparr>state := Some (st\<lparr>store := s'\<rparr>)\<rparr>, cycle := Idle,
        handed := handed s @ [(an, evs)]\<rparr>)"
| step_answer:
    "cycle s = Drained an evs \<Longrightarrow> state (pol s) = Some st \<Longrightarrow>
     sync (store st) evs (epoch_millis_before an (window (config (pol s))))
       (max_tracked_identities (config (pol s))) = (Inr rows, s') \<Longrightarrow>
     sync_step sync s (s\<lparr>pol := (pol s)\<lparr>state := Some (st\<lparr>store := s'\<rparr>)\<rparr>, cycle := Answered an rows,
        handed := handed s @ [(an, evs)]\<rparr>)"
| step_merge:
    "cycle s = Answered an rows \<Longrightarrow> clock s \<le> now \<Longrightarrow>
     m = merge_history_from_rows (hist (pol s)) an now rows (window (config (pol s))) \<Longrightarrow>
     h' = evict_stalest_until (max_tracked_identities (config (pol s))) m \<Longrightarrow>
     sync_step sync s (s\<lparr>pol := (pol s)\<lparr>hist := h'\<rparr>, cycle := Idle, clock := now,
        lost := lost s \<union> (tracked m - tracked h')\<rparr>)"
| step_other_instance:
    "state (pol s) = Some st \<Longrightarrow>
     sync_step sync s (s\<lparr>pol := (pol s)\<lparr>state := Some (st\<lparr>store := s'\<rparr>)\<rparr>\<rparr>)"

text \<open>\<open>step_other_instance\<close>: the store is shared, so that between any two steps another instance may have
  changed it.\<close>

inductive sync_reach ::
  "('s \<Rightarrow> row list \<Rightarrow> int \<Rightarrow> nat \<Rightarrow> ('e + snapshot) \<times> 's) \<Rightarrow> 's threshold_policy \<Rightarrow> 's sync_state \<Rightarrow> bool"
  for sync p0 where
  reach_start: "sync_reach sync p0 (sync_init p0 t0)"
| reach_step: "sync_reach sync p0 s \<Longrightarrow> sync_step sync s s' \<Longrightarrow> sync_reach sync p0 s'"

subsection \<open>Merging: lemmas\<close>

lemma merge_identity_eq:
  "merge_identity an now w h (name, ts)
     = hist_set (Identity name) (merged_window an now w (window_of h (Identity name)) ts) h"
  by (simp add: merge_identity_def window_of_def)

lemma merge_loop_prefix: "\<exists>added. merge_loop an now w ts seen merged = merged @ added"
proof (induction an now w ts seen merged rule: merge_loop.induct)
  case (2 an now w ms rest seen merged)
  then show ?case by (fastforce split: option.splits)
qed simp

text \<open>A merge never loses a local admission that is inside the window.\<close>

lemma merged_window_keeps:
  "mset (filter (\<lambda>i. duration_since now i \<le> w) existing) \<subseteq># mset (merged_window an now w existing ts)"
proof -
  let ?k = "filter (\<lambda>i. duration_since now i \<le> w) existing"
  obtain added where "merge_loop an now w ts (map (to_epoch_millis an) ?k) ?k = ?k @ added"
    using merge_loop_prefix by blast
  then show ?thesis by (simp add: merged_window_def)
qed

lemma sorted_merged_window: "sorted (merged_window an now w existing ts)"
  by (simp add: merged_window_def Let_def)

lemma merge_identity_wf: "hist_wf h \<Longrightarrow> hist_wf (merge_identity an now w h row)"
  by (cases row) (simp add: merge_identity_eq hist_set_wf)

lemma merge_rows_wf: "hist_wf h \<Longrightarrow> hist_wf (merge_history_from_rows h an now rows w)"
  unfolding merge_history_from_rows_def
  by (induction rows arbitrary: h) (auto simp: merge_identity_wf)

lemma merge_rows_tracked: "tracked (merge_history_from_rows h an now rows w) \<subseteq> tracked h \<union> Identity ` fst ` set rows"
proof -
  have "tracked (merge_identity an now w h row) \<subseteq> insert (Identity (fst row)) (tracked h)" for h row
    by (auto simp: merge_identity_def tracked_hist_set)
  note step = subsetD [OF this]
  show ?thesis unfolding merge_history_from_rows_def
    by (induction rows rule: rev_induct) (auto dest: step)
qed

lemma merge_rows_keeps:
  "filter_mset (\<lambda>i. duration_since now i \<le> w) (mset (window_of h k))
     \<subseteq># mset (window_of (merge_history_from_rows h an now rows w) k)"
  unfolding merge_history_from_rows_def
proof (induction rows rule: rev_induct)
  case Nil
  then show ?case by (simp add: multiset_filter_subset)
next
  case (snoc row rows)
  obtain name ts where row: "row = (name, ts)" by (cases row)
  let ?h = "foldl (merge_identity an now w) h rows"
  let ?P = "\<lambda>i. duration_since now i \<le> w"
  have "filter_mset ?P (mset (window_of h k)) = filter_mset ?P (filter_mset ?P (mset (window_of h k)))"
    by (simp add: filter_filter_mset)
  also have "\<dots> \<subseteq># filter_mset ?P (mset (window_of ?h k))"
    using snoc.IH by (rule multiset_filter_mono)
  finally have "filter_mset ?P (mset (window_of h k)) \<subseteq># mset (filter ?P (window_of ?h k))" by simp
  moreover have "mset (filter ?P (window_of ?h k)) \<subseteq># mset (window_of (merge_identity an now w ?h row) k)"
    using merged_window_keeps [of now w "window_of ?h k" an ts]
    by (auto simp: row merge_identity_eq multiset_filter_subset)
  ultimately show ?case by (simp add: row)
qed

subsection \<open>The invariant of the interleaved steps\<close>

definition covered :: "threshold_config \<Rightarrow> instant \<Rightarrow> admission_log \<Rightarrow> history \<Rightarrow> identity \<Rightarrow> bool" where
  "covered c T log h k \<longleftrightarrow>
     filter_mset (in_window (window c) T) (mset (log_of log k)) \<subseteq># mset (window_of h k)
     \<and> (\<forall>t. length (filter (in_window (window c) t) (log_of log k)) \<le> max_per_window c)"

definition sync_inv :: "threshold_config \<Rightarrow> 's sync_state \<Rightarrow> bool" where
  "sync_inv c s \<longleftrightarrow> config (pol s) = c \<and> hist_wf (hist (pol s)) \<and> log_upto (clock s) (admitted s)
     \<and> (\<forall>k. k \<notin> lost s \<longrightarrow> covered c (clock s) (admitted s) (hist (pol s)) k)"

text \<open>Time passes and a window is rewritten: what the log holds inside the window stays covered when
  the rewriting keeps every entry that is inside the window.\<close>

lemma covered_step:
  assumes "covered c T log h k" "log_upto T log" "T \<le> now"
    and "filter_mset (\<lambda>i. duration_since now i \<le> window c) (mset (window_of h k)) \<subseteq># mset (window_of h' k)"
  shows "covered c now log h' k"
proof -
  let ?L = "mset (log_of log k)" and ?D = "\<lambda>i. duration_since now i \<le> window c"
  have "in_window (window c) now u \<longleftrightarrow> ?D u \<and> in_window (window c) T u" if "u \<in># ?L" for u
    using log_of_upto [OF assms(2), of u k] that assms(3) by (auto simp: in_window_def time_simps)
  then have "filter_mset (in_window (window c) now) ?L = filter_mset ?D (filter_mset (in_window (window c) T) ?L)"
    unfolding filter_filter_mset by (intro filter_mset_cong refl) blast
  also have "\<dots> \<subseteq># filter_mset ?D (mset (window_of h k))"
    using assms(1) by (simp add: covered_def multiset_filter_mono)
  finally show ?thesis using assms(1,4) unfolding covered_def by (meson subset_mset.order_trans)
qed

lemma covered_mono: "covered c T log h k \<Longrightarrow> log_upto T log \<Longrightarrow> T \<le> now \<Longrightarrow> covered c now log h k"
  by (rule covered_step [OF _ _ _ multiset_filter_subset])

lemma drop_stale_keeps: "filter_mset (\<lambda>i. duration_since now i \<le> w) (mset ts) \<subseteq># mset (drop_stale now w ts)"
proof -
  obtain us where us: "ts = us @ drop_stale now w ts" "\<forall>t \<in> set us. duration_since now t > w"
    using drop_stale_suffix by blast
  have "filter (\<lambda>i. duration_since now i \<le> w) ts = filter (\<lambda>i. duration_since now i \<le> w) (drop_stale now w ts)"
    using us(2) by (subst us(1)) (auto simp: filter_empty_conv not_le)
  then have "filter_mset (\<lambda>i. duration_since now i \<le> w) (mset ts)
      = filter_mset (\<lambda>i. duration_since now i \<le> w) (mset (drop_stale now w ts))" by (metis mset_filter)
  then show ?thesis by (simp add: multiset_filter_subset)
qed

lemma prepare_keeps:
  assumes "k' \<in> tracked h \<longrightarrow> k' \<in> tracked (prepare_history c k now h)"
  shows "filter_mset (\<lambda>i. duration_since now i \<le> window c) (mset (window_of h k'))
      \<subseteq># mset (window_of (prepare_history c k now h) k')"
proof (cases "k' = k")
  case True
  then show ?thesis by (simp add: window_of_prepare_key drop_stale_keeps)
next
  case False
  have "window_of (prepare_history c k now h) k' = window_of h k'" if "k' \<in> tracked h"
  proof -
    let ?e = "evict_stalest_until (max_tracked_identities c - 1) h"
    from assms that False have "contains_key h k \<or> k' \<in> tracked ?e"
      by (auto simp: prepare_history_def Let_def split: if_splits)
    with False evict_window_of [of k'] show ?thesis by (auto simp: prepare_history_def Let_def)
  qed
  with window_of_untracked [of k' h] show ?thesis
    by (cases "k' \<in> tracked h") (simp_all add: multiset_filter_subset)
qed

lemma covered_record:
  assumes "covered c now log h k" "k' \<in> tracked h" "log_upto now log"
    and "k = k' \<longrightarrow> length (window_of h k) + n \<le> max_per_window c"
  shows "covered c now (log @ replicate n (k', now)) (record_admitted k' now n h) k"
proof (cases "k = k'")
  case False
  with assms show ?thesis by (simp add: covered_def log_of_append_replicate window_of_record)
next
  case True
  let ?in = "in_window (window c)"
  have now: "length (filter (?in now) (log_of log k)) \<le> length (window_of h k)"
    using assms(1) size_mset_mono unfolding covered_def by (metis mset_filter size_mset)
  have "length (filter (?in t) (log_of log k @ replicate n now)) \<le> max_per_window c" for t
  proof (cases "?in t now")
    case False
    with assms(1) show ?thesis by (simp add: covered_def)
  next
    case in_t: True
    then have "length (filter (?in t) (log_of log k)) \<le> length (filter (?in now) (log_of log k))"
      using log_of_upto [OF assms(3), of _ k] by (intro filter_len_mono) (auto simp: in_window_def)
    with in_t now assms(4) True show ?thesis by simp
  qed
  moreover have "filter_mset (?in now) (mset (log_of log k @ replicate n now))
      \<subseteq># mset (window_of h k @ replicate n now)"
    using assms(1) by (auto simp: covered_def intro!: subset_mset.add_mono multiset_filter_subset)
  ultimately show ?thesis using True assms(2) by (simp add: covered_def log_of_append_replicate window_of_record)
qed

lemma evaluate_locked_spec:
  assumes "evaluate_locked p now a ctx = (d, p', push)"
  shows "config p' = config p" "state p' = state p"
    "push = (if d = Allow \<and> policed (config p) a
             then Some (history_key (config p) ctx, now, blast_radius a) else None)"
    "policy_inv p \<Longrightarrow> policy_inv p'" "hist_wf (hist p) \<Longrightarrow> hist_wf (hist p')"
  using assms prepare_wf prepare_len
  by (auto simp: evaluate_locked_def policy_inv_def Let_def record_wf hist_len_tracked split: if_splits)

lemma push_admitted_simps [simp]:
  "config (push_admitted b p) = config p" "hist (push_admitted b p) = hist p"
  by (auto simp: push_admitted_def split: option.splits)

lemma evaluate_sync_inv:
  assumes "sync_inv c s" "clock s \<le> now" "collection_bound (hist (pol s))" "blast_radius a < 2 ^ 63"
    and ev: "evaluate_locked (pol s) now a ctx = (d, p', push)"
    and k: "k \<notin> lost s" "k \<in> tracked (hist (pol s)) \<longrightarrow> k \<in> tracked (hist p')"
  shows "covered c now (admitted s @ (if d = Allow \<and> policed c a
           then replicate (blast_radius a) (history_key c ctx, now) else [])) (hist p') k"
proof -
  let ?h = "hist (pol s)" and ?key = "history_key c ctx" and ?n = "blast_radius a"
  let ?g = "prepare_history c ?key now ?h"
  have c: "config (pol s) = c" and up: "log_upto (clock s) (admitted s)"
    and cov: "covered c (clock s) (admitted s) ?h k"
    using assms(1) k(1) by (simp_all add: sync_inv_def)
  show ?thesis
  proof (cases "policed c a \<and> ?n \<le> max_per_request c")
    case False
    with ev c have "hist p' = ?h" "\<not> (d = Allow \<and> policed c a)"
      by (auto simp: evaluate_locked_def Let_def split: if_splits)
    with covered_mono [OF cov up assms(2)] show ?thesis by (simp only: if_False append_Nil2)
  next
    case True
    have hp: "hist p' = ?g \<or> hist p' = record_admitted ?key now ?n ?g"
      using True ev c by (auto simp: evaluate_locked_def Let_def split: if_splits)
    with k(2) have "k \<in> tracked ?h \<longrightarrow> k \<in> tracked ?g" by auto
    from covered_step [OF cov up assms(2) prepare_keeps [OF this]]
    have g: "covered c now (admitted s) ?g k" .
    have len: "window_len ?g ?key \<le> length (window_of ?h ?key)"
      using drop_stale_suffix [of "window_of ?h ?key" now "window c"]
      by (metis length_append le_add2 window_len_window_of window_of_prepare_key)
    have bd: "length (window_of ?h ?key) < 2 ^ 63" using assms(3) by (simp add: collection_bound_def)
    have ex: "usize_add (window_len ?g ?key) ?n = window_len ?g ?key + ?n"
      using bd len assms(4) by (intro usize_add_exact) simp
    show ?thesis
    proof (cases "window_len ?g ?key + ?n \<le> max_per_window c")
      case False
      with True ev c ex g show ?thesis by (auto simp: evaluate_locked_def Let_def)
    next
      case fits: True
      have "log_upto now (admitted s)" using up assms(2) by (fastforce simp: log_upto_def)
      from covered_record [OF g tracked_prepare this, of ?n] fits True ev c ex show ?thesis
        by (auto simp: evaluate_locked_def Let_def window_len_window_of)
    qed
  qed
qed

lemma sync_step_inv:
  assumes "sync_step sync s s'" "sync_inv c s"
  shows "sync_inv c s'"
  using assms
proof (induction rule: sync_step.induct)
  case (step_evaluate s now a ctx d p' push)
  have cfg: "config p' = c" and wf: "hist_wf (hist p')"
    using evaluate_locked_spec [OF step_evaluate.hyps(4)] step_evaluate.prems by (simp_all add: sync_inv_def)
  have "log_upto (clock s) (admitted s)" using step_evaluate.prems by (simp add: sync_inv_def)
  then have "log_upto now (admitted s @ (if d = Allow \<and> policed c a
      then replicate (blast_radius a) (history_key c ctx, now) else []))"
    using step_evaluate.hyps(1) by (fastforce simp: log_upto_def)
  with evaluate_sync_inv [OF step_evaluate.prems step_evaluate.hyps] cfg wf show ?case
    by (auto simp: sync_inv_def)
next
  case (step_merge s an rows now m h')
  have c: "config (pol s) = c" and up: "log_upto (clock s) (admitted s)" and wf: "hist_wf (hist (pol s))"
    using step_merge.prems by (simp_all add: sync_inv_def)
  have mwf: "hist_wf m" using wf step_merge.hyps(3) c by (simp add: merge_rows_wf)
  have "covered c now (admitted s) h' k" if "k \<notin> lost s" "k \<notin> tracked m - tracked h'" for k
  proof -
    have "covered c (clock s) (admitted s) (hist (pol s)) k" using that(1) step_merge.prems by (simp add: sync_inv_def)
    from covered_step [OF this up step_merge.hyps(2)] merge_rows_keeps step_merge.hyps(3) c
    have "covered c now (admitted s) m k" by metis
    moreover have "window_of h' k = window_of m k"
      using that(2) evict_window_of [of k _ m] window_of_untracked [of k m] window_of_untracked [of k h']
        evict_tracked_subset [of _ m] step_merge.hyps(4) by (metis DiffI subsetD)
    ultimately show ?thesis by (simp add: covered_def)
  qed
  moreover have "log_upto now (admitted s)" using up step_merge.hyps(2) by (fastforce simp: log_upto_def)
  ultimately show ?case using c mwf evict_wf_len step_merge.hyps(4) by (auto simp: sync_inv_def)
qed (auto simp: sync_inv_def drain_pending_def)

lemma sync_reach_inv: "sync_reach sync p0 s \<Longrightarrow> hist_wf (hist p0) \<Longrightarrow> sync_inv (config p0) s"
proof (induction rule: sync_reach.induct)
  case (reach_start t0)
  then show ?case by (simp add: sync_init_def sync_inv_def covered_def log_upto_def log_of_def)
next
  case (reach_step s s')
  then show ?case by (blast intro: sync_step_inv)
qed

subsection \<open>The constructor\<close>

lemma rows_into_history_wf: "hist_wf (rows_into_history an now rows w)"
proof -
  have "hist_wf (foldl (\<lambda>h (name, timestamps).
        let instants = sort (filter (\<lambda>i. duration_since now i \<le> w) (List.map_filter (to_instant an) timestamps))
        in if instants \<noteq> [] then hist_set (Identity name) instants h else h) h rows)" if "hist_wf h" for h
    using that by (induction rows arbitrary: h) (auto simp: Let_def hist_set_wf)
  then show ?thesis by (simp add: rows_into_history_def)
qed

lemma threshold_new_config [simp]: "config (threshold_new env c) = c"
  by (simp add: threshold_new_def split: prod.splits)

lemma threshold_new_wf: "hist_wf (hist (threshold_new env c))"
  using evict_wf_len [OF rows_into_history_wf]
  by (auto simp: threshold_new_def open_state_def Let_def split: option.splits state_db_config.splits sum.splits prod.splits)

lemma threshold_new_inv: "policy_inv (threshold_new env c)"
proof -
  have "hist_len empty_history = 0" by (simp add: hist_len_def empty_history_def)
  then show ?thesis
    by (auto simp: policy_inv_def threshold_new_def open_state_def Let_def evict_wf_len rows_into_history_wf
        split: option.splits state_db_config.splits sum.splits prod.splits)
qed

lemma sync_step_policy_inv:
  assumes "sync_step sync s s'" "policy_inv (pol s)"
  shows "policy_inv (pol s') \<and> config (pol s') = config (pol s)"
  using assms
proof (induction rule: sync_step.induct)
  case (step_evaluate s now a ctx d p' push)
  with evaluate_locked_spec [OF step_evaluate.hyps(4)] show ?case by simp
next
  case (step_merge s an rows now m h')
  then have "hist_wf m" by (simp add: policy_inv_def merge_rows_wf)
  from evict_wf_len [OF this] step_merge.hyps(4) show ?case by (simp add: policy_inv_def)
qed (auto simp: policy_inv_def drain_pending_def)

lemma sync_reach_policy_inv:
  "sync_reach sync p0 s \<Longrightarrow> policy_inv p0 \<Longrightarrow> policy_inv (pol s) \<and> config (pol s) = config p0"
  by (induction rule: sync_reach.induct) (auto simp: sync_init_def dest: sync_step_policy_inv)

subsection \<open>The queue\<close>

text \<open>The admissions a list of batches stands for, and those a policy with a store has queued.\<close>

definition batch_events :: "push list \<Rightarrow> admission_log" where
  "batch_events bs = concat (map (\<lambda>(k, t, n). replicate n (k, t)) bs)"

definition queued :: "'s threshold_policy \<Rightarrow> admission_log" where
  "queued p = (case state p of None \<Rightarrow> [] | Some st \<Rightarrow> pending st)"

text \<open>What a cycle has drained and not yet given to the store, and how rows stand for admissions.\<close>

definition in_flight :: "sync_cycle \<Rightarrow> (anchor \<times> row list) list" where
  "in_flight cy = (case cy of Drained an evs \<Rightarrow> [(an, evs)] | _ \<Rightarrow> [])"

definition rows_of :: "admission_log \<Rightarrow> anchor \<times> row list \<Rightarrow> bool" where
  "rows_of log call \<longleftrightarrow> snd call = map (\<lambda>(k, i). (identity_name k, to_epoch_millis (fst call) i)) log"

definition conserved :: "'s sync_state \<Rightarrow> bool" where
  "conserved s \<longleftrightarrow> (\<exists>logs. list_all2 rows_of logs (handed s @ in_flight (cycle s))
     \<and> mset (admitted s) = mset (batch_events (unpushed s)) + mset (queued (pol s)) + mset (concat logs))"

lemma batch_events_simps [simp]:
  "batch_events [] = []" "batch_events (bs @ cs) = batch_events bs @ batch_events cs"
  "batch_events [(k, t, n)] = replicate n (k, t)"
  by (simp_all add: batch_events_def)

lemma batch_events_remove1:
  "(k, t, n) \<in> set bs \<Longrightarrow>
     mset (batch_events bs) = mset (batch_events (remove1 (k, t, n) bs)) + replicate_mset n (k, t)"
proof (induction bs)
  case (Cons b bs)
  then show ?case by (cases "b = (k, t, n)") (auto simp: batch_events_def)
qed simp

lemma drain_conserved:
  assumes "conserved s" "cycle s = Idle" "state (pol s) = Some st" "drain_pending an st = (evs, st1)"
  shows "conserved (s\<lparr>pol := (pol s)\<lparr>state := Some st1\<rparr>, cycle := Drained an evs\<rparr>)"
proof -
  from assms(1,2) obtain logs where logs: "list_all2 rows_of logs (handed s)"
      "mset (admitted s) = mset (batch_events (unpushed s)) + mset (queued (pol s)) + mset (concat logs)"
    by (auto simp: conserved_def in_flight_def)
  have "rows_of (pending st) (an, evs)" "pending st1 = []" "queued (pol s) = pending st"
    using assms(3,4) by (auto simp: drain_pending_def rows_of_def queued_def)
  with logs show ?thesis unfolding conserved_def
    by (intro exI [of _ "logs @ [pending st]"])
      (simp add: in_flight_def queued_def list_all2_appendI)
qed

lemma queue_step:
  assumes "sync_step sync s s'" "state (pol s) \<noteq> None" "conserved s"
  shows "state (pol s') \<noteq> None \<and> conserved s'"
  using assms
proof (induction rule: sync_step.induct)
  case (step_evaluate s now a ctx d p' push)
  with evaluate_locked_spec [OF step_evaluate.hyps(4)] show ?case
    by (auto simp: conserved_def queued_def)
next
  case (step_push b s)
  obtain k t n where "b = (k, t, n)" by (rule prod_cases3)
  moreover obtain st where "state (pol s) = Some st" using step_push.prems(1) by blast
  ultimately show ?case
    using step_push.prems batch_events_remove1 [of k t n "unpushed s"] step_push.hyps
    by (auto simp: conserved_def queued_def push_pending_def push_admitted_def ac_simps)
next
  case (step_drain s st an evs st1)
  with drain_conserved [OF step_drain.prems(2) step_drain.hyps(1,2,4)] show ?case by simp
qed (auto simp: conserved_def queued_def in_flight_def)

lemma queue_reach:
  "sync_reach sync p0 s \<Longrightarrow> state p0 \<noteq> None \<Longrightarrow> queued p0 = [] \<Longrightarrow> state (pol s) \<noteq> None \<and> conserved s"
proof (induction rule: sync_reach.induct)
  case (reach_start t0)
  then show ?case by (auto simp: sync_init_def conserved_def in_flight_def)
next
  case (reach_step s s')
  then show ?case by (intro queue_step [of sync s s']) simp_all
qed

lemma threshold_new_queued: "queued (threshold_new env c) = []"
  by (auto simp: queued_def threshold_new_def open_state_def Let_def
      split: option.splits state_db_config.splits sum.splits prod.splits)

subsection \<open>Concrete stores for the witnesses\<close>

definition no_faults :: "unit sql_faults" where
  "no_faults s = None"

definition begin_fails :: "unit sql_faults" where
  "begin_fails s = (if s = Begin_tx then Some () else None)"

definition demo_store :: "unit sql_faults \<Rightarrow> table \<Rightarrow> unit sqlite_store" where
  "demo_store f tbl = \<lparr>sq_faults = f, sq_tie = id, sq_table = tbl\<rparr>"

definition demo_env :: "table \<Rightarrow> (unit, unit sqlite_store) store_env" where
  "demo_env tbl = \<lparr>open_sqlite = \<lambda>path. Inr (demo_store no_faults tbl), sync_now = sqlite_sync,
     open_valkey = \<lambda>_ _ _ _. Inl (), env_anchor = \<lparr>anchor_instant = 5000000, anchor_epoch_millis = 100000\<rparr>,
     env_now = 5000000\<rparr>"

definition demo_db_config :: "nat \<Rightarrow> nat \<Rightarrow> threshold_config" where
  "demo_db_config limit cap = (demo_config PerIdentity limit cap)\<lparr>state_db := Some (Sqlite ''state.db'')\<rparr>"

definition demo_anchor :: anchor where
  "demo_anchor = \<lparr>anchor_instant = 9000000, anchor_epoch_millis = 100004\<rparr>"

text \<open>One action admitted, its call not yet at the queue; then the same action queued and drained.\<close>

lemma demo_admission:
  "\<exists>s st. sync_reach sqlite_sync (threshold_new (demo_env [(''b'', 99999)]) (demo_db_config 2 5)) s
     \<and> Identity ''a'' \<notin> lost s \<and> admitted s = [(Identity ''a'', 5000001)] \<and> unpushed s = [(Identity ''a'', 5000001, 1)]
     \<and> state (pol s) = Some st \<and> pending st = [] \<and> cycle s = Idle \<and> handed s = [] \<and> config (pol s) = demo_db_config 2 5"
proof -
  let ?c = "demo_db_config 2 5" and ?ctx = "\<lparr>ctx_identity = Identity ''a''\<rparr>"
  let ?p = "threshold_new (demo_env [(''b'', 99999)]) ?c"
  let ?s0 = "sync_init ?p 5000000"
  obtain d p' push where ev: "evaluate_locked ?p 5000001 demo_lock ?ctx = (d, p', push)" by (metis prod_cases3)
  have "fst (evaluate_locked ?p 5000001 demo_lock ?ctx) = Allow" by code_simp
  with ev have e: "evaluate_locked ?p 5000001 demo_lock ?ctx = (Allow, p', push)" by simp
  have d: "policed ?c demo_lock" "\<not> contains_key (hist ?p) (Identity ''a'')"
    "history_key ?c ?ctx = Identity ''a''" "blast_radius demo_lock = 1" by code_simp+
  have "case state ?p of None \<Rightarrow> False | Some st \<Rightarrow> pending st = []" by code_simp
  then obtain st where st: "state ?p = Some st" "pending st = []" by (auto split: option.splits)
  have "map (length \<circ> snd) (by_identity (hist ?p)) = [1]" by code_simp
  then have b: "collection_bound (hist ?p)" by (auto simp: collection_bound_def window_of_def split: option.splits dest!: map_of_SomeD)
  note loc = evaluate_locked_spec(1-3) [OF e]
  define s1 where "s1 = ?s0\<lparr>pol := p', clock := 5000001, unpushed := [(Identity ''a'', 5000001, 1)],
      admitted := [(Identity ''a'', 5000001)], lost := tracked (hist ?p) - tracked (hist p')\<rparr>"
  have "sync_step sqlite_sync ?s0 s1"
    using step_evaluate [of ?s0 5000001 demo_lock ?ctx Allow p' push sqlite_sync] e b loc d by (simp add: s1_def sync_init_def)
  then have r: "sync_reach sqlite_sync ?p s1" by (blast intro: reach_start reach_step)
  have "Identity ''a'' \<notin> lost s1" using d by (simp add: s1_def sync_init_def contains_key_tracked)
  with r st loc show ?thesis by (intro exI [of _ s1] exI [of _ st]) (simp add: s1_def sync_init_def)
qed

lemma demo_drain:
  "\<exists>s. sync_reach sqlite_sync (threshold_new (demo_env [(''b'', 99999)]) (demo_db_config 2 5)) s
     \<and> admitted s = [(Identity ''a'', 5000001)] \<and> unpushed s = [] \<and> handed s = []
     \<and> cycle s = Drained demo_anchor [(''a'', to_epoch_millis demo_anchor 5000001)]"
proof -
  let ?p = "threshold_new (demo_env [(''b'', 99999)]) (demo_db_config 2 5)" and ?b = "(Identity ''a'', 5000001, 1)"
  obtain s st where s: "sync_reach sqlite_sync ?p s" "admitted s = [(Identity ''a'', 5000001)]" "unpushed s = [?b]"
      "state (pol s) = Some st" "pending st = []" "cycle s = Idle" "handed s = []" "config (pol s) = demo_db_config 2 5"
    using demo_admission by blast
  define s1 where "s1 = s\<lparr>pol := push_admitted (Some ?b) (pol s), unpushed := []\<rparr>"
  have "sync_step sqlite_sync s s1" using step_push [of ?b s sqlite_sync] s(3) by (simp add: s1_def)
  with s(1) have r: "sync_reach sqlite_sync ?p s1" by (rule reach_step)
  have st1: "state (pol s1) = Some (st\<lparr>pending := [(Identity ''a'', 5000001)]\<rparr>)" "cycle s1 = Idle"
      "\<not> interval_panics (flush_interval (config (pol s1)))"
    using s by (auto simp: s1_def push_admitted_def push_pending_def interval_panics_def demo_db_config_def demo_config_def
        default_flush_interval_def from_secs_def)
  obtain evs st2 where dr: "drain_pending demo_anchor (st\<lparr>pending := [(Identity ''a'', 5000001)]\<rparr>) = (evs, st2)" by fastforce
  then have evs: "evs = [(''a'', to_epoch_millis demo_anchor 5000001)]" by (simp add: drain_pending_def)
  from reach_step [OF r step_drain [OF st1(2,1,3) dr]] s evs show ?thesis
    by (intro exI conjI) (assumption, simp_all add: s1_def)
qed

subsection \<open>Properties\<close>

text \<open>C5 The window budget with the background sync running: from a freshly built policy, however
  \<open>evaluate\<close> calls and the drain, failure, answer and merge steps of the sync interleave, and whatever the
  store answers and other instances do to it, no window of time ever holds more than \<open>max_per_window\<close> units admitted by this
  instance for an identity that has not been evicted.\<close>

theorem concurrent_sync_budget:
  assumes "sync_reach sync (threshold_new env c) s" "k \<notin> lost s"
  shows "length (filter (in_window (window c) t) (log_of (admitted s) k)) \<le> max_per_window c"
  using sync_reach_inv [OF assms(1) threshold_new_wf] assms(2) by (simp add: sync_inv_def covered_def)

theorem concurrent_sync_budget_witness:
  "\<exists>s. sync_reach sqlite_sync (threshold_new (demo_env [(''b'', 99999)]) (demo_db_config 2 5)) s
     \<and> length (filter (in_window (from_secs 60) 5000001) (log_of (admitted s) (Identity ''a''))) \<le> 2
     \<and> log_of (admitted s) (Identity ''a'') = [5000001]"
proof -
  obtain s where s: "sync_reach sqlite_sync (threshold_new (demo_env [(''b'', 99999)]) (demo_db_config 2 5)) s"
      "Identity ''a'' \<notin> lost s" "admitted s = [(Identity ''a'', 5000001)]"
    using demo_admission by blast
  from concurrent_sync_budget [OF s(1,2)] s(1,3) show ?thesis
    by (intro exI [of _ s]) (simp add: log_of_def demo_db_config_def demo_config_def)
qed

text \<open>C22 No admission is queued twice or forgotten on the way to the store: with a store, and however
  \<open>evaluate\<close>, the push that follows it outside the history lock, and the cycles of the sync interleave,
  every unit of every action that was allowed is in exactly one place: in a call that has not pushed yet, in
  the queue, or in the rows that one cycle drained and passes to the store's \<open>sync\<close>, once, under the name of
  its identity and with its time in milliseconds.\<close>

theorem admissions_conserved:
  assumes "sync_reach sync (threshold_new env c) s" "state (threshold_new env c) \<noteq> None"
  shows "\<exists>st logs. state (pol s) = Some st
    \<and> list_all2 (\<lambda>log (an, rows). rows = map (\<lambda>(k, i). (identity_name k, to_epoch_millis an i)) log)
        logs (handed s @ in_flight (cycle s))
    \<and> mset (admitted s) = mset (batch_events (unpushed s)) + mset (pending st) + mset (concat logs)"
proof -
  have "rows_of = (\<lambda>log (an, rows). rows = map (\<lambda>(k, i). (identity_name k, to_epoch_millis an i)) log)"
    by (simp add: fun_eq_iff rows_of_def)
  with queue_reach [OF assms threshold_new_queued] show ?thesis by (auto simp: conserved_def queued_def)
qed

theorem admissions_conserved_witness:
  "\<exists>s st. sync_reach sqlite_sync (threshold_new (demo_env [(''b'', 99999)]) (demo_db_config 2 5)) s
     \<and> admitted s = [(Identity ''a'', 5000001)] \<and> state (pol s) = Some st \<and> pending st = []
     \<and> cycle s = Drained demo_anchor [(''a'', to_epoch_millis demo_anchor 5000001)]"
proof -
  let ?p = "threshold_new (demo_env [(''b'', 99999)]) (demo_db_config 2 5)"
  obtain s where s: "sync_reach sqlite_sync ?p s" "admitted s = [(Identity ''a'', 5000001)]"
      "unpushed s = []" "handed s = []" "cycle s = Drained demo_anchor [(''a'', to_epoch_millis demo_anchor 5000001)]"
    using demo_drain by blast
  have "case state ?p of None \<Rightarrow> False | Some _ \<Rightarrow> True" by code_simp
  then have "state ?p \<noteq> None" by (auto split: option.splits)
  from admissions_conserved [OF s(1) this] s obtain st logs where st: "state (pol s) = Some st"
      "list_all2 (\<lambda>log (an, rows). rows = map (\<lambda>(k, i). (identity_name k, to_epoch_millis an i)) log) logs
         [(demo_anchor, [(''a'', to_epoch_millis demo_anchor 5000001)])]"
      "mset [(Identity ''a'', 5000001)] = mset (pending st) + mset (concat logs)"
    by (auto simp: in_flight_def)
  from st(2) obtain e where "logs = [[e]]" by (auto simp: list_all2_Cons2)
  with st(3) have "pending st = []" by (cases "pending st") auto
  with s st show ?thesis by blast
qed

text \<open>With \<open>flush_interval_secs = 0\<close> nothing is ever stored or read back, however long the process runs:
  the queue only grows.\<close>

theorem zero_flush_interval_never_syncs:
  assumes "flush_interval (config p) = 0"
  shows "spawn_background_sync sync ticks p = p"
    and "sync_reach sync p s \<Longrightarrow> cycle s = Idle \<and> handed s = [] \<and> config (pol s) = config p"
proof -
  show "spawn_background_sync sync ticks p = p" using assms by (simp add: spawn_background_sync_def interval_panics_def)
  show "cycle s = Idle \<and> handed s = [] \<and> config (pol s) = config p" if "sync_reach sync p s"
    using that
  proof (induction rule: sync_reach.induct)
    case (reach_step s s')
    from reach_step.hyps(2) reach_step.IH assms show ?case
      by (cases rule: sync_step.cases) (auto simp: interval_panics_def dest: evaluate_locked_spec(1))
  qed (simp add: sync_init_def)
qed

text \<open>C20 The history is well typed at every moment: from the constructor on, under any interleaving of
  \<open>evaluate\<close> with the sync and whatever rows the store answers with, the map has one window per
  identity, the activity index is in order with no entry twice and holds every tracked identity, and the
  map is within its bound.\<close>

theorem history_well_typed:
  assumes "sync_reach sync (threshold_new env c) s"
  shows "distinct (map fst (by_identity (hist (pol s)))) \<and> sorted (by_activity (hist (pol s)))
    \<and> distinct (by_activity (hist (pol s))) \<and> tracked (hist (pol s)) \<subseteq> snd ` set (by_activity (hist (pol s)))
    \<and> hist_len (hist (pol s)) \<le> max 1 (max_tracked_identities c) \<and> config (pol s) = c"
proof -
  have "policy_inv (threshold_new env c)" by (rule threshold_new_inv)
  from sync_reach_policy_inv [OF assms this] have "policy_inv (pol s)" "config (pol s) = config (threshold_new env c)" by simp_all
  moreover have "tracked (hist (pol s)) \<subseteq> snd ` set (by_activity (hist (pol s)))"
    using calculation(1) by (force simp: policy_inv_def hist_wf_def)
  ultimately show ?thesis by (simp add: policy_inv_def hist_wf_def)
qed

theorem history_well_typed_witness:
  "\<exists>s. sync_reach sqlite_sync (threshold_new (demo_env [(''b'', 99999)]) (demo_db_config 2 5)) s
     \<and> hist_len (hist (pol s)) = 1 \<and> hist_len (hist (pol s)) \<le> 5"
proof -
  let ?p = "threshold_new (demo_env [(''b'', 99999)]) (demo_db_config 2 5)"
  have r: "sync_reach sqlite_sync ?p (sync_init ?p 0)" by (rule reach_start)
  have "hist_len (hist (pol (sync_init ?p 0))) = 1" by code_simp
  moreover have "max_tracked_identities (demo_db_config 2 5) = 5" by code_simp
  ultimately show ?thesis using history_well_typed [OF r] r by fastforce
qed

text \<open>C26 Folding a snapshot is safe: whatever the store answered, the history stays well formed and
  within the cap, and every identity it still tracks afterwards keeps all of its own admissions that are inside
  the window. The fold loses such admissions only by an eviction over the cap: while the identities of the
  history and of the snapshot together are at most \<open>max_tracked_identities\<close>, every identity keeps them.\<close>

theorem fold_snapshot_safe:
  assumes "hist_wf h"
  shows "hist_wf (fold_snapshot c an now rows h)
    \<and> hist_len (fold_snapshot c an now rows h) \<le> max_tracked_identities c
    \<and> (\<forall>k. k \<in> tracked (fold_snapshot c an now rows h)
            \<or> card (tracked h \<union> Identity ` fst ` set rows) \<le> max_tracked_identities c \<longrightarrow>
         filter_mset (\<lambda>i. duration_since now i \<le> window c) (mset (window_of h k))
           \<subseteq># mset (window_of (fold_snapshot c an now rows h) k))"
proof -
  note wf = merge_rows_wf [OF assms, of an now rows "window c"]
  let ?m = "merge_history_from_rows h an now rows (window c)"
  have "evict_stalest_until (max_tracked_identities c) ?m = ?m"
    if "card (tracked h \<union> Identity ` fst ` set rows) \<le> max_tracked_identities c"
    using card_mono [OF _ merge_rows_tracked [of h an now rows "window c"]] that
    by (simp add: hist_len_tracked [OF wf] evict_noop)
  then show ?thesis
    using evict_wf_len [OF wf, of "max_tracked_identities c"] merge_rows_keeps [of now "window c" h _ an rows]
      evict_window_of [of _ "max_tracked_identities c" ?m]
    by (auto simp: fold_snapshot_def)
qed

theorem fold_snapshot_safe_witness:
  "let h = hist_set (Identity ''a'') [8000000] empty_history;
       h' = fold_snapshot (demo_db_config 2 1) demo_anchor 9000000 [(''b'', [100000])] h
   in hist_wf h' \<and> hist_len h' \<le> 1 \<and> contains_key h' (Identity ''a'')"
proof -
  let ?h = "hist_set (Identity ''a'') [8000000] empty_history"
  have "hist_wf ?h" by (simp add: hist_set_wf)
  note safe = fold_snapshot_safe [OF this, of "demo_db_config 2 1" demo_anchor 9000000 "[(''b'', [100000])]"]
  have "contains_key (fold_snapshot (demo_db_config 2 1) demo_anchor 9000000 [(''b'', [100000])] ?h)
      (Identity ''a'')" by code_simp
  with safe show ?thesis by (simp add: demo_db_config_def demo_config_def)
qed

text \<open>Events of one identity that another instance recorded in the same millisecond are counted
  once: a snapshot with three of them adds one entry to the window.\<close>

theorem merge_collapses_same_millisecond:
  "window_of (merge_history_from_rows empty_history an now [(name, replicate (Suc n) ms)] w) (Identity name)
     = (case to_instant an ms of None \<Rightarrow> [] | Some i \<Rightarrow> if duration_since now i \<le> w then [i] else [])"
proof -
  have seen: "merge_loop an now w (replicate m ms) (ms # seen) merged = merged" for m seen merged
    by (induction m) simp_all
  have skip: "merge_loop an now w (replicate m ms) [] merged = merged"
    if "to_instant an ms = None \<or> (\<exists>i. to_instant an ms = Some i \<and> \<not> duration_since now i \<le> w)" for m merged
    using that by (induction m) (auto split: option.splits)
  show ?thesis
    by (auto simp: merge_history_from_rows_def merge_identity_eq merged_window_def seen skip split: option.splits)
qed

text \<open>An admission that has been written to the store can be counted twice: two sync cycles whose
  anchors truncate the wall clock differently give the same instant two different millisecond values,
  so the merge of the later cycle does not recognise its own event. (The comment on
  \<open>merge_history_from_rows\<close> says such an event round-trips to the identical value.)\<close>

theorem merge_double_counts_flushed_event:
  "let an1 = anchor_now 10000000 1000900000; an2 = anchor_now 15300000 1006200000;
       c = demo_db_config 2 5;
       h = record_admitted (Identity ''a'') 9500000 1 (ensure (Identity ''a'') empty_history);
       tbl = [(''a'', to_epoch_millis an1 9500000)]
   in (case fst (sqlite_sync (demo_store no_faults tbl) [] (epoch_millis_before an2 (window c)) 5) of
         Inl e \<Rightarrow> False
       | Inr rows \<Rightarrow> window_of (fold_snapshot c an2 15300000 rows h) (Identity ''a'') = [9300000, 9500000])"
  by code_simp

text \<open>A failed sync loses what it drained: when the database reports an error the queue has
  already been emptied, the table is what it was, and the history is untouched.\<close>

theorem failed_sync_drops_drained_events:
  assumes "state p = Some st"
    and "fst (sqlite_sync (store st) (fst (drain_pending an st))
           (epoch_millis_before an (window (config p))) (max_tracked_identities (config p))) = Inl e"
  shows "\<exists>st'. state (sync_once sqlite_sync an now p) = Some st' \<and> pending st' = []
           \<and> sq_table (store st') = sq_table (store st) \<and> hist (sync_once sqlite_sync an now p) = hist p"
  using assms
  by (auto simp: sync_once_def drain_pending_def sqlite_sync_def blocking_sync_def Let_def
      split: prod.splits sum.splits)

theorem failed_sync_drops_drained_events_witness:
  "let p = \<lparr>config = demo_db_config 2 5, hist = empty_history,
            state = Some \<lparr>store = demo_store begin_fails [], pending = [(Identity ''a'', 8000000)]\<rparr>\<rparr>
   in \<exists>st'. state (sync_once sqlite_sync demo_anchor 9000000 p) = Some st' \<and> pending st' = []
        \<and> sq_table (store st') = []"
proof -
  let ?st = "\<lparr>store = demo_store begin_fails [], pending = [(Identity ''a'', 8000000)]\<rparr>"
  let ?p = "\<lparr>config = demo_db_config 2 5, hist = empty_history, state = Some ?st\<rparr>"
  have "fst (sqlite_sync (store ?st) (fst (drain_pending demo_anchor ?st))
           (epoch_millis_before demo_anchor (window (config ?p))) (max_tracked_identities (config ?p))) = Inl ()"
    by code_simp
  from failed_sync_drops_drained_events [of ?p ?st, OF _ this, of 9000000] show ?thesis
    by (auto simp: demo_store_def)
qed

subsection \<open>Warm start\<close>








end
