(* ===== verification/Policy_Config.thy ===== *)
theory Policy_Config
  imports Config Threshold_Sync
begin

text \<open>
  Policy files (core/policy/config.rs and the \<open>serde\<close> attributes of \<open>ThresholdConfig\<close> in
  core/policy/threshold.rs): the ordered list of \<open>[[policy]]\<close> tables, each tagged by its \<open>type\<close>, and how an
  entry becomes a running policy.
\<close>

subsection \<open>Deserializing a threshold policy\<close>

definition deserialize_secs :: "toml \<Rightarrow> de_error + duration" where
  "deserialize_secs v = res_bind (de_u64 v) (\<lambda>s. Inr (from_secs s))"

definition operation_names :: "(string \<times> operation_kind) list" where
  "operation_names = [(''account_lock'', AccountLock), (''account_unlock'', AccountUnlock), (''delete'', Delete),
     (''create'', Create), (''password_reset'', PasswordReset), (''rename'', Rename)]"

definition scope_names :: "(string \<times> threshold_scope) list" where
  "scope_names = [(''per_identity'', PerIdentity), (''global'', Global)]"

definition de_valkey_client_cert :: "toml \<Rightarrow> de_error + valkey_client_cert_config" where
  "de_valkey_client_cert = de_table (\<lambda>t.
     res_bind (field ''cert_file'' de_string t) (\<lambda>c.
     res_bind (field ''key_file'' de_string t) (\<lambda>k.
     Inr \<lparr>vk_cert_file = c, vk_key_file = k\<rparr>)))"

definition de_valkey_state_db :: "toml \<Rightarrow> de_error + valkey_state_db_config" where
  "de_valkey_state_db = de_table (\<lambda>t.
     res_bind (field ''url'' de_string t) (\<lambda>u.
     res_bind (field_default ''key_prefix'' default_valkey_key_prefix de_string t) (\<lambda>kp.
     res_bind (field_opt ''ca_file'' de_string t) (\<lambda>ca.
     res_bind (field_opt ''client_cert'' de_valkey_client_cert t) (\<lambda>cc.
     res_bind (field_opt ''username'' de_string t) (\<lambda>us.
     res_bind (field_opt ''password'' de_string t) (\<lambda>pw.
     Inr \<lparr>vk_url = u, vk_key_prefix = kp, vk_ca_file = ca, vk_client_cert = cc, vk_username = us, vk_password = pw\<rparr>)))))))"

text \<open>An untagged enum: the first variant that the value fits.\<close>

definition de_state_db :: "toml \<Rightarrow> de_error + state_db_config" where
  "de_state_db v =
     (case de_string v of
        Inr path \<Rightarrow> Inr (Sqlite path)
      | Inl _ \<Rightarrow>
          (case de_valkey_state_db v of
             Inr vk \<Rightarrow> Inr (Valkey vk)
           | Inl _ \<Rightarrow> Inl (Custom ''data did not match any variant of untagged enum StateDbConfig'')))"

definition de_threshold_config :: "(string \<times> toml) list \<Rightarrow> de_error + threshold_config" where
  "de_threshold_config t =
     res_bind (field ''max_per_request'' de_u64 t) (\<lambda>mr.
     res_bind (field ''max_per_window'' de_u64 t) (\<lambda>mw.
     res_bind (field_default ''scope'' PerIdentity (de_variant scope_names) t) (\<lambda>sc.
     res_bind (field ''window_secs'' deserialize_secs t) (\<lambda>w.
     res_bind (field_opt ''state_db'' de_state_db t) (\<lambda>db.
     res_bind (field_default ''flush_interval_secs'' default_flush_interval deserialize_secs t) (\<lambda>fi.
     res_bind (field_default ''max_tracked_identities'' default_max_tracked_identities de_u64 t) (\<lambda>mt.
     res_bind (field_opt ''operations'' (de_array (de_variant operation_names)) t) (\<lambda>ops.
     Inr \<lparr>max_per_request = mr, max_per_window = mw, scope = sc, window = w, state_db = db,
          flush_interval = fi, max_tracked_identities = mt, operations = ops\<rparr>))))))))"

subsection \<open>The policy file\<close>

datatype 'pe policy_config_error = PolicyRead string io_error | PolicyParse string 'pe

datatype policy_entry = ThresholdEntry threshold_config

definition de_policy_entry :: "toml \<Rightarrow> de_error + policy_entry" where
  "de_policy_entry = de_table (\<lambda>t.
     res_bind (field ''type'' de_string t) (\<lambda>ty.
       if ty = ''threshold'' then res_bind (de_threshold_config t) (\<lambda>c. Inr (ThresholdEntry c))
       else Inl (Unknown_variant ty)))"

definition de_policy_file :: "toml \<Rightarrow> de_error + policy_entry list" where
  "de_policy_file = de_table (field_default ''policy'' [] (de_array de_policy_entry))"

text \<open>\<open>PolicyEntry::build\<close>: the policy, and whether its background sync was started.\<close>

definition build_entry :: "('e, 's) store_env \<Rightarrow> policy_entry \<Rightarrow> 's threshold_policy \<times> bool" where
  "build_entry env entry =
     (case entry of ThresholdEntry c \<Rightarrow> (let p = threshold_new env c in (p, spawns_task p)))"

definition policies_parse ::
  "(string \<Rightarrow> 'pe + toml) \<Rightarrow> (nat \<Rightarrow> ('e, 's) store_env) \<Rightarrow> string
     \<Rightarrow> 'pe toml_error + ('s threshold_policy \<times> bool) list" where
  "policies_parse parse envs raw =
     res_bind (from_str parse de_policy_file raw) (\<lambda>entries.
       Inr (map (\<lambda>(n, e). build_entry (envs n) e) (enumerate 0 entries)))"

definition policies_load ::
  "(string \<Rightarrow> io_error + string) \<Rightarrow> (string \<Rightarrow> 'pe + toml) \<Rightarrow> (nat \<Rightarrow> ('e, 's) store_env) \<Rightarrow> string
     \<Rightarrow> 'pe toml_error policy_config_error + ('s threshold_policy \<times> bool) list" where
  "policies_load fs_read parse envs path =
     res_bind (map_err (PolicyRead path) (fs_read path)) (\<lambda>raw.
     map_err (PolicyParse path) (policies_parse parse envs raw))"

subsection \<open>What a policy table says\<close>

definition secs_field :: "(string \<times> toml) list \<Rightarrow> string \<Rightarrow> nat option \<Rightarrow> duration \<Rightarrow> bool" where
  "secs_field t name d w \<longleftrightarrow>
     (\<exists>n. w = n * 1000000000
       \<and> (case map_of t name of None \<Rightarrow> d = Some n | Some v \<Rightarrow> v = TomlInt (int n) \<and> n < 2 ^ 64))"

definition name_of_operation :: "operation_kind \<Rightarrow> string" where
  "name_of_operation k = (case k of AccountLock \<Rightarrow> ''account_lock'' | AccountUnlock \<Rightarrow> ''account_unlock'' | Delete \<Rightarrow> ''delete''
     | Create \<Rightarrow> ''create'' | PasswordReset \<Rightarrow> ''password_reset'' | Rename \<Rightarrow> ''rename'')"

definition valkey_says :: "(string \<times> toml) list \<Rightarrow> valkey_state_db_config \<Rightarrow> bool" where
  "valkey_says t v \<longleftrightarrow> string_field t ''url'' (Some (vk_url v))
     \<and> (case map_of t ''key_prefix'' of None \<Rightarrow> vk_key_prefix v = ''ai_protect:threshold'' | Some x \<Rightarrow> x = TomlString (vk_key_prefix v))
     \<and> string_field t ''ca_file'' (vk_ca_file v)
     \<and> table_field t ''client_cert'' (\<lambda>u c. string_field u ''cert_file'' (Some (vk_cert_file c))
          \<and> string_field u ''key_file'' (Some (vk_key_file c))) (vk_client_cert v)
     \<and> string_field t ''username'' (vk_username v) \<and> string_field t ''password'' (vk_password v)"

definition state_db_says :: "toml \<Rightarrow> state_db_config \<Rightarrow> bool" where
  "state_db_says v db \<longleftrightarrow>
     (case db of Sqlite path \<Rightarrow> v = TomlString path | Valkey k \<Rightarrow> \<exists>t. v = TomlTable t \<and> valkey_says t k)"

definition threshold_says :: "toml \<Rightarrow> threshold_config \<Rightarrow> bool" where
  "threshold_says v c \<longleftrightarrow> (\<exists>t. v = TomlTable t
     \<and> map_of t ''type'' = Some (TomlString ''threshold'')
     \<and> map_of t ''max_per_request'' = Some (TomlInt (int (max_per_request c))) \<and> max_per_request c < 2 ^ 64
     \<and> map_of t ''max_per_window'' = Some (TomlInt (int (max_per_window c))) \<and> max_per_window c < 2 ^ 64
     \<and> (case map_of t ''scope'' of None \<Rightarrow> scope c = PerIdentity
          | Some x \<Rightarrow> x = TomlString (case scope c of PerIdentity \<Rightarrow> ''per_identity'' | Global \<Rightarrow> ''global''))
     \<and> secs_field t ''window_secs'' None (window c)
     \<and> (case map_of t ''state_db'' of None \<Rightarrow> state_db c = None | Some x \<Rightarrow> \<exists>db. state_db c = Some db \<and> state_db_says x db)
     \<and> secs_field t ''flush_interval_secs'' (Some 2) (flush_interval c)
     \<and> int_field t ''max_tracked_identities'' 100000 (max_tracked_identities c)
     \<and> (case map_of t ''operations'' of None \<Rightarrow> operations c = None
          | Some x \<Rightarrow> \<exists>vs ops. x = TomlArray vs \<and> operations c = Some ops
              \<and> list_all2 (\<lambda>y k. y = TomlString (name_of_operation k)) vs ops))"

lemma field_u64_says:
  "field name de_u64 t = Inr n \<Longrightarrow> map_of t name = Some (TomlInt (int n)) \<and> n < 2 ^ 64"
  by (auto simp: field_def de_u64_def split: option.splits toml.splits if_splits)

lemma field_secs_says:
  "field name deserialize_secs t = Inr w \<Longrightarrow> secs_field t name None w"
  "field_default name (from_secs d) deserialize_secs t = Inr w \<Longrightarrow> secs_field t name (Some d) w"
  by (auto simp: field_def field_default_def deserialize_secs_def de_u64_def secs_field_def from_secs_def res_simps
      split: option.splits toml.splits if_splits)

lemma de_valkey_says: "de_valkey_state_db v = Inr k \<Longrightarrow> \<exists>t. v = TomlTable t \<and> valkey_says t k"
proof -
  assume "de_valkey_state_db v = Inr k"
  then obtain t u kp ca cc us pw where v: "v = TomlTable t" and f: "field ''url'' de_string t = Inr u"
      "field_default ''key_prefix'' default_valkey_key_prefix de_string t = Inr kp" "field_opt ''ca_file'' de_string t = Inr ca"
      "field_opt ''client_cert'' de_valkey_client_cert t = Inr cc" "field_opt ''username'' de_string t = Inr us"
      "field_opt ''password'' de_string t = Inr pw"
    and k: "k = \<lparr>vk_url = u, vk_key_prefix = kp, vk_ca_file = ca, vk_client_cert = cc, vk_username = us, vk_password = pw\<rparr>"
    unfolding de_valkey_state_db_def de_table_Inr res_bind_eq_Inr by blast
  have "case map_of t ''key_prefix'' of None \<Rightarrow> kp = ''ai_protect:threshold'' | Some x \<Rightarrow> x = TomlString kp"
    using f(2) by (auto simp: field_default_def default_valkey_key_prefix_def de_string_def split: option.splits toml.splits)
  moreover have "table_field t ''client_cert'' (\<lambda>u c. string_field u ''cert_file'' (Some (vk_cert_file c))
          \<and> string_field u ''key_file'' (Some (vk_key_file c))) cc"
    by (rule field_opt_table [OF f(4)]) (auto simp: de_valkey_client_cert_def de_table_Inr res_simps dest!: says_dests)
  moreover have kf: "vk_url k = u" "vk_key_prefix k = kp" "vk_ca_file k = ca" "vk_client_cert k = cc" "vk_username k = us"
    "vk_password k = pw" by (simp_all add: k)
  ultimately show ?thesis
    using v field_string [OF f(1)] f(3,5,6) [THEN field_opt_string] unfolding valkey_says_def kf by blast
qed

lemma de_state_db_says: "de_state_db v = Inr db \<Longrightarrow> state_db_says v db"
  by (auto simp: de_state_db_def de_string_def state_db_says_def split: sum.splits toml.splits dest: de_valkey_says)

lemma de_operation_says: "de_variant operation_names v = Inr k \<Longrightarrow> v = TomlString (name_of_operation k)"
  by (auto simp: de_variant_def operation_names_def de_string_def name_of_operation_def res_simps
      split: toml.splits option.splits if_splits)

lemma de_policy_entry_says:
  assumes "de_policy_entry v = Inr (ThresholdEntry c)"
  shows "threshold_says v c"
proof -
  from assms obtain t mr mw sc w db fi mt ops where v: "v = TomlTable t" and ty: "field ''type'' de_string t = Inr ''threshold''"
    and f: "field ''max_per_request'' de_u64 t = Inr mr" "field ''max_per_window'' de_u64 t = Inr mw"
      "field_default ''scope'' PerIdentity (de_variant scope_names) t = Inr sc" "field ''window_secs'' deserialize_secs t = Inr w"
      "field_opt ''state_db'' de_state_db t = Inr db"
      "field_default ''flush_interval_secs'' default_flush_interval deserialize_secs t = Inr fi"
      "field_default ''max_tracked_identities'' default_max_tracked_identities de_u64 t = Inr mt"
      "field_opt ''operations'' (de_array (de_variant operation_names)) t = Inr ops"
    and c: "c = \<lparr>max_per_request = mr, max_per_window = mw, scope = sc, window = w, state_db = db,
          flush_interval = fi, max_tracked_identities = mt, operations = ops\<rparr>"
    unfolding de_policy_entry_def de_threshold_config_def de_table_Inr res_bind_eq_Inr
    by (fastforce split: if_splits simp: res_simps)
  have "case map_of t ''scope'' of None \<Rightarrow> sc = PerIdentity
      | Some x \<Rightarrow> x = TomlString (case sc of PerIdentity \<Rightarrow> ''per_identity'' | Global \<Rightarrow> ''global'')"
    using f(3) by (auto simp: field_default_def de_variant_def scope_names_def de_string_def res_simps
        split: option.splits toml.splits if_splits)
  moreover have "case map_of t ''state_db'' of None \<Rightarrow> db = None | Some x \<Rightarrow> \<exists>y. db = Some y \<and> state_db_says x y"
    using f(5) by (cases "map_of t ''state_db''") (auto simp: field_opt_def res_simps dest: de_state_db_says)
  moreover have "case map_of t ''operations'' of None \<Rightarrow> ops = None
      | Some x \<Rightarrow> \<exists>vs ks. x = TomlArray vs \<and> ops = Some ks \<and> list_all2 (\<lambda>y k. y = TomlString (name_of_operation k)) vs ks"
    using f(8) by (cases "map_of t ''operations''")
      (auto simp: field_opt_def de_array_def res_simps split: toml.splits intro: de_list_says de_operation_says)
  moreover have "map_of t ''type'' = Some (TomlString ''threshold'')" using field_string [OF ty] by (simp add: string_field_def)
  moreover have cf: "max_per_request c = mr" "max_per_window c = mw" "scope c = sc" "window c = w" "state_db c = db"
    "flush_interval c = fi" "max_tracked_identities c = mt" "operations c = ops" by (simp_all add: c)
  ultimately show ?thesis
    using v f(1,2) [THEN field_u64_says] field_secs_says(1) [OF f(4)]
      field_secs_says(2) [OF f(6) [unfolded default_flush_interval_def]]
      field_default_u64 [OF f(7) [unfolded default_max_tracked_identities_def]]
    unfolding threshold_says_def cf by (intro exI [of _ t] conjI) simp_all
qed

subsection \<open>Documents for the examples\<close>

definition opt_field :: "string \<Rightarrow> ('a \<Rightarrow> toml) \<Rightarrow> 'a option \<Rightarrow> (string \<times> toml) list" where
  "opt_field name f x = (case x of None \<Rightarrow> [] | Some v \<Rightarrow> [(name, f v)])"

definition toml_of_state_db :: "state_db_config \<Rightarrow> toml" where
  "toml_of_state_db db =
     (case db of
        Sqlite path \<Rightarrow> TomlString path
      | Valkey v \<Rightarrow> TomlTable
          ([(''url'', TomlString (vk_url v)), (''key_prefix'', TomlString (vk_key_prefix v))]
           @ opt_field ''ca_file'' TomlString (vk_ca_file v)
           @ opt_field ''client_cert'' (\<lambda>c. TomlTable [(''cert_file'', TomlString (vk_cert_file c)),
                                                       (''key_file'', TomlString (vk_key_file c))]) (vk_client_cert v)
           @ opt_field ''username'' TomlString (vk_username v)
           @ opt_field ''password'' TomlString (vk_password v)))"

definition toml_of_threshold :: "threshold_config \<Rightarrow> (string \<times> toml) list" where
  "toml_of_threshold c =
     [(''type'', TomlString ''threshold''),
      (''max_per_request'', TomlInt (int (max_per_request c))),
      (''max_per_window'', TomlInt (int (max_per_window c))),
      (''scope'', TomlString (case scope c of PerIdentity \<Rightarrow> ''per_identity'' | Global \<Rightarrow> ''global'')),
      (''window_secs'', TomlInt (int (window c div 1000000000))),
      (''flush_interval_secs'', TomlInt (int (flush_interval c div 1000000000))),
      (''max_tracked_identities'', TomlInt (int (max_tracked_identities c)))]
     @ opt_field ''state_db'' toml_of_state_db (state_db c)
     @ opt_field ''operations'' (\<lambda>ops. TomlArray (map (TomlString \<circ> name_of_operation) ops)) (operations c)"

subsection \<open>Properties\<close>

text \<open>C38 Policies are what their file says: a file that loads gives one policy per \<open>[[policy]]\<close> table, in
  their order. Each has the limits, the window, the scope, the filter and the store of its table, a field that
  is left out has its documented default (per identity, no store, flushed every 2 seconds, 100000
  identities, all operations), and a background task is spawned for exactly those that have a store
  open.\<close>

theorem policies_are_the_file:
  assumes "policies_load fs_read parse envs path = Inr ps"
  shows "\<exists>raw doc tables. fs_read path = Inr raw \<and> parse raw = Inr (TomlTable doc)
    \<and> (case map_of doc ''policy'' of None \<Rightarrow> tables = [] | Some v \<Rightarrow> v = TomlArray tables)
    \<and> list_all2 (\<lambda>v (p, started). threshold_says v (config p) \<and> (started \<longleftrightarrow> state p \<noteq> None)) tables ps"
proof -
  from assms obtain raw doc entries where raw: "fs_read path = Inr raw" "parse raw = Inr (TomlTable doc)"
    and e: "field_default ''policy'' [] (de_array de_policy_entry) doc = Inr entries"
    and ps: "ps = map (\<lambda>(n, e). build_entry (envs n) e) (enumerate 0 entries)"
    by (auto simp: policies_load_def policies_parse_def from_str_def de_policy_file_def de_table_Inr res_simps)
  obtain tables where t: "case map_of doc ''policy'' of None \<Rightarrow> tables = [] | Some v \<Rightarrow> v = TomlArray tables"
    and l: "de_list de_policy_entry tables = Inr entries"
    using e by (cases "map_of doc ''policy''") (auto simp: field_default_def de_array_def split: toml.splits)
  have says: "list_all2 (\<lambda>v e. de_policy_entry v = Inr e) tables entries" by (rule de_list_says [OF l])
  have "list_all2 (\<lambda>v (p, started). threshold_says v (config p) \<and> (started \<longleftrightarrow> state p \<noteq> None)) tables ps"
  proof (rule list_all2_all_nthI)
    show "length tables = length ps" using list_all2_lengthD [OF says] by (simp add: ps)
  next
    fix n assume n: "n < length tables"
    then have "de_policy_entry (tables ! n) = Inr (entries ! n)" "n < length entries"
      using says by (auto simp: list_all2_conv_all_nth)
    then show "case ps ! n of (p, started) \<Rightarrow> threshold_says (tables ! n) (config p) \<and> (started \<longleftrightarrow> state p \<noteq> None)"
      by (cases "entries ! n")
        (simp add: ps nth_enumerate_eq build_entry_def Let_def spawns_task_def de_policy_entry_says)
  qed
  with raw t show ?thesis by blast
qed

definition demo_policy_file :: "(string \<times> toml) list" where
  "demo_policy_file = [(''policy'', TomlArray [TomlTable (toml_of_threshold (demo_config Global 7 5)),
     TomlTable (toml_of_threshold (demo_db_config 2 5))])]"

theorem policies_are_the_file_witness:
  "\<exists>p q. policies_load (\<lambda>_. Inr ''f'') (\<lambda>_. Inr (TomlTable demo_policy_file) :: unit + toml) (\<lambda>_. demo_env []) ''p''
       = Inr [(p, False), (q, True)] \<and> max_per_window (config p) = 7 \<and> max_per_window (config q) = 2"
proof -
  let ?load = "policies_load (\<lambda>_. Inr ''f'') (\<lambda>_. Inr (TomlTable demo_policy_file) :: unit + toml) (\<lambda>_. demo_env []) ''p''"
  have "is_ok ?load" "map snd (projr ?load) = [False, True]" by code_simp+
  then obtain ps where ps: "?load = Inr ps" "map snd ps = [False, True]" by (auto simp: is_ok_def split: sum.splits)
  then obtain p q where pq: "ps = [(p, False), (q, True)]" by (cases ps; cases "tl ps") auto
  from policies_are_the_file [OF ps(1)] ps(1) pq show ?thesis
    by (auto simp: demo_policy_file_def list_all2_Cons2 threshold_says_def toml_of_threshold_def demo_config_def demo_db_config_def)
qed

text \<open>A file without a \<open>[[policy]]\<close> table loads: fields that are not known are ignored and the list
  defaults to empty, so that a file with its tables misnamed gives a chain that allows every action.\<close>

theorem policy_file_without_entries_allows_all:
  assumes "fs_read path = Inr raw" "parse raw = Inr (TomlTable t)" "map_of t ''policy'' = None"
  shows "\<exists>ps. policies_load fs_read parse envs path = Inr ps
           \<and> evaluate_all evaluate clk (map fst ps) a ctx = (Allow, [])"
  using assms by (auto simp: policies_load_def policies_parse_def from_str_def de_policy_file_def de_table_def field_default_def)

theorem policy_file_without_entries_allows_all_witness:
  "\<exists>ps. policies_load (\<lambda>_. Inr ''f'') (\<lambda>_. Inr (TomlTable [(''policies'', TomlArray [])]) :: unit + toml)
          (\<lambda>_. demo_env []) ''p'' = Inr ps
     \<and> evaluate_all evaluate (\<lambda>_. 0) (map fst ps) demo_lock \<lparr>ctx_identity = Identity ''a''\<rparr> = (Allow, [])"
  by (rule policy_file_without_entries_allows_all [where raw = "''f''" and t = "[(''policies'', TomlArray [])]"]) simp_all

end
