(* ===== verification/Tls.thy ===== *)
theory Tls
  imports Connector
begin

text \<open>
  TLS settings of both hops (core/tls.rs): which certificates are trusted, which are presented, and how
  each failure is reported.

  The file system, the PEM reader and \<open>rustls\<close> are parameters, the record \<open>tls_lib\<close>. A client or server
  configuration is what it was built from: its roots, and its certificate chain with the key.
\<close>

subsection \<open>Errors\<close>

datatype 'x pem_error = NoItemsFound | OtherPem 'x

datatype 'x tls_error =
    OpenCert string io_error
  | ParseCert string "'x pem_error"
  | OpenKey string io_error
  | ParseKey string "'x pem_error"
  | NoPrivateKey string
  | AddCustomCa 'x
  | AddNativeCa 'x
  | ClientAuthCert 'x
  | AddClientCa 'x
  | ClientCertVerifier 'x
  | InvalidServerName string 'x
  | ServerConfig 'x
  | TlsConnect io_error
  | TlsAccept io_error

subsection \<open>The library\<close>

record ('cert, 'key, 'x) tls_lib =
  open_file :: "string \<Rightarrow> io_error + octets"
  pem_certs :: "octets \<Rightarrow> ('x pem_error + 'cert) list"
  pem_key :: "octets \<Rightarrow> 'x pem_error + 'key"
  root_add :: "'cert \<Rightarrow> 'x + 'cert"
  native_certs :: "'cert list"
  client_auth_cert :: "'cert list \<Rightarrow> 'key \<Rightarrow> 'x + ('cert list \<times> 'key)"
  server_name_of :: "string \<Rightarrow> 'x + string"
  build_verifier :: "'cert list \<Rightarrow> 'x + 'cert list"
  single_cert :: "'cert list \<Rightarrow> 'key \<Rightarrow> 'x + ('cert list \<times> 'key)"

text \<open>\<open>collect\<close> of an iterator of results: the first error, or all values.\<close>

fun collect_results :: "('e + 'a) list \<Rightarrow> 'e + 'a list" where
  "collect_results [] = Inr []"
| "collect_results (r # rs) = res_bind r (\<lambda>x. res_bind (collect_results rs) (\<lambda>xs. Inr (x # xs)))"

definition load_certs :: "('cert, 'key, 'x) tls_lib \<Rightarrow> string \<Rightarrow> 'x tls_error + 'cert list" where
  "load_certs lib path =
     res_bind (map_err (OpenCert path) (open_file lib path)) (\<lambda>file.
     map_err (ParseCert path) (collect_results (pem_certs lib file)))"

definition load_key :: "('cert, 'key, 'x) tls_lib \<Rightarrow> string \<Rightarrow> 'x tls_error + 'key" where
  "load_key lib path =
     res_bind (map_err (OpenKey path) (open_file lib path)) (\<lambda>file.
     case pem_key lib file of
       Inr key \<Rightarrow> Inr key
     | Inl NoItemsFound \<Rightarrow> Inl (NoPrivateKey path)
     | Inl source \<Rightarrow> Inl (ParseKey path source))"

fun add_roots :: "('cert, 'key, 'x) tls_lib \<Rightarrow> ('x \<Rightarrow> 'x tls_error) \<Rightarrow> 'cert list \<Rightarrow> 'cert list \<Rightarrow> 'x tls_error + 'cert list" where
  "add_roots lib err roots [] = Inr roots"
| "add_roots lib err roots (cert # certs) =
     res_bind (map_err err (root_add lib cert)) (\<lambda>c. add_roots lib err (roots @ [c]) certs)"

subsection \<open>The hop to the directory\<close>

record ('cert, 'key) client_config =
  cl_roots :: "'cert list"
  cl_auth :: "('cert list \<times> 'key) option"

record ('cert, 'key) upstream_tls =
  up_config :: "('cert, 'key) client_config"
  up_server_name :: string

definition upstream_roots :: "('cert, 'key, 'x) tls_lib \<Rightarrow> string option \<Rightarrow> 'x tls_error + 'cert list" where
  "upstream_roots lib ca_file =
     (case ca_file of
        Some path \<Rightarrow> res_bind (load_certs lib path) (add_roots lib AddCustomCa [])
      | None \<Rightarrow> add_roots lib AddNativeCa [] (native_certs lib))"

definition upstream_tls_new ::
  "('cert, 'key, 'x) tls_lib \<Rightarrow> string \<Rightarrow> string option \<Rightarrow> (string \<times> string) option
     \<Rightarrow> 'x tls_error + ('cert, 'key) upstream_tls" where
  "upstream_tls_new lib server_name ca_file client_cert =
     res_bind (upstream_roots lib ca_file) (\<lambda>roots.
     res_bind
       (case client_cert of
          Some (cert_file, key_file) \<Rightarrow>
            res_bind (load_certs lib cert_file) (\<lambda>certs.
            res_bind (load_key lib key_file) (\<lambda>key.
            res_bind (map_err ClientAuthCert (client_auth_cert lib certs key)) (\<lambda>auth.
            Inr \<lparr>cl_roots = roots, cl_auth = Some auth\<rparr>)))
        | None \<Rightarrow> Inr \<lparr>cl_roots = roots, cl_auth = None\<rparr>) (\<lambda>config.
     res_bind (map_err (InvalidServerName server_name) (server_name_of lib server_name)) (\<lambda>name.
     Inr \<lparr>up_config = config, up_server_name = name\<rparr>)))"

definition upstream_tls_connect ::
  "(('cert, 'key) client_config \<Rightarrow> string \<Rightarrow> stream_in \<Rightarrow> io_error + 't) \<Rightarrow> ('cert, 'key) upstream_tls \<Rightarrow> stream_in
     \<Rightarrow> 'x tls_error + 't" where
  "upstream_tls_connect handshake tls tcp = map_err TlsConnect (handshake (up_config tls) (up_server_name tls) tcp)"

subsection \<open>The listener\<close>

text \<open>\<open>sv_client_roots\<close> is \<open>None\<close> for the verifier that asks for no certificate.\<close>

record ('cert, 'key) server_config =
  sv_client_roots :: "'cert list option"
  sv_identity :: "'cert list \<times> 'key"

record ('cert, 'key) listen_tls =
  li_config :: "('cert, 'key) server_config"

definition listen_tls_from_files ::
  "('cert, 'key, 'x) tls_lib \<Rightarrow> string \<Rightarrow> string \<Rightarrow> string option \<Rightarrow> 'x tls_error + ('cert, 'key) listen_tls" where
  "listen_tls_from_files lib cert_file key_file client_ca_file =
     res_bind (load_certs lib cert_file) (\<lambda>certs.
     res_bind (load_key lib key_file) (\<lambda>key.
     res_bind
       (case client_ca_file of
          Some path \<Rightarrow>
            res_bind (load_certs lib path) (\<lambda>cas.
            res_bind (add_roots lib AddClientCa [] cas) (\<lambda>roots.
            res_bind (map_err ClientCertVerifier (build_verifier lib roots)) (\<lambda>v. Inr (Some v))))
        | None \<Rightarrow> Inr None) (\<lambda>client_verifier.
     res_bind (map_err ServerConfig (single_cert lib certs key)) (\<lambda>identity.
     Inr \<lparr>li_config = \<lparr>sv_client_roots = client_verifier, sv_identity = identity\<rparr>\<rparr>))))"

definition listen_tls_accept ::
  "(('cert, 'key) server_config \<Rightarrow> stream_in \<Rightarrow> io_error + 't) \<Rightarrow> ('cert, 'key) listen_tls \<Rightarrow> stream_in
     \<Rightarrow> 'x tls_error + 't" where
  "listen_tls_accept handshake tls tcp = map_err TlsAccept (handshake (li_config tls) tcp)"

subsection \<open>Lemmas\<close>

text \<open>What the library's builders return on success is what they were given.\<close>

definition lib_ok :: "('cert, 'key, 'x) tls_lib \<Rightarrow> bool" where
  "lib_ok lib \<longleftrightarrow>
     (\<forall>c c'. root_add lib c = Inr c' \<longrightarrow> c' = c)
   \<and> (\<forall>cs k a. client_auth_cert lib cs k = Inr a \<longrightarrow> a = (cs, k))
   \<and> (\<forall>cs k a. single_cert lib cs k = Inr a \<longrightarrow> a = (cs, k))
   \<and> (\<forall>rs v. build_verifier lib rs = Inr v \<longrightarrow> v = rs \<and> rs \<noteq> [])
   \<and> (\<forall>n n'. server_name_of lib n = Inr n' \<longrightarrow> n' = n)"

lemma add_roots_Inr: "lib_ok lib \<Longrightarrow> add_roots lib err roots certs = Inr rs \<Longrightarrow> rs = roots @ certs"
proof (induction lib err roots certs rule: add_roots.induct)
  case (2 lib err roots cert certs)
  from "2.prems" obtain c where c: "root_add lib cert = Inr c" "add_roots lib err (roots @ [c]) certs = Inr rs"
    by (auto simp: res_simps)
  then have "c = cert" using "2.prems"(1) by (simp add: lib_ok_def)
  with c "2.IH" [of c] "2.prems"(1) show ?case by simp
qed simp

text \<open>A library over files that hold the names of their certificates, for concrete inputs.\<close>

definition demo_tls_lib :: "(string, string, unit) tls_lib" where
  "demo_tls_lib =
     \<lparr>open_file = (\<lambda>p. if p = ''missing'' then Inl (OtherIo ''not found'') else Inr []),
      pem_certs = (\<lambda>_. [Inr ''ca1'', Inr ''ca2'']), pem_key = (\<lambda>_. Inr ''key''), root_add = Inr,
      native_certs = [''os''], client_auth_cert = (\<lambda>cs k. Inr (cs, k)), server_name_of = Inr,
      build_verifier = (\<lambda>rs. if rs = [] then Inl () else Inr rs), single_cert = (\<lambda>cs k. Inr (cs, k))\<rparr>"

lemma demo_tls_lib_ok: "lib_ok demo_tls_lib"
  by (simp add: lib_ok_def demo_tls_lib_def)

subsection \<open>Properties\<close>

text \<open>C28 Trust on the hop to the directory: the roots are the certificates of \<open>ca_file\<close> and nothing else
  when one is configured, the operating system's otherwise; the certificate presented is the one
  configured, with its key, and none otherwise.\<close>

theorem upstream_trust:
  assumes "lib_ok lib" "upstream_tls_new lib name ca_file client_cert = Inr tls"
  shows "(case ca_file of
            Some path \<Rightarrow> load_certs lib path = Inr (cl_roots (up_config tls))
          | None \<Rightarrow> cl_roots (up_config tls) = native_certs lib)
    \<and> (case client_cert of
         Some (c, k) \<Rightarrow> (\<exists>certs key. load_certs lib c = Inr certs \<and> load_key lib k = Inr key
            \<and> cl_auth (up_config tls) = Some (certs, key))
       | None \<Rightarrow> cl_auth (up_config tls) = None)
    \<and> up_server_name tls = name"
proof -
  from assms(2) obtain roots config where r: "upstream_roots lib ca_file = Inr roots"
    and c: "(case client_cert of
          Some (cert_file, key_file) \<Rightarrow>
            res_bind (load_certs lib cert_file) (\<lambda>certs.
            res_bind (load_key lib key_file) (\<lambda>key.
            res_bind (map_err ClientAuthCert (client_auth_cert lib certs key)) (\<lambda>auth.
            Inr \<lparr>cl_roots = roots, cl_auth = Some auth\<rparr>)))
        | None \<Rightarrow> Inr \<lparr>cl_roots = roots, cl_auth = None\<rparr>) = Inr config"
    and n: "server_name_of lib name = Inr (up_server_name tls)" "up_config tls = config"
    by (auto simp: upstream_tls_new_def res_simps)
  have "up_server_name tls = name" using n(1) assms(1) by (simp add: lib_ok_def)
  moreover have "case ca_file of Some path \<Rightarrow> load_certs lib path = Inr roots | None \<Rightarrow> roots = native_certs lib"
    using r assms(1) by (auto simp: upstream_roots_def res_simps split: option.splits dest!: add_roots_Inr [OF assms(1)])
  moreover have "cl_roots config = roots
      \<and> (case client_cert of
           Some (c, k) \<Rightarrow> (\<exists>certs key. load_certs lib c = Inr certs \<and> load_key lib k = Inr key
              \<and> cl_auth config = Some (certs, key))
         | None \<Rightarrow> cl_auth config = None)"
    using c assms(1) unfolding lib_ok_def by (fastforce simp: res_simps split: option.splits prod.splits)
  ultimately show ?thesis unfolding n(2) by (auto split: option.splits prod.splits)
qed

theorem upstream_trust_witness:
  "\<exists>tls. upstream_tls_new demo_tls_lib ''dc'' (Some ''ca.pem'') None = Inr tls \<and> cl_roots (up_config tls) = [''ca1'', ''ca2'']"
proof -
  have ok: "is_ok (upstream_tls_new demo_tls_lib ''dc'' (Some ''ca.pem'') None)"
    and ca: "load_certs demo_tls_lib ''ca.pem'' = Inr [''ca1'', ''ca2'']" by code_simp+
  from ok obtain tls where tls: "upstream_tls_new demo_tls_lib ''dc'' (Some ''ca.pem'') None = Inr tls"
    by (auto simp: is_ok_def split: sum.splits)
  with upstream_trust [OF demo_tls_lib_ok tls] ca show ?thesis by simp
qed

text \<open>C29 Client certificates on the listener: a listener built with a \<open>client_ca_file\<close> verifies every client
  against exactly the certificates of that file, of which there is at least one; only without the option
  does it accept clients that present none.\<close>

theorem listener_client_auth:
  assumes "lib_ok lib" "listen_tls_from_files lib cert_file key_file client_ca = Inr tls"
  shows "(case client_ca of
            Some path \<Rightarrow> (\<exists>roots. roots \<noteq> [] \<and> load_certs lib path = Inr roots
               \<and> sv_client_roots (li_config tls) = Some roots)
          | None \<Rightarrow> sv_client_roots (li_config tls) = None)
    \<and> load_certs lib cert_file = Inr (fst (sv_identity (li_config tls)))
    \<and> load_key lib key_file = Inr (snd (sv_identity (li_config tls)))"
  using assms unfolding lib_ok_def
  by (fastforce simp: listen_tls_from_files_def res_simps split: option.splits dest!: add_roots_Inr [OF assms(1)])

theorem listener_client_auth_witness:
  "\<exists>tls. listen_tls_from_files demo_tls_lib ''c'' ''k'' (Some ''ca.pem'') = Inr tls
     \<and> sv_client_roots (li_config tls) = Some [''ca1'', ''ca2'']"
proof -
  have ok: "is_ok (listen_tls_from_files demo_tls_lib ''c'' ''k'' (Some ''ca.pem''))"
    and ca: "load_certs demo_tls_lib ''ca.pem'' = Inr [''ca1'', ''ca2'']" by code_simp+
  from ok obtain tls where tls: "listen_tls_from_files demo_tls_lib ''c'' ''k'' (Some ''ca.pem'') = Inr tls"
    by (auto simp: is_ok_def split: sum.splits)
  with listener_client_auth [OF demo_tls_lib_ok tls] ca show ?thesis by auto
qed

text \<open>Missing keys are told apart: loading a key fails with \<open>NoPrivateKey\<close> exactly when the file opens
  and holds no key, with \<open>ParseKey\<close> on any other error in it, with \<open>OpenKey\<close> when it cannot be opened.\<close>

theorem load_key_errors:
  "(load_key lib path = Inl (NoPrivateKey p) \<longleftrightarrow> p = path \<and> (\<exists>f. open_file lib path = Inr f \<and> pem_key lib f = Inl NoItemsFound))
   \<and> (load_key lib path = Inl (ParseKey p e) \<longleftrightarrow> p = path \<and> e \<noteq> NoItemsFound \<and> (\<exists>f. open_file lib path = Inr f \<and> pem_key lib f = Inl e))
   \<and> (load_key lib path = Inl (OpenKey p io) \<longleftrightarrow> p = path \<and> open_file lib path = Inl io)"
  by (cases "open_file lib path"; cases "pem_key lib (projr (open_file lib path))")
    (auto simp: load_key_def split: pem_error.splits)

end
