(* ===== verification/Health.thy ===== *)
theory Health
  imports Connector Ldap
begin

text \<open>
  The liveness and readiness endpoint (core/health.rs): reading one HTTP request line off a connection,
  the three fixed answers, and the accept loop with its own limit of connections.

  What a connection delivers is a list of events, one per \<open>read\<close>; \<open>Deadline\<close> is the expiry of the
  timeout around the whole read loop.
\<close>

subsection \<open>Constants\<close>

datatype health_error = HealthBind socket_addr io_error

definition READ_TIMEOUT :: duration where
  "READ_TIMEOUT = from_secs 5"

definition MAX_CONNECTIONS :: nat where
  "MAX_CONNECTIONS = 64"

definition crlf :: string where
  "crlf = [CHR 0x0D, CHR 0x0A]"

definition OK_RESPONSE :: string where
  "OK_RESPONSE = ''HTTP/1.1 200 OK'' @ crlf @ ''content-length: 0'' @ crlf @ ''connection: close'' @ crlf @ crlf"

definition UNAVAILABLE_RESPONSE :: string where
  "UNAVAILABLE_RESPONSE =
     ''HTTP/1.1 503 Service Unavailable'' @ crlf @ ''content-length: 0'' @ crlf @ ''connection: close'' @ crlf @ crlf"

definition NOT_FOUND_RESPONSE :: string where
  "NOT_FOUND_RESPONSE = ''HTTP/1.1 404 Not Found'' @ crlf @ ''content-length: 0'' @ crlf @ ''connection: close'' @ crlf @ crlf"

definition health_bind :: "(socket_addr \<Rightarrow> io_error option) \<Rightarrow> socket_addr \<Rightarrow> health_error + socket_addr" where
  "health_bind tcp_bind addr = (case tcp_bind addr of Some e \<Rightarrow> Inl (HealthBind addr e) | None \<Rightarrow> Inr addr)"

subsection \<open>One request\<close>

datatype read_event = Data octets | Closed | Failed io_error | Deadline

fun has_crlf :: "octets \<Rightarrow> bool" where
  "has_crlf (a # b # bs) \<longleftrightarrow> (a = 0x0D \<and> b = 0x0A) \<or> has_crlf (b # bs)"
| "has_crlf _ \<longleftrightarrow> False"

text \<open>The loop stops when the buffer of 512 bytes is full or holds the end of the line; a read takes no
  more than the room that is left. Without another event the connection idles until the deadline.\<close>

definition timed_out :: io_error where
  "timed_out = OtherIo (''no request received within '' @ debug_duration READ_TIMEOUT)"

fun read_request :: "read_event list \<Rightarrow> octets \<Rightarrow> io_error + octets" where
  "read_request evs buf =
     (if length buf = 512 \<or> has_crlf buf then Inr buf
      else case evs of
             Data bs # rest \<Rightarrow>
               if bs = [] then Inr buf else read_request rest (buf @ take (512 - length buf) bs)
           | Closed # _ \<Rightarrow> Inr buf
           | Failed e # _ \<Rightarrow> Inl e
           | Deadline # _ \<Rightarrow> Inl timed_out
           | [] \<Rightarrow> Inl timed_out)"

declare read_request.simps [simp del]

text \<open>\<open>lines().next()\<close> and \<open>split_whitespace().nth(1)\<close>.\<close>

definition first_line :: "string \<Rightarrow> string" where
  "first_line s =
     (let l = takeWhile (\<lambda>c. c \<noteq> CHR 0x0A) s
      in if l \<noteq> s \<and> l \<noteq> [] \<and> last l = CHR 0x0D then butlast l else l)"

fun word_len :: "string \<Rightarrow> nat" where
  "word_len [] = 0"
| "word_len (c # cs) = (if list_ex (starts_with (c # cs)) white_space then 0 else Suc (word_len cs))"

definition second_word :: "string \<Rightarrow> string" where
  "second_word s =
     (let s1 = strip_all white_space s;
          s2 = strip_all white_space (drop (word_len s1) s1)
      in take (word_len s2) s2)"

definition health_response :: "string \<Rightarrow> bool \<Rightarrow> string" where
  "health_response path shutdown =
     (if path = ''/healthz'' then OK_RESPONSE
      else if path = ''/readyz'' \<and> \<not> shutdown then OK_RESPONSE
      else if path = ''/readyz'' then UNAVAILABLE_RESPONSE
      else NOT_FOUND_RESPONSE)"

text \<open>The outcome, with what was written; \<open>write_all\<close> and \<open>shutdown\<close> may fail.\<close>

definition health_handle_connection ::
  "read_event list \<Rightarrow> bool \<Rightarrow> io_error option \<Rightarrow> io_error option \<Rightarrow> (io_error + unit) \<times> string" where
  "health_handle_connection evs shutdown write_error close_error =
     (case read_request evs [] of
        Inl e \<Rightarrow> (Inl e, [])
      | Inr buf \<Rightarrow>
          (let response = health_response (second_word (first_line (from_utf8_lossy buf))) shutdown
           in case write_error of
                Some e \<Rightarrow> (Inl e, [])
              | None \<Rightarrow> (case close_error of Some e \<Rightarrow> Inl e | None \<Rightarrow> Inr (), response)))"

subsection \<open>The accept loop\<close>

record health_state =
  hs_permits :: nat
  hs_running :: nat

definition health_start :: health_state where
  "health_start = \<lparr>hs_permits = MAX_CONNECTIONS, hs_running = 0\<rparr>"

definition health_accept :: "health_state \<Rightarrow> health_state" where
  "health_accept s =
     (if hs_permits s = 0 then s else s\<lparr>hs_permits := hs_permits s - 1, hs_running := Suc (hs_running s)\<rparr>)"

text \<open>An error of \<open>accept\<close> changes nothing and the loop goes on; a task that ends gives back its permit.\<close>

inductive health_step :: "health_state \<Rightarrow> health_state \<Rightarrow> bool" where
  hs_accept: "health_step s (health_accept s)"
| hs_accept_error: "health_step s s"
| hs_finish: "hs_running s > 0 \<Longrightarrow> health_step s (s\<lparr>hs_permits := Suc (hs_permits s), hs_running := hs_running s - 1\<rparr>)"

inductive health_reach :: "health_state \<Rightarrow> bool" where
  hr_start: "health_reach health_start"
| hr_step: "health_reach s \<Longrightarrow> health_step s s' \<Longrightarrow> health_reach s'"

subsection \<open>Reading\<close>

lemma has_crlf_append: "has_crlf a \<Longrightarrow> has_crlf (a @ b)"
proof (induction a rule: has_crlf.induct)
  case (1 x y bs)
  then show ?case by (cases bs) auto
qed auto

lemma has_crlf_line: "has_crlf (a @ [0x0D, 0x0A] @ b)"
proof (induction a)
  case (Cons x a)
  then show ?case by (cases "a @ [0x0D, 0x0A] @ b") auto
qed simp

lemma has_crlf_split: "has_crlf a \<Longrightarrow> \<exists>p q. a = p @ [0x0D, 0x0A] @ q"
proof (induction a rule: has_crlf.induct)
  case (1 x y bs)
  then show ?case
  proof (cases "x = 0x0D \<and> y = 0x0A")
    case True
    then show ?thesis by (intro exI [of _ "[]"] exI [of _ bs]) simp
  next
    case False
    with 1 obtain p q where "y # bs = p @ [0x0D, 0x0A] @ q" by auto
    then have "x # y # bs = (x # p) @ [0x0D, 0x0A] @ q" by simp
    then show ?thesis by blast
  qed
qed auto

text \<open>However the bytes arrive, the loop ends with a prefix of them that holds the first line, when that
  fits the buffer.\<close>

lemma read_request_stops: "length b = 512 \<or> has_crlf b \<Longrightarrow> read_request evs b = Inr b"
  by (subst read_request.simps) auto

lemma full_buffer_has_line:
  assumes "length b = 512" "b @ r = line @ [0x0D, 0x0A] @ rest" "length line + 2 \<le> 512"
  shows "has_crlf b"
proof -
  have "b = take 512 (line @ [0x0D, 0x0A] @ rest)" using assms(1,2) by (metis append_eq_conv_conj)
  also have "\<dots> = line @ [0x0D, 0x0A] @ take (512 - length line - 2) rest" using assms(3) by (simp add: take_Cons')
  finally show ?thesis using has_crlf_line by metis
qed

lemma read_request_prefix:
  assumes "\<forall>bs \<in> set chunks. bs \<noteq> []" "buf @ concat chunks = line @ [0x0D, 0x0A] @ rest"
    and "length line + 2 \<le> 512" "length buf \<le> 512"
  shows "\<exists>b r. read_request (map Data chunks @ more_events) buf = Inr b \<and> b @ r = line @ [0x0D, 0x0A] @ rest \<and> has_crlf b"
  using assms
proof (induction chunks arbitrary: buf)
  case Nil
  then have "has_crlf buf" using has_crlf_line [of line rest] by simp
  with Nil show ?case using read_request_stops [of buf] by auto
next
  case (Cons bs chunks)
  let ?room = "512 - length buf"
  show ?case
  proof (cases "length buf = 512 \<or> has_crlf buf")
    case True
    then have "has_crlf buf" using full_buffer_has_line [OF _ Cons.prems(2,3)] by blast
    with True Cons.prems(2) read_request_stops show ?thesis by blast
  next
    case False
    then have step: "read_request (map Data (bs # chunks) @ more_events) buf
        = read_request (map Data chunks @ more_events) (buf @ take ?room bs)"
      using Cons.prems(1) by (subst read_request.simps) simp
    show ?thesis
    proof (cases "length bs \<le> ?room")
      case True
      with Cons.IH [of "buf @ bs"] Cons.prems False step show ?thesis by simp
    next
      case big: False
      let ?b = "buf @ take ?room bs"
      have len: "length ?b = 512" using big Cons.prems(4) by simp
      have rest: "?b @ drop ?room bs @ concat chunks = line @ [0x0D, 0x0A] @ rest"
        using Cons.prems(2) by (metis append.assoc append_take_drop_id concat.simps(2))
      show ?thesis
        unfolding step using read_request_stops len rest full_buffer_has_line [OF len rest Cons.prems(3)] by blast
    qed
  qed
qed

text \<open>The end of the line that is found is the first one.\<close>

lemma crlf_prefix:
  assumes "has_crlf b" "b @ r = line @ [0x0D, 0x0A] @ rest" "0x0D \<notin> set line"
  shows "\<exists>t. b = line @ [0x0D, 0x0A] @ t"
proof -
  obtain p q where b: "b = p @ [0x0D, 0x0A] @ q" using has_crlf_split [OF assms(1)] by blast
  have "length line \<le> length p"
  proof (rule ccontr)
    assume less: "\<not> length line \<le> length p"
    have "(p @ [0x0D, 0x0A] @ q @ r) ! length p = 0x0D" by (simp add: nth_append)
    moreover have "p @ [0x0D, 0x0A] @ q @ r = line @ [0x0D, 0x0A] @ rest" using assms(2) b by simp
    ultimately have "(line @ [0x0D, 0x0A] @ rest) ! length p = 0x0D" by metis
    then have "line ! length p = 0x0D" using less by (simp add: nth_append)
    with less assms(3) show False by (metis linorder_not_le nth_mem)
  qed
  then have len: "length line + 2 \<le> length b" using b by simp
  have "b = take (length b) (line @ [0x0D, 0x0A] @ rest)" using assms(2) by (metis append_eq_conv_conj)
  also have "\<dots> = line @ [0x0D, 0x0A] @ take (length b - length line - 2) rest"
    using len by (simp add: take_Cons')
  finally show ?thesis by blast
qed

subsection \<open>Words\<close>

definition printable :: "string \<Rightarrow> bool" where
  "printable s \<longleftrightarrow> (\<forall>c \<in> set s. 33 \<le> (of_char c :: nat) \<and> (of_char c :: nat) \<le> 126)"

lemma white_space_first:
  "\<forall>p \<in> set white_space. p \<noteq> [] \<and> \<not> (33 \<le> (of_char (hd p) :: nat) \<and> (of_char (hd p) :: nat) \<le> 126)
     \<and> (hd p = CHR '' '' \<longrightarrow> p = '' '')"
  "'' '' \<in> set white_space"
  by code_simp+

lemma starts_with_hd: "starts_with (c # cs) p \<Longrightarrow> p \<noteq> [] \<Longrightarrow> hd p = c"
  by (cases p) (auto simp: starts_with_def)

lemma no_white_space:
  assumes "33 \<le> (of_char c :: nat)" "(of_char c :: nat) \<le> 126" "p \<in> set white_space"
  shows "\<not> starts_with (c # cs) p"
  using assms white_space_first(1) starts_with_hd by metis

lemma strip_printable: "s = [] \<or> printable (take 1 s) \<Longrightarrow> strip_all white_space s = s"
proof -
  assume s: "s = [] \<or> printable (take 1 s)"
  have "\<not> starts_with s p" if "p \<in> set white_space" for p
    using s that white_space_first(1) no_white_space
    by (cases s) (auto simp: printable_def starts_with_def)
  then have "find (\<lambda>p. p \<noteq> [] \<and> starts_with s p) white_space = None" by (auto simp: find_None_iff)
  then show ?thesis by (subst strip_all.simps) simp
qed

lemma strip_space: "strip_all white_space (CHR '' '' # s) = strip_all white_space s"
proof -
  let ?P = "\<lambda>p. p \<noteq> [] \<and> starts_with (CHR '' '' # s) p"
  have only: "p = '' ''" if "p \<in> set white_space" "?P p" for p
    using that white_space_first(1) starts_with_hd [of _ s p] by blast
  have "?P '' ''" by (simp add: starts_with_def)
  with white_space_first(2) have "find ?P white_space \<noteq> None" by (auto simp: find_None_iff)
  then obtain p where p: "find ?P white_space = Some p" by blast
  then have "p = '' ''" using only by (auto simp: find_Some_iff)
  with p show ?thesis by (subst strip_all.simps) simp
qed

lemma word_len_space: "printable w \<Longrightarrow> word_len (w @ CHR '' '' # s) = length w"
proof (induction w)
  case Nil
  have "list_ex (starts_with (CHR '' '' # s)) white_space"
    using white_space_first(2) by (auto simp: list_ex_iff starts_with_def intro: bexI [of _ "'' ''"])
  then show ?case by simp
next
  case (Cons c w)
  then have "\<not> list_ex (starts_with (c # w @ CHR '' '' # s)) white_space"
    by (auto simp: list_ex_iff printable_def dest: no_white_space [rotated 2])
  with Cons show ?case by (simp add: printable_def)
qed

lemma second_word_line:
  assumes "printable m" "m \<noteq> []" "printable w" "w \<noteq> []"
  shows "second_word (m @ '' '' @ w @ '' '' @ s) = w"
proof -
  have "strip_all white_space (m @ '' '' @ w @ '' '' @ s) = m @ '' '' @ w @ '' '' @ s"
    using assms(1,2) by (intro strip_printable) (cases m, auto simp: printable_def)
  moreover have "strip_all white_space ('' '' @ w @ '' '' @ s) = w @ '' '' @ s"
    using assms(3,4) strip_space strip_printable [of "w @ '' '' @ s"] by (cases w) (auto simp: printable_def)
  ultimately show ?thesis
    using word_len_space [OF assms(1), of "w @ '' '' @ s"] word_len_space [OF assms(3), of s]
    by (simp add: second_word_def)
qed

lemma from_utf8_lossy_ascii:
  assumes "is_ascii s"
  shows "from_utf8_lossy (bytes_of_string s @ t) = s @ from_utf8_lossy t"
  using assms
proof (induction s)
  case (Cons c s)
  have "utf8_chunk (of_char c # bs) = (True, 1)" for bs
    using Cons.prems by (simp add: is_ascii_def utf8_chunk_def utf8_width_def)
  with Cons show ?case by (simp add: from_utf8_lossy_def bytes_of_string_def is_ascii_def)
qed (simp add: bytes_of_string_def)

lemma first_line_crlf: "CHR 0x0A \<notin> set l \<Longrightarrow> first_line (l @ crlf @ s) = l"
proof -
  assume "CHR 0x0A \<notin> set l"
  then have "takeWhile (\<lambda>c. c \<noteq> CHR 0x0A) (l @ crlf @ s) = l @ [CHR 0x0D]"
    by (induction l) (auto simp: crlf_def)
  then show ?thesis by (simp add: first_line_def Let_def crlf_def)
qed

subsection \<open>Properties\<close>

text \<open>C30 The answer to a probe: whatever pieces the request arrives in, a request whose first line names a
  path and fits the buffer is answered by that path alone: \<open>/healthz\<close> with 200 at all times, also while
  shutting down, \<open>/readyz\<close> with 200 until shutdown is requested and 503 from then on, anything else with
  404.\<close>

theorem probe_answer:
  assumes "\<forall>bs \<in> set chunks. bs \<noteq> []"
    and "concat chunks = bytes_of_string (verb @ '' '' @ path @ '' '' @ version @ crlf) @ rest"
    and "printable verb" "verb \<noteq> []" "printable path" "path \<noteq> []" "printable version"
    and "length verb + length path + length version + 4 \<le> 512"
  shows "health_handle_connection (map Data chunks) shutdown None None
    = (Inr (), if path = ''/healthz'' \<or> path = ''/readyz'' \<and> \<not> shutdown then OK_RESPONSE
               else if path = ''/readyz'' then UNAVAILABLE_RESPONSE else NOT_FOUND_RESPONSE)"
proof -
  let ?text = "verb @ '' '' @ path @ '' '' @ version"
  let ?line = "bytes_of_string ?text"
  have crlf: "bytes_of_string crlf = [0x0D, 0x0A]" by (simp add: bytes_of_string_def crlf_def)
  have app: "bytes_of_string (a @ b) = bytes_of_string a @ bytes_of_string b" for a b by (simp add: bytes_of_string_def)
  have cc: "[] @ concat chunks = ?line @ [0x0D, 0x0A] @ rest" using assms(2) crlf app by (metis append.assoc append_Nil)
  have len: "length ?line + 2 \<le> 512" using assms(8) by (simp add: bytes_of_string_def)
  obtain b r where b: "read_request (map Data chunks @ []) [] = Inr b" "b @ r = ?line @ [0x0D, 0x0A] @ rest" "has_crlf b"
    using read_request_prefix [OF assms(1) cc len, of "[]"] by auto
  have codes: "c = CHR '' '' \<or> 33 \<le> (of_char c :: nat) \<and> (of_char c :: nat) \<le> 126" if "c \<in> set ?text" for c
    using that assms(3,5,7) by (auto simp: printable_def)
  have cr: "0x0D \<notin> set ?line"
  proof
    assume "0x0D \<in> set ?line"
    then obtain c where c: "c \<in> set ?text" "(0x0D :: byte) = word_of_nat (of_char c)"
      unfolding bytes_of_string_def set_map by (rule imageE)
    then have "unat (0x0D :: byte) = of_char c" by (metis unat_of_char_word)
    then have "(of_char c :: nat) = 13" by simp
    with codes [OF c(1)] show False by auto
  qed
  obtain t where t: "b = ?line @ [0x0D, 0x0A] @ t" using crlf_prefix [OF b(3,2) cr] by blast
  have lf: "CHR 0x0A \<notin> set ?text" using codes by fastforce
  have ascii: "is_ascii (?text @ crlf)" using codes by (fastforce simp: is_ascii_def list_all_iff crlf_def)
  have "from_utf8_lossy b = (?text @ crlf) @ from_utf8_lossy t"
    using from_utf8_lossy_ascii [OF ascii, of t] t crlf app by (metis append.assoc)
  then have "second_word (first_line (from_utf8_lossy b)) = path"
    using first_line_crlf [OF lf] second_word_line [OF assms(3-6), of version] by (simp only: append_assoc)
  with b(1) show ?thesis by (simp add: health_handle_connection_def health_response_def)
qed

theorem probe_answer_witness:
  "snd (health_handle_connection
      (map Data [bytes_of_string ''GET /hea'', bytes_of_string ''lthz HTTP/1.1'' @ [0x0D], [0x0A, 0xFF]]) True None None) = OK_RESPONSE"
  using probe_answer [of "[bytes_of_string ''GET /hea'', bytes_of_string ''lthz HTTP/1.1'' @ [0x0D], [0x0A, 0xFF]]"
      "''GET''" "''/healthz''" "''HTTP/1.1''" "[0xFF]" True]
  by (simp add: bytes_of_string_def crlf_def printable_def)

text \<open>The endpoint holds at most 64 connections at a time, and always that many permits are free or in
  use.\<close>

theorem health_connections_capped:
  assumes "health_reach s"
  shows "hs_running s \<le> 64 \<and> hs_permits s + hs_running s = 64"
proof -
  have "hs_permits s + hs_running s = MAX_CONNECTIONS"
    using assms
  proof (induction rule: health_reach.induct)
    case (hr_step s s')
    from hr_step(2) show ?case by cases (use hr_step.IH in \<open>auto simp: health_accept_def\<close>)
  qed (simp add: health_start_def)
  then show ?thesis by (simp add: MAX_CONNECTIONS_def)
qed

theorem health_connections_capped_witness:
  "hs_running (health_accept health_start) = 1 \<and> hs_permits (health_accept health_start) + hs_running (health_accept health_start) = 64"
  using health_connections_capped [OF hr_step [OF hr_start hs_accept]]
  by (simp add: health_accept_def health_start_def MAX_CONNECTIONS_def)

end
