(* ===== verification/Builder.thy ===== *)
theory Builder
  imports Proxy_Serve Ldap_Upstream Policy_Config Tls Health
begin

text \<open>
  Putting a proxy together (builder.rs), with the crate's error type (error.rs). A \<open>ProxyBuilder\<close> is a record;
  each of its methods changes one field, \<open>serve\<close> hands the whole to \<open>proxy::run\<close>, whose panic is \<open>None\<close>.

  A \<open>watch\<close> receiver is its current value; for the shutdown request, with whether a sender is left.
\<close>

datatype ('pe, 'x, 'me) error =
    ErrConfig "'pe toml_error config_error"
  | ErrPolicy "'pe toml_error policy_config_error"
  | ErrTls "'x tls_error"
  | ErrProxy proxy_error
  | ErrMetrics 'me
  | ErrHealth health_error
  | MissingConnector

record ('lt, 'conn, 'pol) proxy_builder =
  b_listen_addr :: socket_addr
  b_listen_tls :: "'lt option"
  b_listen_starttls :: "'lt option"
  b_connector :: "'conn option"
  b_policies :: "'pol list"
  b_policies_rx :: "'pol list option"
  b_limits :: connection_limits
  b_shutdown :: shutdown_watch
  b_default_shutdown_tx :: bool

definition builder_new :: "socket_addr \<Rightarrow> ('lt, 'conn, 'pol) proxy_builder" where
  "builder_new addr =
     \<lparr>b_listen_addr = addr, b_listen_tls = None, b_listen_starttls = None, b_connector = None,
      b_policies = [], b_policies_rx = None, b_limits = default_connection_limits,
      b_shutdown = \<lparr>requested = False, sender_alive = True\<rparr>, b_default_shutdown_tx = True\<rparr>"

definition builder_shutdown :: "shutdown_watch \<Rightarrow> ('lt, 'conn, 'pol) proxy_builder \<Rightarrow> ('lt, 'conn, 'pol) proxy_builder" where
  "builder_shutdown sd b = b\<lparr>b_shutdown := sd, b_default_shutdown_tx := False\<rparr>"

definition builder_listen_tls :: "'lt \<Rightarrow> ('lt, 'conn, 'pol) proxy_builder \<Rightarrow> ('lt, 'conn, 'pol) proxy_builder" where
  "builder_listen_tls tls b = b\<lparr>b_listen_tls := Some tls\<rparr>"

definition builder_listen_starttls :: "'lt \<Rightarrow> ('lt, 'conn, 'pol) proxy_builder \<Rightarrow> ('lt, 'conn, 'pol) proxy_builder" where
  "builder_listen_starttls tls b = b\<lparr>b_listen_starttls := Some tls\<rparr>"

definition builder_connector :: "'conn \<Rightarrow> ('lt, 'conn, 'pol) proxy_builder \<Rightarrow> ('lt, 'conn, 'pol) proxy_builder" where
  "builder_connector c b = b\<lparr>b_connector := Some c\<rparr>"

definition builder_policy :: "'pol \<Rightarrow> ('lt, 'conn, 'pol) proxy_builder \<Rightarrow> ('lt, 'conn, 'pol) proxy_builder" where
  "builder_policy p b = b\<lparr>b_policies := b_policies b @ [p]\<rparr>"

definition builder_policies :: "'pol list \<Rightarrow> ('lt, 'conn, 'pol) proxy_builder \<Rightarrow> ('lt, 'conn, 'pol) proxy_builder" where
  "builder_policies ps b = b\<lparr>b_policies := b_policies b @ ps\<rparr>"

definition builder_policies_reloadable :: "'pol list \<Rightarrow> ('lt, 'conn, 'pol) proxy_builder \<Rightarrow> ('lt, 'conn, 'pol) proxy_builder" where
  "builder_policies_reloadable rx b = b\<lparr>b_policies_rx := Some rx\<rparr>"

definition builder_limits :: "connection_limits \<Rightarrow> ('lt, 'conn, 'pol) proxy_builder \<Rightarrow> ('lt, 'conn, 'pol) proxy_builder" where
  "builder_limits lim b = b\<lparr>b_limits := lim\<rparr>"

text \<open>What the accept loop runs with besides its own state.\<close>

record ('lt, 'conn) served =
  sd_addr :: socket_addr
  sd_listen_tls :: "'lt option"
  sd_listen_starttls :: "'lt option"
  sd_connector :: 'conn

definition builder_serve ::
  "(socket_addr \<Rightarrow> io_error option) \<Rightarrow> registry \<Rightarrow> ('lt, 'conn, 'pol) proxy_builder
     \<Rightarrow> (('pe, 'x, 'me) error + ('lt, 'conn) served \<times> 'pol list serve_state) option" where
  "builder_serve tcp_bind r b =
     (case b_connector b of
        None \<Rightarrow> Some (Inl MissingConnector)
      | Some connector \<Rightarrow>
          (let policies = (case b_policies_rx b of Some rx \<Rightarrow> rx | None \<Rightarrow> b_policies b) in
           map_option (\<lambda>res. map_err ErrProxy (res_bind res (\<lambda>s.
               Inr (\<lparr>sd_addr = b_listen_addr b, sd_listen_tls = b_listen_tls b, sd_listen_starttls = b_listen_starttls b,
                     sd_connector = connector\<rparr>, s))))
             (proxy_run tcp_bind (b_listen_addr b) (b_limits b) policies (b_shutdown b) r)))"

lemmas builder_defs = builder_new_def builder_shutdown_def builder_listen_tls_def builder_listen_starttls_def
  builder_connector_def builder_policy_def builder_policies_def builder_policies_reloadable_def builder_limits_def

subsection \<open>The order of policies\<close>

definition add_policies :: "('pol + 'pol list) list \<Rightarrow> ('lt, 'conn, 'pol) proxy_builder \<Rightarrow> ('lt, 'conn, 'pol) proxy_builder" where
  "add_policies calls b = fold (\<lambda>c. case c of Inl p \<Rightarrow> builder_policy p | Inr ps \<Rightarrow> builder_policies ps) calls b"

lemma add_policies_eq:
  "add_policies calls b = b\<lparr>b_policies := b_policies b @ concat (map (case_sum (\<lambda>p. [p]) id) calls)\<rparr>"
  unfolding add_policies_def
  by (induction calls arbitrary: b) (auto simp: builder_policy_def builder_policies_def split: sum.splits)

text \<open>Policies are enforced in the order they were added, one by one or in lists, by a proxy with the
  default limits that no shutdown request reaches.\<close>

lemma builder_policies_order:
  "builder_serve tcp_bind r (builder_connector c (add_policies calls (builder_new addr)))
   = (case tcp_bind addr of
        Some e \<Rightarrow> Some (Inl (ErrProxy (Bind addr e)))
      | None \<Rightarrow> Some (Inr (\<lparr>sd_addr = addr, sd_listen_tls = None, sd_listen_starttls = None, sd_connector = c\<rparr>,
                   serve_start default_connection_limits (concat (map (case_sum (\<lambda>p. [p]) id) calls))
                     \<lparr>requested = False, sender_alive = True\<rparr> r)))"
  by (simp add: builder_serve_def add_policies_eq builder_defs proxy_run_def proxy_serve_eq MAX_PERMITS_def
      default_connection_limits_def split: option.splits)

text \<open>A live source replaces the policies that were added, and a builder without a connector binds
  nothing.\<close>

lemma builder_live_source:
  "b_policies_rx b = Some rx \<Longrightarrow> b_connector b = Some c \<Longrightarrow> builder_serve tcp_bind r b = Some (Inr (sd, s)) \<Longrightarrow> current_policies s = rx"
  "b_connector b = None \<Longrightarrow> builder_serve tcp_bind r b = Some (Inl MissingConnector)"
  by (auto simp: builder_serve_def proxy_run_def proxy_serve_eq serve_start_def split: option.splits if_splits)

end
