(* ===== verification/Process.thy ===== *)
theory Process
  imports Builder
begin

text \<open>
  The whole process (lib.rs, main.rs): from a configuration file to the accept loops of all entries, with
  the tasks that wait for the shutdown signal and for \<open>SIGHUP\<close>.

  Starting up is a function: metrics exporter, health endpoint, then every entry is built before any is
  served. Running is the step relation \<open>process_step\<close>: an entry takes a step of \<open>serve_step\<close>, a signal
  arrives, a task ends and is joined. The panics that the code can reach are modelled: of the log file in
  \<open>main\<close>, of the pool while an entry is built (both \<open>None\<close>), of a task whose semaphore cannot have
  that many permits and of a signal task whose handler cannot be installed; joining such a task unwinds the
  process.
\<close>

subsection \<open>Building an entry\<close>

text \<open>What an entry is built with: the file system, TOML, the TLS library, and the store environments of the
  policies of a file.\<close>

record ('pe, 'cert, 'key, 'x, 'e, 's) build_world =
  bw_read :: "string \<Rightarrow> io_error + string"
  bw_toml :: "string \<Rightarrow> 'pe + toml"
  bw_addr :: addr_parser
  bw_tls :: "('cert, 'key, 'x) tls_lib"
  bw_stores :: "nat \<Rightarrow> ('e, 's) store_env"

definition load_policies ::
  "('pe, 'cert, 'key, 'x, 'e, 's) build_world \<Rightarrow> string \<Rightarrow> 'pe toml_error policy_config_error + 's threshold_policy list" where
  "load_policies w path =
     res_bind (policies_load (bw_read w) (bw_toml w) (bw_stores w) path) (\<lambda>ps. Inr (map fst ps))"

type_synonym ('cert, 'key, 's) entry_builder =
  "(('cert, 'key) listen_tls, ('cert, 'key) upstream_tls ldap_connector_state, 's threshold_policy) proxy_builder"

definition entry_upstream_tls ::
  "('cert, 'key, 'x) tls_lib \<Rightarrow> proxy_config \<Rightarrow> 'x tls_error + ('cert, 'key) upstream_tls option" where
  "entry_upstream_tls lib p =
     try_opt (\<lambda>tls. upstream_tls_new lib (ut_server_name tls) (ut_ca_file tls)
        (map_option (\<lambda>c. (cc_cert_file c, cc_key_file c)) (ut_client_cert tls))) (p_upstream_tls p)"

definition entry_listen_tls ::
  "('cert, 'key, 'x) tls_lib \<Rightarrow> listen_tls_config option \<Rightarrow> 'x tls_error + ('cert, 'key) listen_tls option" where
  "entry_listen_tls lib t =
     try_opt (\<lambda>tls. listen_tls_from_files lib (lt_cert_file tls) (lt_key_file tls) (lt_client_ca_file tls)) t"

definition entry_limits :: "proxy_config \<Rightarrow> connection_limits" where
  "entry_limits p = \<lparr>max_connections = p_max_connections p, io_timeout = from_secs (p_io_timeout_secs p),
     shutdown_timeout = from_secs (p_shutdown_timeout_secs p)\<rparr>"

text \<open>\<open>None\<close> is the panic of \<open>UpstreamPool::new\<close> on an empty list of addresses.\<close>

definition build_proxy ::
  "('pe, 'cert, 'key, 'x, 'e, 's) build_world \<Rightarrow> proxy_config \<Rightarrow> shutdown_watch
     \<Rightarrow> (('pe, 'x, 'me) error + ('cert, 'key, 's) entry_builder) option" where
  "build_proxy w p sd =
     (case entry_upstream_tls (bw_tls w) p of
        Inl e \<Rightarrow> Some (Inl (ErrTls e))
      | Inr utls \<Rightarrow>
          (case with_targets (p_upstream_addrs p) (p_upstream_strategy p)
                  (from_secs (p_upstream_failure_cooldown_secs p)) utls of
             None \<Rightarrow> None
           | Some c \<Rightarrow>
               Some (
                 res_bind (map_err ErrTls (entry_listen_tls (bw_tls w) (p_listen_tls p))) (\<lambda>ltls.
                 res_bind (map_err ErrTls (entry_listen_tls (bw_tls w) (p_listen_starttls p))) (\<lambda>lstart.
                 res_bind (map_err ErrPolicy (load_policies w (ps_file (p_policy p)))) (\<lambda>policies.
                 let b = builder_shutdown sd (builder_limits (entry_limits p) (builder_policies_reloadable policies
                           (builder_connector
                              (with_starttls c (case p_upstream_tls p of Some tls \<Rightarrow> ut_starttls tls | None \<Rightarrow> False))
                              (builder_new (p_listen_addr p)))));
                     b1 = (case ltls of Some t \<Rightarrow> builder_listen_tls t b | None \<Rightarrow> b);
                     b2 = (case lstart of Some t \<Rightarrow> builder_listen_starttls t b1 | None \<Rightarrow> b1)
                 in Inr b2))))))"

subsection \<open>Starting up\<close>

fun build_all ::
  "('pe, 'cert, 'key, 'x, 'e, 's) build_world \<Rightarrow> shutdown_watch \<Rightarrow> proxy_config list
     \<Rightarrow> (('pe, 'x, 'me) error + ('cert, 'key, 's) entry_builder list) option" where
  "build_all w sd [] = Some (Inr [])"
| "build_all w sd (p # ps) =
     (case build_proxy w p sd of
        None \<Rightarrow> None
      | Some (Inl e) \<Rightarrow> Some (Inl e)
      | Some (Inr b) \<Rightarrow>
          (case build_all w sd ps of
             None \<Rightarrow> None
           | Some (Inl e) \<Rightarrow> Some (Inl e)
           | Some (Inr bs) \<Rightarrow> Some (Inr (b # bs))))"

text \<open>The task of an entry: it has ended with an error before it served, has panicked, or is in its accept
  loop. The running process: per entry the file it reloads its policies from and its task; the shutdown
  channel; the two signal tasks; what has been joined; and how it has ended.\<close>

datatype ('err, 'l) entry_task = Failed 'err | Panicked | Serving "'l serve_state"

primrec on_serving :: "('l serve_state \<Rightarrow> 'l serve_state) \<Rightarrow> ('err, 'l) entry_task \<Rightarrow> ('err, 'l) entry_task" where
  "on_serving f (Failed e) = Failed e"
| "on_serving f Panicked = Panicked"
| "on_serving f (Serving s) = Serving (f s)"

datatype signal_task = Waiting | Finished | Task_panicked

datatype 'err process_end = Returned "'err + unit" | Unwound

record ('err, 'pol) process =
  px_entries :: "(string \<times> ('err, 'pol list) entry_task) list"
  px_shutdown :: shutdown_watch
  px_signal_task :: signal_task
  px_reload_task :: signal_task
  px_joined :: "nat set"
  px_outcome :: "'err process_end option"

definition initial_watch :: shutdown_watch where
  "initial_watch = \<lparr>requested = False, sender_alive = True\<rparr>"

definition start_entry ::
  "(socket_addr \<Rightarrow> io_error option) \<Rightarrow> registry \<Rightarrow> proxy_config \<Rightarrow> ('cert, 'key, 's) entry_builder
     \<Rightarrow> string \<times> (('pe, 'x, 'me) error, 's threshold_policy list) entry_task" where
  "start_entry tcp_bind r p b =
     (ps_file (p_policy p),
      case builder_serve tcp_bind r b of
        None \<Rightarrow> Panicked
      | Some (Inl e) \<Rightarrow> Failed e
      | Some (Inr (served, s)) \<Rightarrow> Serving s)"

definition run_with_config ::
  "(socket_addr \<Rightarrow> 'me option) \<Rightarrow> (socket_addr \<Rightarrow> io_error option) \<Rightarrow> registry
     \<Rightarrow> ('pe, 'cert, 'key, 'x, 'e, 's) build_world \<Rightarrow> process_config
     \<Rightarrow> (('pe, 'x, 'me) error + (('pe, 'x, 'me) error, 's threshold_policy) process) option" where
  "run_with_config install tcp_bind r w c =
     (case (case c_metrics c of None \<Rightarrow> None | Some m \<Rightarrow> install (m_listen_addr m)) of
        Some e \<Rightarrow> Some (Inl (ErrMetrics e))
      | None \<Rightarrow>
          (case try_opt (\<lambda>h. health_bind tcp_bind (h_listen_addr h)) (c_health c) of
             Inl e \<Rightarrow> Some (Inl (ErrHealth e))
           | Inr _ \<Rightarrow>
               (case build_all w initial_watch (c_proxy c) of
                  None \<Rightarrow> None
                | Some (Inl e) \<Rightarrow> Some (Inl e)
                | Some (Inr bs) \<Rightarrow>
                    Some (Inr \<lparr>px_entries = map2 (start_entry tcp_bind r) (c_proxy c) bs, px_shutdown = initial_watch,
                      px_signal_task = Waiting, px_reload_task = Waiting, px_joined = {}, px_outcome = None\<rparr>))))"






subsection \<open>Signals\<close>

text \<open>A \<open>SIGHUP\<close>: every entry's file is loaded anew; an entry whose file does not load keeps its policies.\<close>

definition reload_entry ::
  "(string \<Rightarrow> 'pol_err + 'pol list) \<Rightarrow> string \<times> ('err, 'pol list) entry_task \<Rightarrow> string \<times> ('err, 'pol list) entry_task" where
  "reload_entry load e =
     (case load (fst e) of
        Inl _ \<Rightarrow> e
      | Inr ps \<Rightarrow> (fst e, on_serving (\<lambda>s. s\<lparr>current_policies := ps\<rparr>) (snd e)))"

definition reload_policies ::
  "(string \<Rightarrow> 'pol_err + 'pol list) \<Rightarrow> ('err, 'pol) process \<Rightarrow> ('err, 'pol) process" where
  "reload_policies load px = px\<lparr>px_entries := map (reload_entry load) (px_entries px)\<rparr>"

text \<open>What the receivers of the shutdown channel see. A shutdown signal: the request goes out to every entry,
  and the sender is dropped with its task. When the handler of the signal cannot be installed the task
  panics, and the sender is dropped without a request.\<close>

definition watch_changed :: "shutdown_watch \<Rightarrow> ('err, 'pol) process \<Rightarrow> ('err, 'pol) process" where
  "watch_changed w px =
     px\<lparr>px_shutdown := w,
        px_entries := map (\<lambda>e. (fst e, on_serving (\<lambda>s. s\<lparr>shutdown := w\<rparr>) (snd e))) (px_entries px)\<rparr>"

definition shutdown_signal :: "('err, 'pol) process \<Rightarrow> ('err, 'pol) process" where
  "shutdown_signal px = (watch_changed \<lparr>requested = True, sender_alive = False\<rparr> px)\<lparr>px_signal_task := Finished\<rparr>"

definition signal_panic :: "('err, 'pol) process \<Rightarrow> ('err, 'pol) process" where
  "signal_panic px = (watch_changed \<lparr>requested = False, sender_alive = False\<rparr> px)\<lparr>px_signal_task := Task_panicked\<rparr>"

text \<open>Leaving \<open>run_with_config\<close> drops the set of tasks and with it every accept loop that has not returned;
  a dropped loop drops the set of its connections, which are aborted without anyone waiting for them.\<close>

definition cancel_serve :: "'l serve_state \<Rightarrow> 'l serve_state" where
  "cancel_serve s = (case serving s of Stopped _ \<Rightarrow> s | _ \<Rightarrow> (drop_connections s)\<lparr>serving := Cancelled\<rparr>)"

definition abort_entry :: "string \<times> ('err, 'pol list) entry_task \<Rightarrow> string \<times> ('err, 'pol list) entry_task" where
  "abort_entry e = (fst e, on_serving cancel_serve (snd e))"

definition leave_with :: "'err process_end \<Rightarrow> ('err, 'pol) process \<Rightarrow> ('err, 'pol) process" where
  "leave_with x px = px\<lparr>px_outcome := Some x, px_entries := map abort_entry (px_entries px)\<rparr>"

definition entry_result :: "(proxy_error \<Rightarrow> 'err) \<Rightarrow> ('err, 'pol list) entry_task \<Rightarrow> ('err + unit) option" where
  "entry_result err e =
     (case e of
        Failed x \<Rightarrow> Some (Inl x)
      | Panicked \<Rightarrow> None
      | Serving s \<Rightarrow> (case serving s of Stopped (Inl x) \<Rightarrow> Some (Inl (err x)) | Stopped (Inr _) \<Rightarrow> Some (Inr ()) | _ \<Rightarrow> None))"

definition a_task_panicked :: "('err, 'pol) process \<Rightarrow> bool" where
  "a_task_panicked px \<longleftrightarrow> px_signal_task px = Task_panicked \<or> px_reload_task px = Task_panicked
     \<or> Panicked \<in> snd ` set (px_entries px)"

inductive process_step ::
  "(proxy_error \<Rightarrow> 'err) \<Rightarrow> ('err, 'pol) process \<Rightarrow> ('err, 'pol) process \<Rightarrow> bool" for err where
  px_entry: "px_outcome px = None \<Longrightarrow> k < length (px_entries px) \<Longrightarrow> px_entries px ! k = (path, Serving s) \<Longrightarrow>
     serve_step s s' \<Longrightarrow> current_policies s' = current_policies s \<Longrightarrow> shutdown s' = shutdown s \<Longrightarrow>
     process_step err px (px\<lparr>px_entries := (px_entries px)[k := (path, Serving s')]\<rparr>)"
| px_signal: "px_outcome px = None \<Longrightarrow> px_signal_task px = Waiting \<Longrightarrow> process_step err px (shutdown_signal px)"
| px_signal_panic: "px_outcome px = None \<Longrightarrow> px_signal_task px = Waiting \<Longrightarrow> process_step err px (signal_panic px)"
| px_sighup: "px_outcome px = None \<Longrightarrow> px_reload_task px = Waiting \<Longrightarrow>
     process_step err px (reload_policies (load :: string \<Rightarrow> string + 'pol list) px)"
| px_reload_exit: "px_outcome px = None \<Longrightarrow> px_reload_task px = Waiting \<Longrightarrow> wait_for_shutdown (px_shutdown px) \<Longrightarrow>
     process_step err px (px\<lparr>px_reload_task := Finished\<rparr>)"
| px_reload_panic: "px_outcome px = None \<Longrightarrow> px_reload_task px = Waiting \<Longrightarrow>
     process_step err px (px\<lparr>px_reload_task := Task_panicked\<rparr>)"
| px_join: "px_outcome px = None \<Longrightarrow> k < length (px_entries px) \<Longrightarrow> k \<notin> px_joined px \<Longrightarrow>
     entry_result err (snd (px_entries px ! k)) = Some (Inr ()) \<Longrightarrow>
     process_step err px (px\<lparr>px_joined := insert k (px_joined px)\<rparr>)"
| px_join_error: "px_outcome px = None \<Longrightarrow> k < length (px_entries px) \<Longrightarrow> k \<notin> px_joined px \<Longrightarrow>
     entry_result err (snd (px_entries px ! k)) = Some (Inl e) \<Longrightarrow>
     process_step err px (leave_with (Returned (Inl e)) px)"
| px_join_panic: "px_outcome px = None \<Longrightarrow> a_task_panicked px \<Longrightarrow> process_step err px (leave_with Unwound px)"
| px_cancelled: "px_outcome px \<noteq> None \<Longrightarrow> k < length (px_entries px) \<Longrightarrow> px_entries px ! k = (path, Serving s) \<Longrightarrow>
     i \<in> set (running s) \<Longrightarrow> process_step err px (px\<lparr>px_entries := (px_entries px)[k := (path, Serving (task_finish i s))]\<rparr>)"
| px_done: "px_outcome px = None \<Longrightarrow> px_signal_task px = Finished \<Longrightarrow> px_reload_task px = Finished \<Longrightarrow>
     {..<length (px_entries px)} \<subseteq> px_joined px \<Longrightarrow> process_step err px (px\<lparr>px_outcome := Some (Returned (Inr ()))\<rparr>)"

inductive process_reach :: "(proxy_error \<Rightarrow> 'err) \<Rightarrow> ('err, 'pol) process \<Rightarrow> ('err, 'pol) process \<Rightarrow> bool" for err px0 where
  px_start: "process_reach err px0 px0"
| px_next: "process_reach err px0 px \<Longrightarrow> process_step err px px' \<Longrightarrow> process_reach err px0 px'"

subsection \<open>Starting up: lemmas\<close>




lemma build_all_Inr:
  fixes w :: "('pe, 'cert, 'key, 'x, 'e, 's) build_world" and bs :: "('cert, 'key, 's) entry_builder list"
  assumes "build_all w sd ps = Some (Inr bs :: ('pe, 'x, 'me) error + _)"
  shows "length bs = length ps \<and>
    (\<forall>k < length ps. build_proxy w (ps ! k) sd = Some (Inr (bs ! k) :: ('pe, 'x, 'me) error + _))"
  using assms
proof (induction ps arbitrary: bs)
  case (Cons p ps)
  from Cons.prems obtain b bs' where b: "build_proxy w p sd = Some (Inr b :: ('pe, 'x, 'me) error + _)"
      "build_all w sd ps = Some (Inr bs' :: ('pe, 'x, 'me) error + _)" "bs = b # bs'"
    by (auto split: option.splits sum.splits)
  from Cons.IH [OF b(2)] b show ?case by (auto simp: less_Suc_eq_0_disj)
qed simp

lemma build_proxy_Inr:
  assumes "build_proxy w p sd = Some (Inr b)"
  obtains utls c ltls lstart ps where
    "entry_upstream_tls (bw_tls w) p = Inr utls"
    "with_targets (p_upstream_addrs p) (p_upstream_strategy p) (from_secs (p_upstream_failure_cooldown_secs p)) utls = Some c"
    "entry_listen_tls (bw_tls w) (p_listen_tls p) = Inr ltls" "entry_listen_tls (bw_tls w) (p_listen_starttls p) = Inr lstart"
    "load_policies w (ps_file (p_policy p)) = Inr ps"
    "b = \<lparr>b_listen_addr = p_listen_addr p, b_listen_tls = ltls, b_listen_starttls = lstart,
          b_connector = Some (with_starttls c (case p_upstream_tls p of Some tls \<Rightarrow> ut_starttls tls | None \<Rightarrow> False)),
          b_policies = [], b_policies_rx = Some ps, b_limits = entry_limits p, b_shutdown = sd,
          b_default_shutdown_tx = False\<rparr>"
  using assms
  by (auto simp: build_proxy_def builder_defs Let_def res_simps split: sum.splits option.splits)

text \<open>What is set is loaded, and nothing stands in for what is not.\<close>

lemma try_opt_loaded: "try_opt f x = Inr y \<Longrightarrow> case x of None \<Rightarrow> y = None | Some t \<Rightarrow> \<exists>z. f t = Inr z \<and> y = Some z"
  by (cases x) (auto simp: res_simps)

subsection \<open>Running: the invariant\<close>

definition entry_ok :: "string \<times> ('err, 'pol list) entry_task \<Rightarrow> bool" where
  "entry_ok e \<longleftrightarrow> (\<forall>s. snd e = Serving s \<longrightarrow> serve_inv s)"

definition has_ended :: "phase \<Rightarrow> bool" where
  "has_ended p \<longleftrightarrow> p \<noteq> Accepting \<and> p \<noteq> Draining"

definition process_inv :: "(proxy_error \<Rightarrow> 'err) \<Rightarrow> ('err, 'pol) process \<Rightarrow> bool" where
  "process_inv err px \<longleftrightarrow>
     (\<forall>e \<in> set (px_entries px). entry_ok e)
   \<and> (\<forall>k < length (px_entries px). k \<in> px_joined px \<longrightarrow> entry_result err (snd (px_entries px ! k)) = Some (Inr ()))
   \<and> (px_signal_task px = Finished \<longrightarrow> requested (px_shutdown px))
   \<and> (px_outcome px = Some (Returned (Inr ())) \<longrightarrow> px_signal_task px = Finished \<and> px_reload_task px = Finished
        \<and> {..<length (px_entries px)} \<subseteq> px_joined px)
   \<and> (\<forall>e. px_outcome px = Some (Returned (Inl e)) \<longrightarrow> (\<exists>x \<in> set (px_entries px). entry_result err (snd x) = Some (Inl e)))
   \<and> (px_outcome px = Some Unwound \<longrightarrow> a_task_panicked px)
   \<and> (px_outcome px \<noteq> None \<and> px_outcome px \<noteq> Some (Returned (Inr ())) \<longrightarrow>
        (\<forall>x \<in> set (px_entries px). \<forall>s. snd x = Serving s \<longrightarrow> has_ended (serving s)))"

text \<open>Updates of an entry that leave its accept loop as it is.\<close>

lemma serve_inv_updates [simp]:
  "serve_inv (s\<lparr>current_policies := ps\<rparr>) = serve_inv s" "serve_inv (s\<lparr>shutdown := w\<rparr>) = serve_inv s"
  by (simp_all add: serve_inv_def)

lemma on_serving_iff [simp]:
  "on_serving f t = Panicked \<longleftrightarrow> t = Panicked" "Panicked = on_serving f t \<longleftrightarrow> t = Panicked"
  "on_serving f t = Serving s \<longleftrightarrow> (\<exists>s0. t = Serving s0 \<and> s = f s0)"
  by (cases t; auto)+

lemma entry_result_Serving: "entry_result err t = Some (Inr ()) \<longleftrightarrow> (\<exists>s u. t = Serving s \<and> serving s = Stopped (Inr u))"
  by (auto simp: entry_result_def split: entry_task.splits phase.splits sum.splits)

text \<open>Changes of what an entry serves that keep its invariant and what it has ended with.\<close>

lemma entry_reload [simp]:
  "entry_ok e \<Longrightarrow> entry_ok (reload_entry load e)"
  "entry_result err (snd (reload_entry load e)) = entry_result err (snd e)"
  "Panicked = snd (reload_entry load e) \<longleftrightarrow> snd e = Panicked" "snd (reload_entry load e) = Panicked \<longleftrightarrow> snd e = Panicked"
proof -
  show "entry_ok e \<Longrightarrow> entry_ok (reload_entry load e)"
    by (auto simp: reload_entry_def entry_ok_def split: sum.splits)
  show "entry_result err (snd (reload_entry load e)) = entry_result err (snd e)"
    by (cases "snd e") (simp_all add: reload_entry_def entry_result_def split: sum.splits)
  show "Panicked = snd (reload_entry load e) \<longleftrightarrow> snd e = Panicked" "snd (reload_entry load e) = Panicked \<longleftrightarrow> snd e = Panicked"
    by (auto simp: reload_entry_def split: sum.splits)
qed

lemma entry_shutdown [simp]:
  "entry_ok e \<Longrightarrow> entry_ok (path, on_serving (\<lambda>s. s\<lparr>shutdown := w\<rparr>) (snd e))"
  by (auto simp: entry_ok_def)

lemma entry_result_shutdown [simp]: "entry_result err (on_serving (\<lambda>s. s\<lparr>shutdown := w\<rparr>) t) = entry_result err t"
  by (cases t) (simp_all add: entry_result_def)

lemma serve_inv_cancel: "serve_inv s \<Longrightarrow> serve_inv (cancel_serve s) \<and> has_ended (serving (cancel_serve s))"
  by (auto simp: serve_inv_def cancel_serve_def drop_connections_def has_ended_def split: phase.splits)

lemma entry_abort [simp]:
  "entry_ok e \<Longrightarrow> entry_ok (abort_entry e)" "entry_ok e \<Longrightarrow> snd (abort_entry e) = Serving s \<Longrightarrow> has_ended (serving s)"
  "Panicked = snd (abort_entry e) \<longleftrightarrow> snd e = Panicked" "snd (abort_entry e) = Panicked \<longleftrightarrow> snd e = Panicked"
  by (auto simp: abort_entry_def entry_ok_def serve_inv_cancel)

lemma entry_result_abort [simp]: "entry_result err (snd (abort_entry e)) = entry_result err (snd e)"
  by (cases "snd e") (simp_all add: abort_entry_def entry_result_def cancel_serve_def split: phase.splits)

lemma leave_with_inv:
  assumes "process_inv err px" "px_outcome px = None"
    and "x = Unwound \<and> a_task_panicked px \<or> (\<exists>e. x = Returned (Inl e) \<and> (\<exists>y \<in> set (px_entries px). entry_result err (snd y) = Some (Inl e)))"
  shows "process_inv err (leave_with x px)"
proof -
  have "a_task_panicked (leave_with x px) = a_task_panicked px"
    by (simp add: a_task_panicked_def leave_with_def image_iff eq_commute [of Panicked])
  with assms show ?thesis by (auto simp: process_inv_def leave_with_def)
qed

text \<open>A step of one entry that keeps its invariant, its result and the fact that it has ended.\<close>

lemma process_inv_entry:
  assumes "process_inv err px" "k < length (px_entries px)" "px_entries px ! k = (path, Serving s)" "serve_inv s'"
    and "\<And>x. entry_result err (Serving s) = Some x \<Longrightarrow> entry_result err (Serving s') = Some x"
    and "has_ended (serving s) \<Longrightarrow> has_ended (serving s')"
  shows "process_inv err (px\<lparr>px_entries := (px_entries px)[k := (path, Serving s')]\<rparr>)"
proof -
  let ?es = "px_entries px" and ?es' = "(px_entries px)[k := (path, Serving s')]"
  have res: "entry_result err (snd (?es' ! j)) = Some x" if "entry_result err (snd (?es ! j)) = Some x" "j < length ?es" for j x
    using that assms(3,5) by (cases "j = k") simp_all
  have ok: "\<forall>e \<in> set ?es'. entry_ok e"
    using assms(1,4) by (auto simp: process_inv_def entry_ok_def dest: set_update_subset_insert [THEN subsetD])
  have ex: "\<exists>x \<in> set ?es'. entry_result err (snd x) = Some (Inl e)"
    if "\<exists>x \<in> set ?es. entry_result err (snd x) = Some (Inl e)" for e
    using that res by (metis in_set_conv_nth length_list_update)
  have ended: "\<forall>x \<in> set ?es'. \<forall>t. snd x = Serving t \<longrightarrow> has_ended (serving t)"
    if "\<forall>x \<in> set ?es. \<forall>t. snd x = Serving t \<longrightarrow> has_ended (serving t)"
    using that assms(2,3,6) nth_mem [OF assms(2)] by (auto dest: set_update_subset_insert [THEN subsetD])
  have pan: "a_task_panicked (px\<lparr>px_entries := ?es'\<rparr>)" if "a_task_panicked px"
  proof -
    have "Panicked \<in> snd ` set ?es'" if p: "Panicked \<in> snd ` set ?es"
    proof -
      from p obtain j where j: "j < length ?es" "snd (?es ! j) = Panicked" by (auto simp: in_set_conv_nth)
      with assms(3) have "?es' ! j = ?es ! j" by (cases "j = k") simp_all
      with j show ?thesis by (metis image_eqI length_list_update nth_mem)
    qed
    with that show ?thesis by (auto simp: a_task_panicked_def)
  qed
  show ?thesis using assms(1) res ok ex ended pan by (simp add: process_inv_def)
qed

lemma serve_step_entry:
  assumes "serve_step s s'" "serve_inv s"
  shows "serve_inv s'" "entry_result err (Serving s) = Some x \<Longrightarrow> entry_result err (Serving s') = Some x"
    "has_ended (serving s) \<Longrightarrow> has_ended (serving s')"
  using serve_inv_step [OF assms] ended_stays [OF assms(1)]
  by (auto simp: entry_result_def has_ended_def split: phase.splits sum.splits)

lemma process_inv_entry_step:
  assumes "process_inv err px" "k < length (px_entries px)" "px_entries px ! k = (path, Serving s)" "serve_step s s'"
  shows "process_inv err (px\<lparr>px_entries := (px_entries px)[k := (path, Serving s')]\<rparr>)"
proof -
  have "serve_inv s" using assms(1,2,3) nth_mem
    unfolding process_inv_def entry_ok_def by (metis snd_conv)
  from process_inv_entry [OF assms(1,2,3) serve_step_entry [OF assms(4) this]] show ?thesis .
qed

lemma process_inv_step: "process_step err px px' \<Longrightarrow> process_inv err px \<Longrightarrow> process_inv err px'"
proof (induction rule: process_step.induct)
  case (px_entry px k path s s')
  then show ?case by (intro process_inv_entry_step)
next
  case (px_cancelled px k path s i)
  from process_inv_entry_step [OF px_cancelled.prems px_cancelled.hyps(2,3) sv_finish [OF px_cancelled.hyps(4)]]
  show ?case .
next
  case (px_signal px)
  then show ?case by (auto simp: process_inv_def shutdown_signal_def watch_changed_def)
next
  case (px_signal_panic px)
  then show ?case by (auto simp: process_inv_def signal_panic_def watch_changed_def)
next
  case (px_sighup px load)
  then show ?case by (auto simp: process_inv_def reload_policies_def)
next
  case (px_join_error px k e)
  moreover have "px_entries px ! k \<in> set (px_entries px)" using px_join_error.hyps(2) by simp
  ultimately show ?case by (blast intro: leave_with_inv)
next
  case (px_join_panic px)
  then show ?case by (blast intro: leave_with_inv)
qed (auto simp: process_inv_def a_task_panicked_def)

lemma process_inv_reach: "process_reach err px0 px \<Longrightarrow> process_inv err px0 \<Longrightarrow> process_inv err px"
  by (induction rule: process_reach.induct) (auto intro: process_inv_step)

text \<open>An entry panics in its own task when it is bound and asks for more permits than a semaphore has.\<close>

lemma start_entry_ok: "entry_ok (start_entry tcp_bind r p b)"
  by (auto simp: start_entry_def builder_serve_def proxy_run_def proxy_serve_eq entry_ok_def res_simps serve_inv_start Let_def
      split: option.splits sum.splits if_splits)

lemma start_entry_task:
  assumes "build_proxy w p sd = Some (Inr b)"
  shows "snd (start_entry tcp_bind r p b) =
    (case tcp_bind (p_listen_addr p) of
       Some e \<Rightarrow> Failed (ErrProxy (Bind (p_listen_addr p) e))
     | None \<Rightarrow> if MAX_PERMITS < p_max_connections p then Panicked
              else Serving (serve_start (b_limits b) (the (b_policies_rx b)) sd r))"
  using assms
proof (rule build_proxy_Inr, goal_cases)
  case (1 utls c ltls lstart ps)
  then show ?case
    by (auto simp: start_entry_def builder_serve_def proxy_run_def proxy_serve_eq entry_limits_def split: option.splits)
qed





lemma process_inv_start:
  fixes w :: "('pe, 'cert, 'key, 'x, 'e, 's) build_world"
  assumes "run_with_config install tcp_bind r w c = Some (Inr px)"
  shows "process_inv err px"
proof -
  from assms obtain bs :: "('cert, 'key, 's) entry_builder list" where px: "px = \<lparr>px_entries = map2 (start_entry tcp_bind r) (c_proxy c) bs, px_shutdown = initial_watch,
      px_signal_task = Waiting, px_reload_task = Waiting, px_joined = {}, px_outcome = None\<rparr>"
    by (auto simp: run_with_config_def split: option.splits sum.splits)
  show ?thesis by (auto simp: process_inv_def px set_zip start_entry_ok)
qed

subsection \<open>A concrete process\<close>

definition demo_world :: "(unit, string, string, unit, unit, unit sqlite_store) build_world" where
  "demo_world = \<lparr>bw_read = \<lambda>_. Inr ''f'', bw_toml = \<lambda>_. Inr (TomlTable demo_policy_file),
     bw_addr = \<lambda>_. None, bw_tls = demo_tls_lib, bw_stores = \<lambda>_. demo_env []\<rparr>"

definition demo_entry :: proxy_config where
  "demo_entry = demo_proxy_config \<lparr>sock_ip = V4 127 0 0 1, sock_port = 389\<rparr>"

definition demo_start ::
  "((unit, unit, unit) error + ((unit, unit, unit) error, unit sqlite_store threshold_policy) process) option" where
  "demo_start = run_with_config (\<lambda>_. None) (\<lambda>_. None) zero_metrics demo_world
     \<lparr>c_proxy = [demo_entry], c_metrics = None, c_health = None\<rparr>"

lemma demo_entry_builds:
  "\<exists>b. build_proxy demo_world (demo_entry\<lparr>p_max_connections := n\<rparr>) sd = Some (Inr b :: (unit, unit, unit) error + _)"
proof -
  have "is_ok (entry_upstream_tls demo_tls_lib demo_entry)" "is_ok (entry_listen_tls demo_tls_lib (p_listen_tls demo_entry))"
    "is_ok (entry_listen_tls demo_tls_lib (p_listen_starttls demo_entry))" "is_ok (load_policies demo_world (ps_file (p_policy demo_entry)))"
    by code_simp+
  moreover have "p_upstream_addrs demo_entry \<noteq> []" by (simp add: demo_entry_def demo_proxy_config_def)
  moreover have "bw_tls demo_world = demo_tls_lib" by (simp add: demo_world_def)
  moreover have "entry_upstream_tls demo_tls_lib (demo_entry\<lparr>p_max_connections := n\<rparr>) = entry_upstream_tls demo_tls_lib demo_entry"
    by (simp add: entry_upstream_tls_def)
  ultimately show ?thesis
    by (auto simp: build_proxy_def is_ok_def with_targets_def pool_new_def Let_def split: sum.splits)
qed

lemma demo_entry_itself: "demo_entry\<lparr>p_max_connections := 7\<rparr> = demo_entry"
  by (simp add: demo_entry_def demo_proxy_config_def)

lemma demo_start_runs:
  "\<exists>ps lim. demo_start = Some (Inr \<lparr>px_entries = [(''p.toml'', Serving (serve_start lim ps initial_watch zero_metrics))],
      px_shutdown = initial_watch, px_signal_task = Waiting, px_reload_task = Waiting, px_joined = {}, px_outcome = None\<rparr>)"
proof -
  obtain b where b: "build_proxy demo_world demo_entry initial_watch = Some (Inr b :: (unit, unit, unit) error + _)"
    using demo_entry_builds [of 7] unfolding demo_entry_itself by blast
  have "p_max_connections demo_entry \<le> MAX_PERMITS" "ps_file (p_policy demo_entry) = ''p.toml''"
    by (simp_all add: demo_entry_def demo_proxy_config_def MAX_PERMITS_def)
  then have "start_entry (\<lambda>_. None) zero_metrics demo_entry b
      = (''p.toml'', Serving (serve_start (b_limits b) (the (b_policies_rx b)) initial_watch zero_metrics)
           :: ((unit, unit, unit) error, _) entry_task)"
    using start_entry_task [OF b, of "\<lambda>_. None" zero_metrics] by (intro prod_eqI) (simp_all add: start_entry_def)
  with b show ?thesis by (simp add: demo_start_def run_with_config_def) blast
qed

text \<open>The run that ends: the signal, the entry that stops, the reload task that leaves, the join.\<close>

definition demo_end :: "'l serve_state \<Rightarrow> (string \<times> ('err, 'l) entry_task) list" where
  "demo_end s = [(''p.toml'', Serving (s\<lparr>shutdown := \<lparr>requested = True, sender_alive = False\<rparr>, serving := Stopped (Inr ())\<rparr>))]"

lemma demo_run_ends:
  fixes px0 :: "('err, 'pol) process"
  assumes "px0 = \<lparr>px_entries = [(''p.toml'', Serving (serve_start lim ps initial_watch r))], px_shutdown = initial_watch,
      px_signal_task = Waiting, px_reload_task = Waiting, px_joined = {}, px_outcome = None\<rparr>"
  shows "process_reach err px0 \<lparr>px_entries = demo_end (serve_start lim ps initial_watch r),
      px_shutdown = \<lparr>requested = True, sender_alive = False\<rparr>, px_signal_task = Finished, px_reload_task = Finished,
      px_joined = {0}, px_outcome = Some (Returned (Inr ()))\<rparr>"
proof -
  let ?w = "\<lparr>requested = True, sender_alive = False\<rparr>" and ?s = "serve_start lim ps initial_watch r"
  let ?s1 = "?s\<lparr>shutdown := ?w\<rparr>"
  let ?p1 = "shutdown_signal px0" and ?p2 = "(shutdown_signal px0)\<lparr>px_entries := demo_end ?s\<rparr>"
  have e1: "px_entries ?p1 ! 0 = (''p.toml'', Serving ?s1)" "0 < length (px_entries ?p1)" "px_outcome ?p1 = None"
    by (simp_all add: assms shutdown_signal_def watch_changed_def)
  have stop: "serve_step ?s1 (on_shutdown ?s1)"
    by (rule sv_shutdown) (simp_all add: serve_start_def wait_for_shutdown_def)
  have sd: "on_shutdown ?s1 = ?s1\<lparr>serving := Stopped (Inr ())\<rparr>" by (simp add: on_shutdown_def serve_start_def)
  have "px_entries ?p1 = [(''p.toml'', Serving ?s1)]" by (simp add: assms shutdown_signal_def watch_changed_def)
  then have "process_step err ?p1 ?p2"
    using px_entry [OF e1(3,2,1) stop] unfolding sd by (simp add: demo_end_def)
  moreover have "process_step err px0 ?p1" by (rule px_signal) (simp_all add: assms)
  moreover have "process_step err ?p2 (?p2\<lparr>px_reload_task := Finished\<rparr>)"
    by (rule px_reload_exit) (simp_all add: assms shutdown_signal_def watch_changed_def wait_for_shutdown_def)
  moreover have "process_step err (?p2\<lparr>px_reload_task := Finished\<rparr>) (?p2\<lparr>px_reload_task := Finished, px_joined := {0}\<rparr>)"
    using px_join [of "?p2\<lparr>px_reload_task := Finished\<rparr>" 0 err]
    by (simp add: assms shutdown_signal_def watch_changed_def demo_end_def entry_result_Serving)
  moreover have "process_step err (?p2\<lparr>px_reload_task := Finished, px_joined := {0}\<rparr>)
      (?p2\<lparr>px_reload_task := Finished, px_joined := {0}, px_outcome := Some (Returned (Inr ()))\<rparr>)"
    using px_done [of "?p2\<lparr>px_reload_task := Finished, px_joined := {0}\<rparr>" err]
    by (simp add: assms shutdown_signal_def watch_changed_def demo_end_def lessThan_Suc)
  ultimately have "process_reach err px0 (?p2\<lparr>px_reload_task := Finished, px_joined := {0}, px_outcome := Some (Returned (Inr ()))\<rparr>)"
    by (meson px_start px_next)
  then show ?thesis by (simp add: assms shutdown_signal_def watch_changed_def)
qed

subsection \<open>Properties\<close>



text \<open>C27 An entry runs as it is configured. Its builder has the configured address; the connection limit and
  both timeouts, in seconds, as they are in the file; on the listener, for TLS and for StartTLS, exactly what the
  TLS library makes of the configured certificate, key and client CA files, and nothing where nothing is
  configured; the policies of its file; and towards the directory the configured targets, strategy and cooldown,
  StartTLS if asked for, and exactly what the library makes of the configured server name, CA file and client
  certificate. A setting that cannot be honoured is an error, never dropped. Served, it runs with these limits
  and policies, unless it cannot be bound or asks for too many permits.\<close>

theorem entry_follows_config:
  fixes w :: "('pe, 'cert, 'key, 'x, 'e, 's) build_world"
  assumes "build_proxy w p sd = Some (Inr b :: ('pe, 'x, 'me) error + _)"
  shows "b_listen_addr b = p_listen_addr p
    \<and> b_limits b = \<lparr>max_connections = p_max_connections p, io_timeout = p_io_timeout_secs p * 1000000000,
                   shutdown_timeout = p_shutdown_timeout_secs p * 1000000000\<rparr>
    \<and> b_shutdown b = sd
    \<and> (case p_listen_tls p of None \<Rightarrow> b_listen_tls b = None
         | Some t \<Rightarrow> \<exists>x. listen_tls_from_files (bw_tls w) (lt_cert_file t) (lt_key_file t) (lt_client_ca_file t) = Inr x
                      \<and> b_listen_tls b = Some x)
    \<and> (case p_listen_starttls p of None \<Rightarrow> b_listen_starttls b = None
         | Some t \<Rightarrow> \<exists>x. listen_tls_from_files (bw_tls w) (lt_cert_file t) (lt_key_file t) (lt_client_ca_file t) = Inr x
                      \<and> b_listen_starttls b = Some x)
    \<and> (\<exists>ps. load_policies w (ps_file (p_policy p)) = Inr ps \<and> b_policies_rx b = Some ps
         \<and> snd (start_entry tcp_bind r p b :: _ \<times> (('pe, 'x, 'me) error, _) entry_task) =
             (case tcp_bind (p_listen_addr p) of
                Some e \<Rightarrow> Failed (ErrProxy (Bind (p_listen_addr p) e))
              | None \<Rightarrow> if 2 ^ 61 - 1 < p_max_connections p then Panicked else Serving (serve_start (b_limits b) ps sd r)))
    \<and> (\<exists>c. b_connector b = Some c
         \<and> map t_addr (targets (pool c)) = p_upstream_addrs p \<and> strategy (pool c) = p_upstream_strategy p
         \<and> cooldown (pool c) = p_upstream_failure_cooldown_secs p * 1000000000
         \<and> (case p_upstream_tls p of None \<Rightarrow> upstream_tls c = None
              | Some t \<Rightarrow> \<exists>x. upstream_tls_new (bw_tls w) (ut_server_name t) (ut_ca_file t)
                    (case ut_client_cert t of None \<Rightarrow> None | Some k \<Rightarrow> Some (cc_cert_file k, cc_key_file k)) = Inr x
                  \<and> upstream_tls c = Some x)
         \<and> (upstream_starttls c \<longleftrightarrow> (\<exists>t. p_upstream_tls p = Some t \<and> ut_starttls t)))"
  using assms
proof (rule build_proxy_Inr, goal_cases)
  case (1 utls c ltls lstart ps)
  have c: "map t_addr (targets (pool c)) = p_upstream_addrs p" "strategy (pool c) = p_upstream_strategy p"
      "cooldown (pool c) = p_upstream_failure_cooldown_secs p * 1000000000" "upstream_tls c = utls"
    using 1(2) by (auto simp: with_targets_def pool_new_def comp_def from_secs_def split: if_splits)
  have lim: "entry_limits p = \<lparr>max_connections = p_max_connections p, io_timeout = p_io_timeout_secs p * 1000000000,
                   shutdown_timeout = p_shutdown_timeout_secs p * 1000000000\<rparr>"
    by (simp add: entry_limits_def from_secs_def)
  note tls = 1(1) [unfolded entry_upstream_tls_def, THEN try_opt_loaded]
    1(3,4) [unfolded entry_listen_tls_def, THEN try_opt_loaded]
  have cert: "(case x of None \<Rightarrow> None | Some k \<Rightarrow> Some (cc_cert_file k, cc_key_file k))
      = map_option (\<lambda>k. (cc_cert_file k, cc_key_file k)) x" for x by (cases x) simp_all
  let ?C = "with_starttls c (case p_upstream_tls p of Some tls \<Rightarrow> ut_starttls tls | None \<Rightarrow> False)"
  have b: "b_listen_addr b = p_listen_addr p" "b_limits b = entry_limits p" "b_shutdown b = sd" "b_listen_tls b = ltls"
      "b_listen_starttls b = lstart" "b_policies_rx b = Some ps" "b_connector b = Some ?C"
    by (simp_all add: 1(6))
  have st: "upstream_starttls ?C \<longleftrightarrow> (\<exists>t. p_upstream_tls p = Some t \<and> ut_starttls t)"
    "upstream_tls ?C = utls" "pool ?C = pool c"
    using c(4) by (auto simp: with_starttls_def split: option.splits)
  have "snd (start_entry tcp_bind r p b :: _ \<times> (('pe, 'x, 'me) error, _) entry_task) =
      (case tcp_bind (p_listen_addr p) of
         Some e \<Rightarrow> Failed (ErrProxy (Bind (p_listen_addr p) e))
       | None \<Rightarrow> if 2 ^ 61 - 1 < p_max_connections p then Panicked else Serving (serve_start (entry_limits p) ps sd r))"
    unfolding start_entry_task [OF assms] b(2,6) option.sel MAX_PERMITS_def by simp
  with 1(5) c tls st(1) show ?case
    unfolding b option.inject cert lim
    by (intro conjI exI [of _ ps] exI [of _ ?C]) (simp_all only: st(2,3) lim)
qed

theorem entry_follows_config_witness:
  "\<exists>b. build_proxy demo_world demo_entry initial_watch = Some (Inr b :: (unit, unit, unit) error + _)
     \<and> b_listen_tls b = None \<and> b_listen_starttls b \<noteq> None \<and> max_connections (b_limits b) = 7"
proof -
  obtain b where b: "build_proxy demo_world demo_entry initial_watch = Some (Inr b :: (unit, unit, unit) error + _)"
    using demo_entry_builds [of 7] unfolding demo_entry_itself by blast
  from entry_follows_config [OF b] b show ?thesis
    by (auto simp: demo_entry_def demo_proxy_config_def split: option.splits)
qed

text \<open>One entry that cannot be built stops the whole start: no listener accepts a connection unless
  every entry of the configuration has been built.\<close>

theorem startup_all_or_nothing:
  fixes w :: "('pe, 'cert, 'key, 'x, 'e, 's) build_world" and install :: "socket_addr \<Rightarrow> 'me option"
  assumes "run_with_config install tcp_bind r w c = Some (Inr px)"
  shows "length (px_entries px) = length (c_proxy c) \<and> px_outcome px = None
    \<and> (\<forall>p \<in> set (c_proxy c). \<exists>b. build_proxy w p initial_watch = Some (Inr b :: ('pe, 'x, 'me) error + _))"
proof -
  from assms obtain bs :: "('cert, 'key, 's) entry_builder list" where
    bs: "build_all w initial_watch (c_proxy c) = Some (Inr bs :: ('pe, 'x, 'me) error + _)"
    and px: "px_entries px = map2 (start_entry tcp_bind r) (c_proxy c) bs" "px_outcome px = None"
    by (auto simp: run_with_config_def split: option.splits sum.splits)
  from build_all_Inr [OF bs] px show ?thesis by (auto simp: in_set_conv_nth)
qed

theorem startup_all_or_nothing_witness:
  "\<exists>px. demo_start = Some (Inr px) \<and> length (px_entries px) = 1"
proof -
  obtain px where px: "demo_start = Some (Inr px)" using demo_start_runs by blast
  from startup_all_or_nothing [OF px [unfolded demo_start_def]] px show ?thesis by auto
qed

text \<open>A reload reaches every entry by itself: an entry whose policy file loads gets the new list, one
  whose file does not keeps the list it has, and nothing else of any entry changes, running connections
  included.\<close>

theorem reload_isolated:
  assumes "k < length (px_entries px)" "px_entries px ! k = (path, Serving s)"
  shows "px_entries (reload_policies load px) ! k =
      (path, Serving (case load path of Inr ps \<Rightarrow> s\<lparr>current_policies := ps\<rparr> | Inl _ \<Rightarrow> s))
    \<and> reload_policies load px = px\<lparr>px_entries := px_entries (reload_policies load px)\<rparr>"
  using assms by (auto simp: reload_policies_def reload_entry_def split: sum.splits)

theorem reload_isolated_witness:
  "\<exists>px s. demo_start = Some (Inr px)
     \<and> px_entries (reload_policies (\<lambda>_. Inl () :: unit + unit sqlite_store threshold_policy list) px) ! 0 = (''p.toml'', Serving s)
     \<and> px_entries px ! 0 = (''p.toml'', Serving s)"
proof -
  obtain px s where px: "demo_start = Some (Inr px)" "px_entries px = [(''p.toml'', Serving s)]" using demo_start_runs by fastforce
  then have k: "0 < length (px_entries px)" "px_entries px ! 0 = (''p.toml'', Serving s)" by simp_all
  from reload_isolated [OF k, of "\<lambda>_. Inl () :: unit + unit sqlite_store threshold_policy list"] px k show ?thesis by auto
qed

text \<open>A reload forgets what was admitted: every policy of a reloaded file that has no \<open>state_db\<close> starts
  with an empty history, so that each \<open>SIGHUP\<close> gives all identities their whole budget again inside the
  same window.\<close>

theorem reload_forgets_history:
  fixes w :: "('pe, 'cert, 'key, 'x, 'e, 's) build_world"
  assumes "load_policies w path = Inr ps" "p \<in> set ps" "state_db (config p) = None"
  shows "hist p = empty_history"
proof -
  from assms(1,2) obtain env :: "('e, 's) store_env" and e where "p = fst (build_entry env e)"
    by (auto simp: load_policies_def policies_load_def policies_parse_def res_simps)
  with assms(3) show ?thesis
    by (cases e) (auto simp: build_entry_def Let_def threshold_new_def open_state_def split: prod.splits)
qed

theorem reload_forgets_history_witness:
  "\<exists>ps. load_policies demo_world ''p.toml'' = Inr ps \<and> hist (ps ! 0) = empty_history"
proof -
  have ok: "is_ok (load_policies demo_world ''p.toml'')" "length (projr (load_policies demo_world ''p.toml'')) = 2"
    and db: "case state_db (config (projr (load_policies demo_world ''p.toml'') ! 0)) of None \<Rightarrow> True | Some _ \<Rightarrow> False"
    by code_simp+
  obtain ps where ps: "load_policies demo_world ''p.toml'' = Inr ps" using ok(1) by (auto simp: is_ok_def split: sum.splits)
  have "ps ! 0 \<in> set ps" "state_db (config (ps ! 0)) = None" using ok(2) db ps by (auto split: option.splits)
  from reload_forgets_history [OF ps this] ps show ?thesis by blast
qed

text \<open>C14 How the process ends: while it runs every entry keeps its connection limit; it returns without an
  error only after a shutdown was requested and every entry has stopped of its own accord, and with an
  error only if an entry ended with that error; after an error, or when it unwinds, no accept loop is left, and the
  connections that were running are aborted, not waited for.\<close>

theorem process_ends_cleanly:
  assumes "run_with_config install tcp_bind r w c = Some (Inr px0)" "process_reach ErrProxy px0 px"
    and "(path, Serving s) \<in> set (px_entries px)"
  shows "length (running s) \<le> max_connections (limits s)
    \<and> (px_outcome px = Some (Returned (Inr ())) \<longrightarrow>
         requested (px_shutdown px) \<and> running s = [] \<and> (\<exists>u. serving s = Stopped (Inr u)))
    \<and> (\<forall>e. px_outcome px = Some (Returned (Inl e)) \<longrightarrow> serving s \<noteq> Accepting \<and> serving s \<noteq> Draining \<and> tasks s = []
         \<and> (\<exists>x \<in> set (px_entries px). entry_result ErrProxy (snd x) = Some (Inl e)))
    \<and> (px_outcome px = Some Unwound \<longrightarrow> serving s \<noteq> Accepting \<and> serving s \<noteq> Draining \<and> tasks s = [])"
proof -
  have inv: "process_inv ErrProxy px" using process_inv_reach [OF assms(2) process_inv_start [OF assms(1)]] .
  then have ok: "\<forall>e \<in> set (px_entries px). entry_ok e" unfolding process_inv_def by blast
  from bspec [OF ok assms(3)] have s: "serve_inv s" by (simp add: entry_ok_def)
  obtain k where k: "k < length (px_entries px)" "px_entries px ! k = (path, Serving s)"
    using assms(3) by (auto simp: in_set_conv_nth)
  have "length (running s) \<le> max_connections (limits s)" using s unfolding serve_inv_def by linarith
  moreover have "requested (px_shutdown px) \<and> running s = [] \<and> (\<exists>u. serving s = Stopped (Inr u))"
    if "px_outcome px = Some (Returned (Inr ()))"
  proof -
    have j: "requested (px_shutdown px)" "k \<in> px_joined px" using inv that k(1) unfolding process_inv_def by blast+
    moreover have "entry_result ErrProxy (snd (px_entries px ! k)) = Some (Inr ())"
      using inv j(2) k(1) unfolding process_inv_def by blast
    ultimately show ?thesis using s k by (auto simp: entry_result_Serving serve_inv_def)
  qed
  moreover have "serving s \<noteq> Accepting \<and> serving s \<noteq> Draining \<and> tasks s = []"
    if "px_outcome px = Some (Returned (Inl e)) \<or> px_outcome px = Some Unwound" for e
  proof -
    have "has_ended (serving s)" using inv that assms(3) unfolding process_inv_def by fastforce
    with s show ?thesis by (auto simp: has_ended_def serve_inv_def)
  qed
  moreover have "\<exists>x \<in> set (px_entries px). entry_result ErrProxy (snd x) = Some (Inl e)"
    if "px_outcome px = Some (Returned (Inl e))" for e using inv that unfolding process_inv_def by blast
  ultimately show ?thesis by blast
qed

theorem process_ends_cleanly_witness:
  "\<exists>px0 px s. demo_start = Some (Inr px0) \<and> process_reach ErrProxy px0 px
     \<and> (''p.toml'', Serving s) \<in> set (px_entries px) \<and> px_outcome px = Some (Returned (Inr ()))
     \<and> requested (px_shutdown px) \<and> running s = []"
proof -
  obtain ps lim where px0: "demo_start = Some (Inr \<lparr>px_entries = [(''p.toml'', Serving (serve_start lim ps initial_watch zero_metrics))],
      px_shutdown = initial_watch, px_signal_task = Waiting, px_reload_task = Waiting, px_joined = {}, px_outcome = None\<rparr>)"
    using demo_start_runs by blast
  note run = demo_run_ends [OF refl, where lim = lim and ps = ps and r = zero_metrics and err = "ErrProxy :: proxy_error \<Rightarrow> (unit, unit, unit) error"]
  let ?px = "\<lparr>px_entries = demo_end (serve_start lim ps initial_watch zero_metrics),
      px_shutdown = \<lparr>requested = True, sender_alive = False\<rparr>, px_signal_task = Finished, px_reload_task = Finished,
      px_joined = {0}, px_outcome = Some (Returned (Inr ()))\<rparr> :: ((unit, unit, unit) error, unit sqlite_store threshold_policy) process"
  obtain s where s: "(''p.toml'', Serving s) \<in> set (px_entries ?px)" by (auto simp: demo_end_def)
  from process_ends_cleanly [OF px0 [unfolded demo_start_def] run s]
  have "running s = []" "requested (px_shutdown ?px)" by simp_all
  with px0 run s show ?thesis by (intro exI conjI) (assumption | simp)+
qed

end
