(* ===== verification/Proxy_Properties.thy ===== *)
theory Proxy_Properties
  imports Proxy_Serve Ldap_Properties
begin

text \<open>
  Properties of a relayed LDAP connection, for every interleaving of its two directions, every
  behaviour of the client and the directory, and every decision of the policies.
\<close>

interpretation relay: relayed_connector "ldap_connector env" "total_encoder env" for env
  by (intro relayed_connector.intro ldap.frame_connector_axioms)

subsection \<open>The work left to a relay\<close>

text \<open>A turn takes at least a byte off a stream or ends the connection, a write empties the slot that a
  turn filled.\<close>

definition slot :: "'a option \<Rightarrow> nat" where
  "slot x = (case x of None \<Rightarrow> 0 | Some _ \<Rightarrow> 1)"

definition relay_work :: "conn \<Rightarrow> nat" where
  "relay_work c = (if outcome c \<noteq> None then 0
     else Suc (2 * (slot (first_frame c) + length (incoming (client_in c)) + length (incoming (upstream_in c)))
               + slot (client_pending c) + slot (upstream_pending c)))"

context relayed_connector
begin

lemma relay_work_decreases:
  assumes "conn_step C ev io_to (c, sh) (c', sh')" "outcome c = None"
  shows "relay_work c' < relay_work c"
  using assms(1)
proof (rule conn_stepE)
  fix clk assume p: "client_pending c = None" and "client_turn C ev clk c sh = (c', sh')"
  from this(2) show ?thesis
  proof (cases rule: client_turn_cases)
    case (frame f v out s claim)
    with p assms(2) frame_shortens [of "client_in c" f s] show ?thesis by (auto simp: relay_work_def slot_def)
  qed (use assms(2) in \<open>simp add: relay_work_def\<close>)
next
  assume p: "upstream_pending c = None" "c' = upstream_turn C c"
  show ?thesis
  proof (cases rule: upstream_turn_cases [of C c])
    case (frame f s b)
    with p assms(2) frame_shortens [of "upstream_in c" f s] show ?thesis by (auto simp: relay_work_def slot_def)
  qed (use assms(2) p in \<open>simp add: relay_work_def\<close>)
qed (use assms(2) in \<open>auto simp: relay_work_def slot_def client_write_def upstream_write_def cut_short_def Let_def
      split: option.splits emission.splits\<close>)

end

subsection \<open>A concrete connection for the witnesses\<close>

text \<open>A policy that blocks every deletion, and a client that binds, deletes and searches.\<close>

definition demo_evaluator :: "unit evaluator" where
  "demo_evaluator p now a ctx = (if operation a = Delete then (Block ''no deletions'', p) else (Allow, p))"

definition demo_shared :: "unit shared" where
  "demo_shared = \<lparr>policies = [()], audit = [], metrics = zero_metrics\<rparr>"

definition del_frame :: octets where "del_frame = [0x30, 1, 1]"
definition search_frame :: octets where "search_frame = [0x30, 1, 2]"
definition refusal_frame :: octets where "refusal_frame = [0x30, 1, 3]"
definition bind_frame :: octets where "bind_frame = [0x30, 1, 4]"
definition bind_ok_frame :: octets where "bind_ok_frame = [0x30, 1, 5]"
definition anonymous_frame :: octets where "anonymous_frame = [0x30, 1, 6]"

definition demo_ldap :: ldap_env where
  "demo_ldap = table_env
     [(del_frame, \<lparr>msg_id = 9, protocol_op = DelRequest ''cn=Eve''\<rparr>),
      (search_frame, \<lparr>msg_id = 10, protocol_op = OtherOp\<rparr>),
      (refusal_frame, \<lparr>msg_id = 9, protocol_op = DelResponse (ldap_result_new UnwillingToPerform [] ''no deletions'')\<rparr>),
      (bind_frame, \<lparr>msg_id = 5, protocol_op = BindRequest ''CN=Victim'' (Simple [1])\<rparr>),
      (bind_ok_frame, \<lparr>msg_id = 5, protocol_op = BindResponse Success\<rparr>),
      (anonymous_frame, \<lparr>msg_id = 5, protocol_op = BindRequest [] (Simple [])\<rparr>)]"

text \<open>A client that asks for StartTLS, on a socket whose TLS session delivers a search.\<close>

definition starttls_env :: ldap_env where
  "starttls_env = table_env
     [(del_frame, \<lparr>msg_id = 1, protocol_op = ExtendedReq (bytes_of_string START_TLS_OID) None\<rparr>),
      (search_frame, \<lparr>msg_id = 2, protocol_op = OtherOp\<rparr>)]"

definition demo_world :: "(unit, stream_in) client_world" where
  "demo_world = \<lparr>read_expires = False, write_response = Done (Inr ()),
     tls_accept = (\<lambda>_ s. Done (Inr \<lparr>incoming = search_frame, ending = Eof\<rparr>)), tls_in = (\<lambda>s. s)\<rparr>"

text \<open>A run of turns and writes, one direction after the other as the list says.\<close>

datatype demo_move = CT | CW | UT | UW

fun demo_moves :: "demo_move list \<Rightarrow> conn \<times> unit shared \<Rightarrow> conn \<times> unit shared" where
  "demo_moves [] s = s"
| "demo_moves (m # ms) (c, sh) = demo_moves ms
     (case m of
        CT \<Rightarrow> client_turn (ldap_connector demo_ldap) demo_evaluator (\<lambda>_. 0) c sh
      | CW \<Rightarrow> (client_write c, sh)
      | UT \<Rightarrow> (upstream_turn (ldap_connector demo_ldap) c, sh)
      | UW \<Rightarrow> (upstream_write c, sh))"

fun demo_enabled :: "demo_move list \<Rightarrow> conn \<times> unit shared \<Rightarrow> bool" where
  "demo_enabled [] s = True"
| "demo_enabled (m # ms) s \<longleftrightarrow>
     outcome (fst s) = None
     \<and> (case m of CT \<Rightarrow> client_pending (fst s) = None | CW \<Rightarrow> client_pending (fst s) \<noteq> None
         | UT \<Rightarrow> upstream_pending (fst s) = None | UW \<Rightarrow> upstream_pending (fst s) \<noteq> None)
     \<and> demo_enabled ms (demo_moves [m] s)"

lemma demo_moves_reach:
  assumes "demo_enabled ms (c, sh)" "conn_reach (ldap_connector demo_ldap) demo_evaluator io_to c0 c"
  shows "conn_reach (ldap_connector demo_ldap) demo_evaluator io_to c0 (fst (demo_moves ms (c, sh)))"
  using assms
proof (induction ms arbitrary: c sh)
  case (Cons m ms)
  obtain c' sh' where n: "demo_moves [m] (c, sh) = (c', sh')" by fastforce
  have "conn_step (ldap_connector demo_ldap) demo_evaluator io_to (c, sh) (c', sh')"
    using Cons.prems(1) n by (cases m) (auto intro: conn_step.intros)
  from Cons.IH [OF _ conn_reach_step [OF Cons.prems(2) this]] Cons.prems(1) n show ?case by (cases m) auto
qed simp

definition demo_conn :: "octets \<Rightarrow> octets \<Rightarrow> conn" where
  "demo_conn cb ub = conn_start (demo_addr 7) None \<lparr>incoming = cb, ending = Eof\<rparr> \<lparr>incoming = ub, ending = Eof\<rparr>"

lemma demo_run_reach:
  "demo_enabled ms (demo_conn cb ub, demo_shared) \<Longrightarrow>
     conn_reach (ldap_connector demo_ldap) demo_evaluator io_to (demo_conn cb ub) (fst (demo_moves ms (demo_conn cb ub, demo_shared)))"
  by (rule demo_moves_reach) (simp_all add: conn_reach_start)

subsection \<open>Properties\<close>

text \<open>C4 What reaches the directory: exactly the client's own bytes, in order and unchanged, with the
  frames that were blocked cut out; every frame that is an action was put to the policies first, and
  a frame that is not one is passed on. Only the end of the connection can leave the tail unsent.\<close>

theorem relay_cuts_out_blocked:
  assumes "conn_reach (ldap_connector env) ev io_to (conn_start addr first ci ui) c"
  shows "\<exists>rest missing.
      client_bytes (conn_start addr first ci ui) = concat (map fst (handled c)) @ rest
    \<and> to_upstream c @ missing = concat (map fst (filter (\<lambda>(f, v). \<not> is_block v) (handled c)))
    \<and> (outcome c = None \<longrightarrow> missing = pending_up c \<and> rest = client_bytes c)
    \<and> (\<forall>(f, v) \<in> set (handled c). ldap_decode env f = Inr None \<and> v = None
          \<or> (\<exists>a d. ldap_decode env f = Inr (Some a) \<and> v = Some d))"
proof -
  from relay.bytes_ok_reach [OF assms] obtain rest where
    rest: "client_bytes (conn_start addr first ci ui) = concat (map fst (handled c)) @ rest"
      "outcome c = None \<longrightarrow> rest = client_bytes c" by (auto simp: bytes_ok_def)
  from streams_ok_reach [OF assms] obtain m where m: "to_upstream c @ pending_up c @ m = passed (handled c)"
    "outcome c = None \<longrightarrow> m = []" by (auto simp: streams_ok_def upstream_ok_def)
  have "\<forall>(f, v) \<in> set (handled c). ldap_decode env f = Inr None \<and> v = None
          \<or> (\<exists>a d. ldap_decode env f = Inr (Some a) \<and> v = Some d)"
  proof (intro ballI, clarify)
    fix f v
    assume "(f, v) \<in> set (handled c)" "\<not> (\<exists>a d. ldap_decode env f = Inr (Some a) \<and> v = Some d)"
    moreover obtain out where "verdict_ok (ldap_connector env) f v out"
      using verdicts_ok_reach [OF assms] calculation(1) by (auto simp: verdicts_ok_def)
    ultimately show "ldap_decode env f = Inr None \<and> v = None"
      by (auto simp: verdict_ok_def ldap_connector_def split: option.splits decision.splits)
  qed
  with rest m show ?thesis
    by (intro exI [of _ rest] exI [of _ "pending_up c @ m"]) (simp add: passed_def)
qed

theorem relay_cuts_out_blocked_witness:
  "let c = fst (demo_moves [CT, CW, CT, CW] (demo_conn (del_frame @ search_frame) [], demo_shared))
   in to_upstream c = search_frame \<and> to_client c = refusal_frame \<and> map fst (handled c) = [del_frame, search_frame]
      \<and> (\<exists>rest. del_frame @ search_frame = concat (map fst (handled c)) @ rest)"
proof -
  let ?c = "fst (demo_moves [CT, CW, CT, CW] (demo_conn (del_frame @ search_frame) [], demo_shared))"
  have en: "demo_enabled [CT, CW, CT, CW] (demo_conn (del_frame @ search_frame) [], demo_shared)" by code_simp
  note cut = relay_cuts_out_blocked [OF demo_run_reach [OF en, unfolded demo_conn_def], folded demo_conn_def]
  have "client_bytes (demo_conn (del_frame @ search_frame) []) = del_frame @ search_frame"
    by (simp add: demo_conn_def conn_start_def client_bytes_def)
  moreover have "to_upstream ?c = search_frame" "to_client ?c = refusal_frame" "map fst (handled ?c) = [del_frame, search_frame]"
    by code_simp+
  moreover obtain rest where "client_bytes (demo_conn (del_frame @ search_frame) []) = concat (map fst (handled ?c)) @ rest"
    using cut by blast
  ultimately show ?thesis unfolding Let_def by simp
qed

text \<open>C15 What reaches the client: whole frames, each a response of the directory or the rejection of a
  blocked request. The responses are the directory's frames in order and unchanged, the rejections are those
  of the blocked requests in the order they were made. While the connection runs the only ones not delivered
  are those about to be written; when it ends at most one response and one rejection are left undelivered,
  and what is cut short is the beginning of one of these.\<close>

theorem client_gets_whole_frames:
  assumes "conn_reach (ldap_connector env) ev io_to (conn_start addr first ci ui) c"
  shows "\<exists>frames part rest m1 m2.
      to_client c = concat (map snd frames) @ part
    \<and> incoming ui = concat (resolved c) @ rest
    \<and> map snd (filter fst frames) @ m1 = resolved c
    \<and> map Inr (map snd (filter (Not \<circ> fst) frames) @ m2)
        = map (\<lambda>(f, v). ldap_build_rejection env f (case v of Some (Block r) \<Rightarrow> r | _ \<Rightarrow> []))
            (filter (\<lambda>(f, v). is_block v) (handled c))
    \<and> length m1 \<le> 1 \<and> length m2 \<le> 1
    \<and> (outcome c = None \<longrightarrow> part = [] \<and> m1 = pending_response c \<and> m2 = pending_rejection c \<and> rest = incoming (upstream_in c))
    \<and> (part \<noteq> [] \<longrightarrow> (\<exists>f \<in> set (m1 @ m2). \<exists>tail. f = part @ tail))"
proof -
  from relay.bytes_ok_reach [OF assms] obtain rest where rest: "incoming ui = concat (resolved c) @ rest"
    "outcome c = None \<longrightarrow> rest = incoming (upstream_in c)" by (auto simp: bytes_ok_def)
  from streams_ok_reach [OF assms] obtain m1 m2 part where m: "client_side (ldap_connector env) c m1 m2 part"
    by (auto simp: streams_ok_def)
  have "build_rejection (ldap_connector env) = ldap_build_rejection env" by (simp add: ldap_connector_def)
  note m = m [unfolded client_side_def rejections_def this append_assoc]
  show ?thesis
    by (rule exI [of _ "delivered c"], rule exI [of _ part], rule exI [of _ rest],
        rule exI [of _ "pending_response c @ m1"], rule exI [of _ "pending_rejection c @ m2"])
      (use m rest in \<open>simp, blast\<close>)
qed

theorem client_gets_whole_frames_witness:
  "let c = fst (demo_moves [CT, UT, UW, CW] (demo_conn del_frame bind_ok_frame, demo_shared))
   in to_client c = bind_ok_frame @ refusal_frame
      \<and> (\<exists>frames. to_client c = concat (map snd frames) \<and> map snd (filter fst frames) = [bind_ok_frame])"
proof -
  let ?c = "fst (demo_moves [CT, UT, UW, CW] (demo_conn del_frame bind_ok_frame, demo_shared))"
  have en: "demo_enabled [CT, UT, UW, CW] (demo_conn del_frame bind_ok_frame, demo_shared)" by code_simp
  note whole = client_gets_whole_frames [OF demo_run_reach [OF en, unfolded demo_conn_def], folded demo_conn_def]
  have "outcome ?c = None" "to_client ?c = bind_ok_frame @ refusal_frame" "resolved ?c = [bind_ok_frame]" "pending_response ?c = []"
    by code_simp+
  with whole show ?thesis unfolding Let_def by (elim exE conjE) auto
qed

text \<open>C6 A claimed name counts only when it is confirmed: at every moment the identity of a connection
  is the peer's address, or a name that a bind request of the client claimed under a message id for
  which the directory has answered a bind with success.\<close>

theorem identity_needs_confirmation:
  assumes "conn_reach (ldap_connector env) ev io_to (conn_start addr first ci ui) c"
  shows "bs_identity (c_bind c) = from_peer_addr addr
    \<or> (\<exists>mid dn f v g. (f, v) \<in> set (handled c) \<and> ldap_bind_request env f = Inr (Some (mid, dn))
         \<and> g \<in> set (resolved c) \<and> ldap_bind_response env g = Inr (Some (mid, True))
         \<and> bs_identity (c_bind c) = from_bind_dn dn)"
proof -
  have b: "bind_ok (ldap_connector env) c" and p: "peer c = addr" using bind_ok_reach [OF assms] by blast+
  from b p show ?thesis
    by (fastforce simp: bind_ok_def claimed_def confirmed_def ldap_connector_def)
qed

theorem identity_needs_confirmation_witness:
  "let c = fst (demo_moves [CT, CW, UT] (demo_conn bind_frame bind_ok_frame, demo_shared))
   in bs_identity (c_bind c) = Identity ''dn:cn=victim''
      \<and> (\<exists>mid dn g. g \<in> set (resolved c) \<and> ldap_bind_response demo_ldap g = Inr (Some (mid, True))
           \<and> bs_identity (c_bind c) = from_bind_dn dn)"
proof -
  let ?c = "fst (demo_moves [CT, CW, UT] (demo_conn bind_frame bind_ok_frame, demo_shared))"
  have en: "demo_enabled [CT, CW, UT] (demo_conn bind_frame bind_ok_frame, demo_shared)" by code_simp
  note ident = identity_needs_confirmation [OF demo_run_reach [OF en, unfolded demo_conn_def], folded demo_conn_def]
  have "bs_identity (c_bind ?c) = Identity ''dn:cn=victim''" "bs_identity (c_bind ?c) \<noteq> from_peer_addr (demo_addr 7)"
    by code_simp+
  with ident show ?thesis unfolding Let_def by blast
qed

text \<open>Unresolved claims are bounded: a connection never holds more than \<open>MAX_PENDING_BINDS\<close> of them,
  one per message id, however many binds the client pipelines.\<close>

theorem pending_binds_bounded:
  assumes "conn_reach (ldap_connector env) ev io_to (conn_start addr first ci ui) c"
  shows "length (bs_pending (c_bind c)) \<le> MAX_PENDING_BINDS \<and> distinct (map fst (bs_pending (c_bind c)))"
  using bind_ok_reach [OF assms] by (auto simp: bind_ok_def pending_ok_def)

theorem pending_binds_bounded_witness:
  "length (bs_pending (c_bind (fst (demo_moves [CT, CW, CT, CW] (demo_conn (bind_frame @ bind_frame) [], demo_shared))))) \<le> 1024"
proof -
  have en: "demo_enabled [CT, CW, CT, CW] (demo_conn (bind_frame @ bind_frame) [], demo_shared)" by code_simp
  from pending_binds_bounded [OF demo_run_reach [OF en, unfolded demo_conn_def]] show ?thesis
    by (simp add: demo_conn_def MAX_PENDING_BINDS_def)
qed

text \<open>A message id used twice defeats the confirmation: a client that sends an anonymous bind and,
  before it is answered, a bind that claims another's name under the same message id, is given that
  name by the answer to the anonymous bind, whatever password it sent. (The comments on
  \<open>BindState\<close> and on \<open>bind_response\<close> say that a name never verified by the directory is not
  trusted.)\<close>

theorem reused_message_id_confirms_claim:
  "let c = fst (demo_moves [CT, CW, CT, CW, UT] (demo_conn (anonymous_frame @ bind_frame) bind_ok_frame, demo_shared))
   in conn_reach (ldap_connector demo_ldap) demo_evaluator 60 (demo_conn (anonymous_frame @ bind_frame) bind_ok_frame) c
      \<and> ldap_bind_request demo_ldap anonymous_frame = Inr None
      \<and> resolved c = [bind_ok_frame] \<and> bs_identity (c_bind c) = from_bind_dn ''cn=victim''"
proof -
  have "demo_enabled [CT, CW, CT, CW, UT] (demo_conn (anonymous_frame @ bind_frame) bind_ok_frame, demo_shared)" by code_simp
  note r = demo_run_reach [OF this]
  have "ldap_bind_request demo_ldap anonymous_frame = Inr None"
    "resolved (fst (demo_moves [CT, CW, CT, CW, UT] (demo_conn (anonymous_frame @ bind_frame) bind_ok_frame, demo_shared))) = [bind_ok_frame]"
    "bs_identity (c_bind (fst (demo_moves [CT, CW, CT, CW, UT] (demo_conn (anonymous_frame @ bind_frame) bind_ok_frame, demo_shared))))
       = from_bind_dn ''cn=victim''" by code_simp+
  with r show ?thesis by (simp only: Let_def simp_thms)
qed

text \<open>C19 The relay ends: a connection that has not ended can always take a step, and no connection takes
  steps for ever on streams that hold a finite number of bytes, whatever the order of its steps and
  whatever the other connections do to the policies meanwhile.\<close>

theorem relay_ends:
  "(outcome c = None \<longrightarrow> (\<exists>c' sh'. conn_step (ldap_connector env) ev io_to (c, sh) (c', sh')))
   \<and> wf {(c', c). outcome c = None \<and> (\<exists>sh sh'. conn_step (ldap_connector env) ev io_to (c, sh) (c', sh'))}"
proof
  show "outcome c = None \<longrightarrow> (\<exists>c' sh'. conn_step (ldap_connector env) ev io_to (c, sh) (c', sh'))"
    by (cases "upstream_pending c") (blast intro: conn_step.intros)+
  show "wf {(c', c). outcome c = None \<and> (\<exists>sh sh'. conn_step (ldap_connector env) ev io_to (c, sh) (c', sh'))}"
    by (rule wf_subset [OF wf_measure [of relay_work]]) (auto dest: relay.relay_work_decreases)
qed

theorem relay_ends_witness:
  "\<exists>c' sh'. conn_step (ldap_connector demo_ldap) demo_evaluator 60 (demo_conn del_frame [], demo_shared) (c', sh')"
proof -
  have "outcome (demo_conn del_frame []) = None" by (simp add: demo_conn_def conn_start_def)
  with relay_ends show ?thesis by blast
qed

text \<open>C18 From the socket to the relay: when the listener offers StartTLS on a plain socket, either the
  client does not ask for it and the relay starts with every byte the client sent, the peeked frame
  included, or its first frame is the request, the handshake runs on what follows, and the relay sees
  what comes out of the TLS session and not one byte of what was sent in the clear. In every other case
  the relay starts on the stream as it was accepted.\<close>

theorem upgrade_hands_over:
  assumes "handle_connection (ldap_connector env) io_to w starttls dialled elapsed stream addr r = (Inr c, r')"
  shows "case (starttls, stream) of
      (Some l, Plain tcp) \<Rightarrow>
        client_bytes c = incoming tcp \<and> (\<forall>f. first_frame c = Some f \<longrightarrow> ldap_upgrade_request env f = Inr None)
        \<or> (\<exists>f answer rest t. incoming tcp = f @ incoming rest \<and> ldap_upgrade_request env f = Inr (Some answer)
             \<and> tls_accept w l rest = Done (Inr t) \<and> client_bytes c = incoming (tls_in w t) \<and> first_frame c = None)
    | _ \<Rightarrow> first_frame c = None \<and> client_in c = stream_of w stream"
proof -
  from assms obtain s1 first ui where up: "maybe_upgrade_to_tls (ldap_connector env) io_to w starttls stream = (Inr (s1, first), False)"
    and c: "c = conn_start addr first (stream_of w s1) ui"
    by (auto simp: handle_connection_def maybe_upgrade_to_tls_def Let_def
        split: prod.splits sum.splits option.splits maybe_tls_stream.splits)
  show ?thesis
  proof (cases "\<exists>l tcp. starttls = Some l \<and> stream = Plain tcp")
    case False
    with up c show ?thesis
      by (auto simp: maybe_upgrade_to_tls_def conn_start_def split: option.splits maybe_tls_stream.splits)
  next
    case True
    then obtain l tcp where s: "starttls = Some l" "stream = Plain tcp" by blast
    obtain x tcp1 where x: "read_frame (ldap_connector env) tcp = (x, tcp1)" by fastforce
    note bytes = ldap.frame_bytes [of env tcp _ tcp1] ldap.clean_end [of env tcp tcp1]
    show ?thesis
      using up s x c bytes
      by (auto simp: maybe_upgrade_to_tls_def Let_def with_timeout_def conn_start_def client_bytes_def stream_of_def
          ldap_connector_def split: sum.splits option.splits timed.splits if_splits) blast
  qed
qed

theorem upgrade_hands_over_witness:
  "\<exists>c r. handle_connection (ldap_connector starttls_env) 60 demo_world (Some ()) (Done (Inr \<lparr>incoming = [], ending = Eof\<rparr>)) 0
      (Plain \<lparr>incoming = del_frame @ [1, 2], ending = Eof\<rparr>) (demo_addr 7) zero_metrics = (Inr c, r)
    \<and> client_bytes c = search_frame"
proof -
  let ?tcp = "\<lparr>incoming = del_frame @ [1, 2], ending = Eof\<rparr>"
  let ?h = "handle_connection (ldap_connector starttls_env) 60 demo_world (Some ()) (Done (Inr \<lparr>incoming = [], ending = Eof\<rparr>)) 0
      (Plain ?tcp) (demo_addr 7) zero_metrics"
  have "(case fst ?h of Inl _ \<Rightarrow> None | Inr c \<Rightarrow> Some (first_frame c, incoming (client_in c))) = Some (None, search_frame)"
    by code_simp
  then obtain c r where c: "?h = (Inr c, r)" "first_frame c = None" "incoming (client_in c) = search_frame"
    by (cases ?h; cases "fst ?h") auto
  have ne: "search_frame \<noteq> del_frame @ [1, 2]" by code_simp
  have "client_bytes c = search_frame"
    using upgrade_hands_over [OF c(1)] c(2,3) ne by (auto simp: client_bytes_def demo_world_def)
  with c(1) show ?thesis by blast
qed

end
