(* ===== verification/Policy_Threads.thy ===== *)
theory Policy_Threads
  imports Threshold_Budget
begin

text \<open>
  \<open>evaluate_all\<close> under concurrent requests. The connections of an entry share the policies of its
  chain; each policy has its own lock, so that the requests of several threads are in the chain at the
  same time and pass one another between two policies. A step here is one \<open>evaluate\<close> under its lock, with
  the clock reading it makes inside it: readings of one policy are in order, those of two policies need
  not be.

  \<open>ch_seen\<close> is a ghost field: for each policy the evaluations it has made, with the thread that asked.
\<close>

subsection \<open>Threads in a chain\<close>

record chain_thread =
  th_action :: action
  th_ctx :: policy_context
  th_next :: nat
  th_result :: "decision option"

record 's chain_state =
  ch_policies :: "'s threshold_policy list"
  ch_threads :: "chain_thread list"
  ch_seen :: "nat \<Rightarrow> (nat \<times> request \<times> decision) list"

definition thread_start :: "action \<Rightarrow> policy_context \<Rightarrow> chain_thread" where
  "thread_start a ctx = \<lparr>th_action = a, th_ctx = ctx, th_next = 0, th_result = None\<rparr>"

text \<open>What a thread does with the decision of the policy it asked: on to the next one, or out with the
  block.\<close>

definition thread_after :: "decision \<Rightarrow> chain_thread \<Rightarrow> chain_thread" where
  "thread_after d t = (case d of Allow \<Rightarrow> t\<lparr>th_next := Suc (th_next t)\<rparr> | Block r \<Rightarrow> t\<lparr>th_result := Some (Block r)\<rparr>)"

definition thread_asks :: "nat \<Rightarrow> instant \<Rightarrow> 's chain_state \<Rightarrow> 's chain_state" where
  "thread_asks k now s =
     (let t = ch_threads s ! k; j = th_next t;
          (d, p) = evaluate (ch_policies s ! j) now (th_action t) (th_ctx t)
      in s\<lparr>ch_policies := (ch_policies s)[j := p], ch_threads := (ch_threads s)[k := thread_after d t],
           ch_seen := (ch_seen s)(j := ch_seen s j @ [(k, (now, th_action t, th_ctx t), d)])\<rparr>)"

definition asked_by_then :: "'s chain_state \<Rightarrow> nat \<Rightarrow> instant \<Rightarrow> bool" where
  "asked_by_then s j now \<longleftrightarrow> list_all (\<lambda>e. fst (fst (snd e)) \<le> now) (ch_seen s j)"

inductive chain_step :: "'s chain_state \<Rightarrow> 's chain_state \<Rightarrow> bool" where
  ch_enter: "chain_step s (s\<lparr>ch_threads := ch_threads s @ [thread_start a ctx]\<rparr>)"
| ch_ask:
    "k < length (ch_threads s) \<Longrightarrow> th_result (ch_threads s ! k) = None \<Longrightarrow>
     th_next (ch_threads s ! k) < length (ch_policies s) \<Longrightarrow> asked_by_then s (th_next (ch_threads s ! k)) now \<Longrightarrow>
     chain_step s (thread_asks k now s)"
| ch_return:
    "k < length (ch_threads s) \<Longrightarrow> th_result (ch_threads s ! k) = None \<Longrightarrow>
     th_next (ch_threads s ! k) = length (ch_policies s) \<Longrightarrow>
     chain_step s (s\<lparr>ch_threads := (ch_threads s)[k := (ch_threads s ! k)\<lparr>th_result := Some Allow\<rparr>]\<rparr>)"

inductive chain_reach :: "'s threshold_policy list \<Rightarrow> 's chain_state \<Rightarrow> bool" for ps0 where
  chain_begin: "chain_reach ps0 \<lparr>ch_policies = ps0, ch_threads = [], ch_seen = (\<lambda>_. [])\<rparr>"
| chain_next: "chain_reach ps0 s \<Longrightarrow> chain_step s s' \<Longrightarrow> chain_reach ps0 s'"

subsection \<open>What each policy has decided\<close>

definition requests_at :: "'s chain_state \<Rightarrow> nat \<Rightarrow> request list" where
  "requests_at s g = map (fst \<circ> snd) (ch_seen s g)"

definition decisions_at :: "'s chain_state \<Rightarrow> nat \<Rightarrow> decision list" where
  "decisions_at s g = map (snd \<circ> snd) (ch_seen s g)"

definition seen_by :: "'s chain_state \<Rightarrow> nat \<Rightarrow> nat \<Rightarrow> (request \<times> decision) list" where
  "seen_by s k g = map snd (filter (\<lambda>e. fst e = k) (ch_seen s g))"

definition policy_trace :: "'s threshold_policy list \<Rightarrow> 's chain_state \<Rightarrow> bool" where
  "policy_trace ps0 s \<longleftrightarrow> length (ch_policies s) = length ps0
     \<and> (\<forall>g < length ps0. run_evaluate (ps0 ! g) (requests_at s g) = (decisions_at s g, ch_policies s ! g)
          \<and> sorted (map fst (requests_at s g)))"

lemma policy_trace_step: "chain_step s s' \<Longrightarrow> policy_trace ps0 s \<Longrightarrow> policy_trace ps0 s'"
proof (induction rule: chain_step.induct)
  case (ch_ask k s now)
  let ?t = "ch_threads s ! k"
  let ?j = "th_next ?t"
  obtain d p where e: "evaluate (ch_policies s ! ?j) now (th_action ?t) (th_ctx ?t) = (d, p)" by fastforce
  have old: "run_evaluate (ps0 ! g) (requests_at s g) = (decisions_at s g, ch_policies s ! g)"
    "sorted (map fst (requests_at s g))" if "g < length ps0" for g
    using ch_ask.prems that by (auto simp: policy_trace_def)
  have "run_evaluate (ps0 ! ?j) (requests_at s ?j @ [(now, th_action ?t, th_ctx ?t)]) = (decisions_at s ?j @ [d], p)"
    if "?j < length ps0" using old [OF that] e by (simp add: run_evaluate_snoc)
  moreover have "sorted (map fst (requests_at s ?j @ [(now, th_action ?t, th_ctx ?t)]))" if "?j < length ps0"
    using old(2) [OF that] ch_ask.hyps(4)
    by (auto simp: sorted_append asked_by_then_def requests_at_def list_all_iff)
  ultimately show ?case
    using ch_ask.prems old e
    by (auto simp: policy_trace_def thread_asks_def requests_at_def decisions_at_def nth_list_update Let_def)
qed (auto simp: policy_trace_def requests_at_def decisions_at_def)

subsection \<open>What each thread has been told\<close>

definition thread_trace :: "nat \<Rightarrow> (nat \<Rightarrow> (request \<times> decision) list) \<Rightarrow> chain_thread \<Rightarrow> bool" where
  "thread_trace n seen t \<longleftrightarrow>
       th_next t \<le> n \<and> (th_result t = Some Allow \<longrightarrow> th_next t = n)
     \<and> (\<forall>g < th_next t. \<exists>now. seen g = [((now, th_action t, th_ctx t), Allow)])
     \<and> (\<forall>g > th_next t. seen g = [])
     \<and> (case th_result t of
          Some (Block r) \<Rightarrow> th_next t < n \<and> (\<exists>now. seen (th_next t) = [((now, th_action t, th_ctx t), Block r)])
        | _ \<Rightarrow> seen (th_next t) = [])"

definition threads_trace :: "nat \<Rightarrow> 's chain_state \<Rightarrow> bool" where
  "threads_trace n s \<longleftrightarrow> length (ch_policies s) = n
     \<and> (\<forall>g. \<forall>e \<in> set (ch_seen s g). fst e < length (ch_threads s))
     \<and> (\<forall>k < length (ch_threads s). thread_trace n (seen_by s k) (ch_threads s ! k))"

lemma seen_by_threads [simp]: "seen_by (s\<lparr>ch_threads := x\<rparr>) k = seen_by s k"
  by (intro ext) (simp add: seen_by_def)

lemma seen_by_asks:
  "seen_by (thread_asks k now s) k' g = seen_by s k' g @
     (if k' = k \<and> g = th_next (ch_threads s ! k)
      then [((now, th_action (ch_threads s ! k), th_ctx (ch_threads s ! k)),
             fst (evaluate (ch_policies s ! g) now (th_action (ch_threads s ! k)) (th_ctx (ch_threads s ! k))))]
      else [])"
  by (auto simp: seen_by_def thread_asks_def Let_def split: prod.splits)

lemma thread_trace_after:
  assumes "thread_trace n seen t" "th_result t = None" "th_next t < n"
    and "seen' = seen(th_next t := [((now, th_action t, th_ctx t), d)])"
  shows "thread_trace n seen' (thread_after d t)"
  using assms by (cases d) (auto simp: thread_trace_def thread_after_def less_Suc_eq)

lemma threads_trace_step: "chain_step s s' \<Longrightarrow> threads_trace n s \<Longrightarrow> threads_trace n s'"
proof (induction rule: chain_step.induct)
  case (ch_enter s a ctx)
  have "seen_by s (length (ch_threads s)) g = []" for g
    using ch_enter by (fastforce simp: threads_trace_def seen_by_def filter_empty_conv)
  then have "thread_trace n (seen_by s (length (ch_threads s))) (thread_start a ctx)"
    by (simp add: thread_trace_def thread_start_def)
  with ch_enter show ?case by (auto simp: threads_trace_def nth_append less_Suc_eq)
next
  case (ch_ask k s now)
  let ?t = "ch_threads s ! k" and ?s = "thread_asks k now s"
  obtain d p where e: "evaluate (ch_policies s ! th_next ?t) now (th_action ?t) (th_ctx ?t) = (d, p)" by fastforce
  have s': "ch_threads ?s = (ch_threads s)[k := thread_after d ?t]" "length (ch_policies ?s) = length (ch_policies s)"
    "ch_seen ?s = (ch_seen s)(th_next ?t := ch_seen s (th_next ?t) @ [(k, (now, th_action ?t, th_ctx ?t), d)])"
    using e by (simp_all add: thread_asks_def Let_def)
  have tr: "thread_trace n (seen_by s k) ?t" using ch_ask.prems ch_ask.hyps(1) by (simp add: threads_trace_def)
  then have "seen_by s k (th_next ?t) = []" using ch_ask.hyps(2) by (simp add: thread_trace_def)
  then have "seen_by ?s k = (seen_by s k)(th_next ?t := [((now, th_action ?t, th_ctx ?t), d)])"
    using e by (intro ext) (simp add: seen_by_asks)
  with tr ch_ask.hyps ch_ask.prems have "thread_trace n (seen_by ?s k) (thread_after d ?t)"
    by (intro thread_trace_after) (simp_all add: threads_trace_def)
  moreover have "seen_by ?s k' = seen_by s k'" if "k' \<noteq> k" for k' using that by (intro ext) (simp add: seen_by_asks)
  ultimately show ?case using ch_ask.prems ch_ask.hyps(1) by (auto simp: threads_trace_def s' nth_list_update)
next
  case (ch_return k s)
  then have "thread_trace n (seen_by s k) (ch_threads s ! k)" by (simp add: threads_trace_def)
  with ch_return have "thread_trace n (seen_by s k) ((ch_threads s ! k)\<lparr>th_result := Some Allow\<rparr>)"
    by (simp add: thread_trace_def threads_trace_def)
  with ch_return show ?case by (auto simp: threads_trace_def nth_list_update)
qed

lemma chain_reach_traces: "chain_reach ps0 s \<Longrightarrow> policy_trace ps0 s \<and> threads_trace (length ps0) s"
proof (induction rule: chain_reach.induct)
  case chain_begin
  show ?case by (simp add: policy_trace_def threads_trace_def requests_at_def decisions_at_def)
next
  case (chain_next s s')
  then show ?case by (blast intro: policy_trace_step threads_trace_step)
qed

subsection \<open>A thread alone\<close>

text \<open>A thread that no other one overtakes gets the decision of \<open>evaluate_all\<close> and leaves its state.\<close>

fun asks_in_turn :: "nat \<Rightarrow> instant list \<Rightarrow> 's chain_state \<Rightarrow> 's chain_state" where
  "asks_in_turn k [] s = s"
| "asks_in_turn k (now # ts) s =
     (if th_result (ch_threads s ! k) = None then asks_in_turn k ts (thread_asks k now s) else s)"

lemma asks_in_turn_evaluate_all:
  assumes "k < length (ch_threads s)" "th_result (ch_threads s ! k) = None" "th_next (ch_threads s ! k) = j"
    and "ch_policies s = done @ ps" "length done = j" "length ts = length ps"
    and "evaluate_all evaluate (\<lambda>i. ts ! i) ps (th_action (ch_threads s ! k)) (th_ctx (ch_threads s ! k)) = (d, ps')"
  shows "ch_policies (asks_in_turn k ts s) = done @ ps'
    \<and> th_result (ch_threads (asks_in_turn k ts s) ! k) = (if d = Allow then None else Some d)
    \<and> (d = Allow \<longrightarrow> th_next (ch_threads (asks_in_turn k ts s) ! k) = j + length ps)"
  using assms
proof (induction ts arbitrary: s j "done" ps ps')
  case (Cons now ts)
  then obtain q qs where ps: "ps = q # qs" by (cases ps) auto
  let ?t = "ch_threads s ! k"
  obtain e q' where e: "evaluate q now (th_action ?t) (th_ctx ?t) = (e, q')" by fastforce
  let ?s = "thread_asks k now s"
  have at: "ch_policies s ! j = q" using Cons.prems(4,5) ps by auto
  have s': "ch_policies ?s = done @ q' # qs" "ch_threads ?s = (ch_threads s)[k := thread_after e ?t]"
    using Cons.prems(3-5) e at ps by (auto simp: thread_asks_def Let_def list_update_append)
  show ?case
  proof (cases e)
    case (Block r)
    have stop: "asks_in_turn k ts ?s = ?s"
      using s'(2) Block Cons.prems(1) by (cases ts) (simp_all add: thread_after_def)
    have "d = Block r" "ps' = q' # qs" using Cons.prems(7) ps e Block by auto
    with stop s' Block Cons.prems(1,2) show ?thesis by (simp add: thread_after_def)
  next
    case Allow
    obtain qs' where qs': "evaluate_all evaluate (\<lambda>i. ts ! i) qs (th_action ?t) (th_ctx ?t) = (d, qs')" "ps' = q' # qs'"
      using Cons.prems(7) ps e Allow by (auto split: prod.splits)
    have "ch_policies (asks_in_turn k ts ?s) = (done @ [q']) @ qs'
      \<and> th_result (ch_threads (asks_in_turn k ts ?s) ! k) = (if d = Allow then None else Some d)
      \<and> (d = Allow \<longrightarrow> th_next (ch_threads (asks_in_turn k ts ?s) ! k) = Suc j + length qs)"
      by (rule Cons.IH) (use Cons.prems ps s' Allow qs'(1) in \<open>simp_all add: thread_after_def\<close>)
    with Cons.prems(2) qs'(2) ps show ?thesis by simp
  qed
qed simp

lemma asks_in_turn_reach:
  assumes "chain_reach ps0 s" "k < length (ch_threads s)" "sorted ts"
    and "\<forall>x \<in> set ts. \<forall>j < length (ch_policies s). asked_by_then s j x"
    and "th_next (ch_threads s ! k) + length ts \<le> length (ch_policies s)"
  shows "chain_reach ps0 (asks_in_turn k ts s) \<and> length (ch_threads (asks_in_turn k ts s)) = length (ch_threads s)
    \<and> length (ch_policies (asks_in_turn k ts s)) = length (ch_policies s)"
  using assms
proof (induction ts arbitrary: s)
  case (Cons now ts)
  show ?case
  proof (cases "th_result (ch_threads s ! k) = None")
    case True
    let ?s = "thread_asks k now s"
    have "chain_reach ps0 ?s" by (rule chain_next [OF Cons.prems(1)], rule ch_ask) (use Cons.prems True in auto)
    moreover have "asked_by_then ?s j x" if "x \<in> set ts" "j < length (ch_policies s)" for j x
      using Cons.prems(3,4) that by (auto simp: asked_by_then_def thread_asks_def Let_def split: prod.splits)
    moreover have "th_next (ch_threads ?s ! k) + length ts \<le> length (ch_policies ?s)"
      "length (ch_threads ?s) = length (ch_threads s)" "length (ch_policies ?s) = length (ch_policies s)"
      using Cons.prems(2,5) by (auto simp: thread_asks_def thread_after_def Let_def split: prod.splits decision.splits)
    ultimately show ?thesis using Cons.IH [of ?s] Cons.prems(2,3) True by simp
  qed (use Cons.prems in auto)
qed simp

definition demo_threads :: "unit chain_state" where
  "demo_threads =
     (let p = demo_policy (demo_config Global 1 0); t = thread_start demo_lock \<lparr>ctx_identity = Identity ''a''\<rparr>
      in thread_asks 1 3 (thread_asks 0 2 (thread_asks 0 1
           \<lparr>ch_policies = [p, p], ch_threads = [t, t], ch_seen = (\<lambda>_. [])\<rparr>)))"

lemma demo_threads_reach:
  "chain_reach [demo_policy (demo_config Global 1 0), demo_policy (demo_config Global 1 0)] demo_threads"
proof -
  let ?p = "demo_policy (demo_config Global 1 0)" and ?t = "thread_start demo_lock \<lparr>ctx_identity = Identity ''a''\<rparr>"
  let ?s0 = "\<lparr>ch_policies = [?p, ?p], ch_threads = [], ch_seen = (\<lambda>_. [])\<rparr> :: unit chain_state"
  let ?s2 = "\<lparr>ch_policies = [?p, ?p], ch_threads = [?t, ?t], ch_seen = (\<lambda>_. [])\<rparr> :: unit chain_state"
  let ?s3 = "thread_asks 0 1 ?s2"
  let ?s4 = "thread_asks 0 2 ?s3"
  have e: "chain_step s (s\<lparr>ch_threads := ch_threads s @ [?t]\<rparr>)" for s :: "unit chain_state" by (rule ch_enter)
  have two: "chain_reach [?p, ?p] ?s2" using chain_next [OF chain_next [OF chain_begin e] e] by simp
  have "chain_step ?s2 ?s3" by (rule ch_ask) code_simp+
  moreover have "chain_step ?s3 ?s4" by (rule ch_ask) code_simp+
  moreover have "chain_step ?s4 (thread_asks 1 3 ?s4)" by (rule ch_ask) code_simp+
  ultimately show ?thesis using two unfolding demo_threads_def Let_def by (blast intro: chain_next)
qed

subsection \<open>Properties\<close>

text \<open>C3 A chain under concurrent requests: however the threads pass one another between the policies,
  each policy of the chain that started with an empty history, and whose requests so far have at most
  \<open>max_tracked_identities\<close> distinct history keys (so that nothing has been evicted), takes the decisions of its
  sliding-window specification over the requests that reach it, in the order of its clock; a thread that is told \<open>Allow\<close> has been admitted, and charged,
  by every policy exactly once, and one that is told \<open>Block\<close> has that block from one policy and has asked
  none behind it.\<close>

theorem chain_refines_spec:
  assumes "chain_reach ps0 s" "g < length ps0" "fresh c (ps0 ! g)" "keys_fit c (run_keys c (requests_at s g))"
    and "\<forall>(now, a, ctx) \<in> set (requests_at s g). no_overflow c a"
  shows "map (\<lambda>d. d = Allow) (decisions_at s g) = fst (spec_run c [] (requests_at s g))
    \<and> (\<forall>k < length (ch_threads s). let t = ch_threads s ! k in
         case th_result t of
           None \<Rightarrow> True
         | Some Allow \<Rightarrow> \<exists>now. seen_by s k g = [((now, th_action t, th_ctx t), Allow)]
         | Some (Block r) \<Rightarrow> th_next t < length ps0
             \<and> (\<exists>now. seen_by s k (th_next t) = [((now, th_action t, th_ctx t), Block r)])
             \<and> (\<forall>j > th_next t. seen_by s k j = []))"
proof -
  note tr = chain_reach_traces [OF assms(1)]
  then have run: "run_evaluate (ps0 ! g) (requests_at s g) = (decisions_at s g, ch_policies s ! g)"
    and sorted: "sorted (map fst (requests_at s g))" using assms(2) by (auto simp: policy_trace_def)
  have "map (\<lambda>d. d = Allow) (decisions_at s g) = fst (spec_run c [] (requests_at s g))"
    using fresh_run [OF assms(3) sorted assms(4,5)] by (simp add: run)
  moreover have "let t = ch_threads s ! k in
         case th_result t of
           None \<Rightarrow> True
         | Some Allow \<Rightarrow> \<exists>now. seen_by s k g = [((now, th_action t, th_ctx t), Allow)]
         | Some (Block r) \<Rightarrow> th_next t < length ps0
             \<and> (\<exists>now. seen_by s k (th_next t) = [((now, th_action t, th_ctx t), Block r)])
             \<and> (\<forall>j > th_next t. seen_by s k j = [])" if "k < length (ch_threads s)" for k
    using tr that assms(2) by (auto simp: threads_trace_def thread_trace_def Let_def split: option.splits decision.splits)
  ultimately show ?thesis by blast
qed

theorem chain_refines_spec_witness:
  "map (\<lambda>d. d = Allow) (decisions_at demo_threads 0) = fst (spec_run (demo_config Global 1 0) [] (requests_at demo_threads 0))
   \<and> map (\<lambda>d. d = Allow) (decisions_at demo_threads 0) = [True, False] \<and> length (requests_at demo_threads 1) = 1"
proof -
  let ?p = "demo_policy (demo_config Global 1 0)"
  have "0 < length [?p, ?p]" "fresh (demo_config Global 1 0) ([?p, ?p] ! 0)"
    "keys_fit (demo_config Global 1 0) (run_keys (demo_config Global 1 0) (requests_at demo_threads 0))"
    "\<forall>(now, a, ctx) \<in> set (requests_at demo_threads 0). no_overflow (demo_config Global 1 0) a" by code_simp+
  note spec = chain_refines_spec [OF demo_threads_reach this]
  have "map (\<lambda>d. d = Allow) (decisions_at demo_threads 0) = [True, False]" "length (requests_at demo_threads 1) = 1" by code_simp+
  with spec show ?thesis by blast
qed

text \<open>\<open>evaluate_all\<close> is one schedule of the chain: in any state the threads have reached, a request that
  enters and is not overtaken returns with exactly the decision of \<open>evaluate_all\<close> on the policies as they
  are, and leaves them as \<open>evaluate_all\<close> does.\<close>

theorem evaluate_all_is_a_schedule:
  assumes "chain_reach ps0 s" "sorted ts" "length ts = length ps0"
    and "\<forall>x \<in> set ts. \<forall>j < length ps0. asked_by_then s j x"
    and "evaluate_all evaluate (\<lambda>i. ts ! i) (ch_policies s) a ctx = (d, ps')"
  shows "\<exists>s'. chain_reach ps0 s' \<and> ch_policies s' = ps'
    \<and> th_result (ch_threads s' ! length (ch_threads s)) = Some d"
proof -
  let ?k = "length (ch_threads s)" and ?s = "s\<lparr>ch_threads := ch_threads s @ [thread_start a ctx]\<rparr>"
  let ?s1 = "asks_in_turn ?k ts ?s"
  have len: "length (ch_policies s) = length ps0" using chain_reach_traces [OF assms(1)] by (simp add: policy_trace_def)
  have t: "ch_threads ?s ! ?k = thread_start a ctx" by simp
  have "asked_by_then ?s j x" if "x \<in> set ts" "j < length ps0" for j x using assms(4) that by (simp add: asked_by_then_def)
  then have r: "chain_reach ps0 ?s1" "length (ch_threads ?s1) = Suc ?k" "length (ch_policies ?s1) = length ps0"
    using asks_in_turn_reach [OF chain_next [OF assms(1) ch_enter [of s a ctx]], of ?k ts] assms(2,3) len t
    by (simp_all add: thread_start_def)
  have res: "ch_policies ?s1 = ps'" "th_result (ch_threads ?s1 ! ?k) = (if d = Allow then None else Some d)"
    "d = Allow \<longrightarrow> th_next (ch_threads ?s1 ! ?k) = length ps0"
    using asks_in_turn_evaluate_all [of ?k ?s 0 "[]" "ch_policies s" ts d ps'] assms(3,5) len t
    by (simp_all add: thread_start_def)
  show ?thesis
  proof (cases "d = Allow")
    case False
    with r res show ?thesis by (intro exI [of _ ?s1]) simp
  next
    case True
    let ?s2 = "?s1\<lparr>ch_threads := (ch_threads ?s1)[?k := (ch_threads ?s1 ! ?k)\<lparr>th_result := Some Allow\<rparr>]\<rparr>"
    have "chain_step ?s1 ?s2" by (rule ch_return) (use r res True in simp_all)
    with chain_next r(1) have "chain_reach ps0 ?s2" by blast
    with r res True show ?thesis by (intro exI [of _ ?s2]) simp
  qed
qed

theorem evaluate_all_is_a_schedule_witness:
  "let p = demo_policy (demo_config Global 1 0); ctx = \<lparr>ctx_identity = Identity ''b''\<rparr>
   in \<exists>s'. chain_reach [p, p] s' \<and> ch_policies s' = snd (evaluate_all evaluate (\<lambda>i. [4, 5] ! i) (ch_policies demo_threads) demo_lock ctx)
     \<and> th_result (ch_threads s' ! 2) = Some (Block ''1 matching actions across all identities in the last 60s would exceed window limit 1'')"
proof -
  let ?p = "demo_policy (demo_config Global 1 0)" and ?ctx = "\<lparr>ctx_identity = Identity ''b''\<rparr>"
  let ?e = "evaluate_all evaluate (\<lambda>i. [4, 5] ! i) (ch_policies demo_threads) demo_lock ?ctx"
  have d: "fst ?e = Block ''1 matching actions across all identities in the last 60s would exceed window limit 1''"
    and n: "length (ch_threads demo_threads) = 2" by code_simp+
  have "asked_by_then demo_threads 0 4" "asked_by_then demo_threads 0 5" "asked_by_then demo_threads 1 4"
    "asked_by_then demo_threads 1 5" by code_simp+
  then have "\<forall>x \<in> set [4, 5]. \<forall>j < length [?p, ?p]. asked_by_then demo_threads j x" by (auto simp: less_Suc_eq)
  moreover have "sorted [4, 5 :: instant]" "length [4, 5 :: instant] = length [?p, ?p]" by simp_all
  ultimately show ?thesis
    using evaluate_all_is_a_schedule [OF demo_threads_reach, of "[4, 5]" demo_lock ?ctx "fst ?e" "snd ?e"]
    unfolding Let_def d n by (simp only: prod.collapse d [symmetric])
qed

end
