(* ===== verification/Proxy_System.thy ===== *)
theory Proxy_System
  imports Proxy_Properties Policy_Threads
begin

text \<open>
  Many connections over one chain of threshold policies: the composition of the relay of proxy.rs with
  \<open>evaluate_all\<close> and \<open>ThresholdPolicy::evaluate\<close>. Each connection is a task. When it has a frame that is an
  action it enters the chain, asks the policies one by one while the other connections do the same, and
  goes on with the decision it got; meanwhile nothing else of that connection moves, since \<open>evaluate_all\<close>
  does not await.

  A connection sees the chain only through the decision: it is relayed here under the evaluator \<open>answer\<close>,
  whose policy is the decision. \<open>par_log\<close> is a ghost field: the frames admitted, with the connection and
  the thread of the chain that asked for each.
\<close>

subsection \<open>The system\<close>

definition answer :: "decision evaluator" where
  "answer d now a ctx = (d, d)"

text \<open>The request that \<open>handle_client_frame\<close> is going to put to the policies, if the next frame is an
  action.\<close>

definition next_request :: "connector \<Rightarrow> conn \<Rightarrow> (octets \<times> action \<times> policy_context) option" where
  "next_request C c =
     (case next_client_frame C c of
        (Inr (Some f), c1) \<Rightarrow>
          (case bind_request C f of
             Inl _ \<Rightarrow> None
           | Inr claim \<Rightarrow>
               (case decode C f of
                  Inr (Some a) \<Rightarrow> Some (f, a, \<lparr>ctx_identity = bs_identity (stage_claim claim (c_bind c1))\<rparr>)
                | _ \<Rightarrow> None))
      | _ \<Rightarrow> None)"

record 's par_system =
  par_conns :: "conn list"
  par_shared :: "decision shared"
  par_chain :: "'s chain_state"
  par_busy :: "nat \<rightharpoonup> nat"
  par_log :: "(nat \<times> nat \<times> octets) list"

definition admitted_frames :: "conn \<Rightarrow> octets list" where
  "admitted_frames c = map fst (filter (\<lambda>h. snd h = Some Allow) (handled c))"

definition newly_admitted :: "conn \<Rightarrow> conn \<Rightarrow> octets list" where
  "newly_admitted c c' = drop (length (admitted_frames c)) (admitted_frames c')"

inductive par_step :: "connector \<Rightarrow> duration \<Rightarrow> 's par_system \<Rightarrow> 's par_system \<Rightarrow> bool" for C io_to where
  par_enter:
    "k < length (par_conns s) \<Longrightarrow> par_busy s k = None \<Longrightarrow> outcome (par_conns s ! k) = None \<Longrightarrow>
     client_pending (par_conns s ! k) = None \<Longrightarrow> next_request C (par_conns s ! k) = Some (f, a, ctx) \<Longrightarrow>
     par_step C io_to s (s\<lparr>par_busy := (par_busy s)(k \<mapsto> length (ch_threads (par_chain s))),
       par_chain := (par_chain s)\<lparr>ch_threads := ch_threads (par_chain s) @ [thread_start a ctx]\<rparr>\<rparr>)"
| par_ask:
    "chain_step (par_chain s) ch \<Longrightarrow> length (ch_threads ch) = length (ch_threads (par_chain s)) \<Longrightarrow>
     par_step C io_to s (s\<lparr>par_chain := ch\<rparr>)"
| par_decided:
    "k < length (par_conns s) \<Longrightarrow> par_busy s k = Some t \<Longrightarrow> th_result (ch_threads (par_chain s) ! t) = Some d \<Longrightarrow>
     client_turn C answer clk (par_conns s ! k) ((par_shared s)\<lparr>policies := [d]\<rparr>) = (c', sh') \<Longrightarrow>
     par_step C io_to s (s\<lparr>par_conns := (par_conns s)[k := c'], par_shared := sh', par_busy := (par_busy s)(k := None),
       par_log := par_log s @ map (\<lambda>f. (k, t, f)) (newly_admitted (par_conns s ! k) c')\<rparr>)"
| par_other:
    "k < length (par_conns s) \<Longrightarrow> par_busy s k = None \<Longrightarrow>
     conn_step C answer io_to (par_conns s ! k, par_shared s) (c', par_shared s) \<Longrightarrow>
     par_step C io_to s (s\<lparr>par_conns := (par_conns s)[k := c']\<rparr>)"
| par_accept:
    "par_step C io_to s (s\<lparr>par_conns := par_conns s @ [conn_start addr first ci ui]\<rparr>)"

definition par_start :: "'s threshold_policy list \<Rightarrow> registry \<Rightarrow> 's par_system" where
  "par_start ps r =
     \<lparr>par_conns = [], par_shared = \<lparr>policies = [], audit = [], metrics = r\<rparr>,
      par_chain = \<lparr>ch_policies = ps, ch_threads = [], ch_seen = (\<lambda>_. [])\<rparr>, par_busy = (\<lambda>_. None), par_log = []\<rparr>"

inductive par_reach :: "connector \<Rightarrow> duration \<Rightarrow> 's threshold_policy list \<Rightarrow> 's par_system \<Rightarrow> bool" for C io_to ps0 where
  par_begin: "par_reach C io_to ps0 (par_start ps0 r)"
| par_next: "par_reach C io_to ps0 s \<Longrightarrow> par_step C io_to s s' \<Longrightarrow> par_reach C io_to ps0 s'"

subsection \<open>A turn and its decision\<close>

lemma client_turn_decided:
  assumes "next_request C c = Some (f, a, ctx)" "client_turn C answer clk c (sh\<lparr>policies := [d]\<rparr>) = (c', sh')"
  shows "admitted_frames c' = admitted_frames c @ (if d = Allow then [f] else [])"
proof -
  from assms(1) obtain c1 claim where n: "next_client_frame C c = (Inr (Some f), c1)" "bind_request C f = Inr claim"
    "decode C f = Inr (Some a)" by (auto simp: next_request_def split: prod.splits sum.splits option.splits)
  have "handled c1 = handled c" using n(1) by (auto simp: next_client_frame_def split: option.splits prod.splits)
  with assms(2) n show ?thesis
    by (auto simp: client_turn_def handle_client_frame_def Let_def decide_def answer_def admitted_frames_def
        split: sum.splits option.splits prod.splits decision.splits)
qed

text \<open>A turn that asks no policy admits nothing; one that asks leaves a line in the audit log.\<close>

lemma client_turn_quiet:
  assumes "client_turn C ev clk c sh = (c', sh)"
  shows "admitted_frames c' = admitted_frames c"
proof -
  obtain r c1 where n: "next_client_frame C c = (r, c1)" by fastforce
  have "handled c1 = handled c" using n by (auto simp: next_client_frame_def split: option.splits prod.splits)
  moreover have "snd (decide ev clk a i sh) \<noteq> sh" for a i
  proof
    assume "snd (decide ev clk a i sh) = sh"
    then have "length (audit (snd (decide ev clk a i sh))) = length (audit sh)" by simp
    then show False by (simp add: decide_def split: prod.splits)
  qed
  ultimately show ?thesis using assms n
    by (auto simp: client_turn_def handle_client_frame_def Let_def admitted_frames_def
        split: sum.splits option.splits prod.splits decision.splits) (metis snd_conv)+
qed

lemma conn_step_quiet:
  assumes "conn_step C ev io_to (c, sh) (c', sh)"
  shows "admitted_frames c' = admitted_frames c"
  using assms
proof (rule conn_stepE)
  fix clk assume "client_turn C ev clk c sh = (c', sh)"
  then show ?thesis by (rule client_turn_quiet)
next
  assume "c' = upstream_turn C c"
  then show ?thesis by (cases rule: upstream_turn_cases [of C c]) (simp_all add: admitted_frames_def)
qed (auto simp: admitted_frames_def client_write_def upstream_write_def cut_short_def Let_def split: option.splits emission.splits)

subsection \<open>The invariant\<close>

text \<open>A thread keeps its request and, once it has one, its result.\<close>

lemma chain_step_threads:
  assumes "chain_step s s'" "t < length (ch_threads s)"
  shows "th_action (ch_threads s' ! t) = th_action (ch_threads s ! t) \<and> th_ctx (ch_threads s' ! t) = th_ctx (ch_threads s ! t)
    \<and> (\<forall>d. th_result (ch_threads s ! t) = Some d \<longrightarrow> th_result (ch_threads s' ! t) = Some d)"
  using assms
proof (induction rule: chain_step.induct)
  case (ch_ask k s now)
  then show ?case
    by (cases "t = k") (auto simp: thread_asks_def thread_after_def Let_def split: prod.splits decision.splits)
next
  case (ch_return k s)
  then show ?case by (cases "t = k") auto
qed (simp add: nth_append)

text \<open>A busy connection waits with the request its thread was started with.\<close>

definition waits :: "connector \<Rightarrow> 's par_system \<Rightarrow> nat \<Rightarrow> nat \<Rightarrow> bool" where
  "waits C s k t \<longleftrightarrow> k < length (par_conns s) \<and> t < length (ch_threads (par_chain s))
     \<and> (\<forall>e \<in> set (par_log s). fst (snd e) \<noteq> t) \<and> outcome (par_conns s ! k) = None \<and> client_pending (par_conns s ! k) = None
     \<and> (\<exists>f. next_request C (par_conns s ! k) = Some (f, th_action (ch_threads (par_chain s) ! t), th_ctx (ch_threads (par_chain s) ! t)))"

definition busy_ok :: "connector \<Rightarrow> 's par_system \<Rightarrow> bool" where
  "busy_ok C s \<longleftrightarrow> (\<forall>k t. par_busy s k = Some t \<longrightarrow> waits C s k t)
     \<and> (\<forall>k k' t. par_busy s k = Some t \<longrightarrow> par_busy s k' = Some t \<longrightarrow> k = k')"

text \<open>Every frame of the log was admitted by a thread of its own.\<close>

definition log_ok :: "connector \<Rightarrow> 's par_system \<Rightarrow> bool" where
  "log_ok C s \<longleftrightarrow> distinct (map (fst \<circ> snd) (par_log s))
     \<and> (\<forall>(k, t, f) \<in> set (par_log s). k < length (par_conns s) \<and> t < length (ch_threads (par_chain s))
          \<and> th_result (ch_threads (par_chain s) ! t) = Some Allow
          \<and> decode C f = Inr (Some (th_action (ch_threads (par_chain s) ! t))))"

definition frames_ok :: "'s par_system \<Rightarrow> bool" where
  "frames_ok s \<longleftrightarrow> (\<forall>k < length (par_conns s).
     map (snd \<circ> snd) (filter (\<lambda>e. fst e = k) (par_log s)) = admitted_frames (par_conns s ! k))"

definition requests_ok :: "connector \<Rightarrow> 's par_system \<Rightarrow> bool" where
  "requests_ok C s \<longleftrightarrow> (\<forall>t \<in> set (ch_threads (par_chain s)). \<exists>f. decode C f = Inr (Some (th_action t)))"

definition par_inv :: "connector \<Rightarrow> 's threshold_policy list \<Rightarrow> 's par_system \<Rightarrow> bool" where
  "par_inv C ps0 s \<longleftrightarrow> chain_reach ps0 (par_chain s) \<and> busy_ok C s \<and> log_ok C s \<and> frames_ok s \<and> requests_ok C s"

lemmas par_inv_defs = par_inv_def busy_ok_def waits_def log_ok_def frames_ok_def requests_ok_def

lemma next_request_decode: "next_request C c = Some (f, a, ctx) \<Longrightarrow> decode C f = Inr (Some a)"
  by (auto simp: next_request_def split: prod.splits sum.splits option.splits)

lemma par_inv_enter:
  assumes "par_inv C ps0 s" "k < length (par_conns s)" "outcome (par_conns s ! k) = None" "client_pending (par_conns s ! k) = None"
    and "next_request C (par_conns s ! k) = Some (f, a, ctx)"
  shows "par_inv C ps0 (s\<lparr>par_busy := (par_busy s)(k \<mapsto> length (ch_threads (par_chain s))),
       par_chain := (par_chain s)\<lparr>ch_threads := ch_threads (par_chain s) @ [thread_start a ctx]\<rparr>\<rparr>)"
    (is "par_inv C ps0 ?s")
proof -
  have "chain_reach ps0 (par_chain ?s)" using assms(1) by (auto simp: par_inv_def intro: chain_next ch_enter)
  moreover have "busy_ok C ?s"
  proof -
    have old: "waits C s k' t'" if "par_busy s k' = Some t'" for k' t' using assms(1) that by (simp add: par_inv_def busy_ok_def)
    have "waits C ?s k (length (ch_threads (par_chain s)))"
      using assms by (fastforce simp: waits_def par_inv_def log_ok_def thread_start_def)
    moreover have "waits C ?s k' t' \<and> t' \<noteq> length (ch_threads (par_chain s))" if "par_busy s k' = Some t'" for k' t'
      using old [OF that] by (simp add: waits_def nth_append)
    ultimately show ?thesis using assms(1) by (auto simp: busy_ok_def par_inv_def)
  qed
  moreover have "log_ok C ?s" using assms(1) by (fastforce simp: par_inv_def log_ok_def nth_append)
  moreover have "requests_ok C ?s"
    using assms(1) next_request_decode [OF assms(5)] by (auto simp: par_inv_def requests_ok_def thread_start_def)
  ultimately show ?thesis using assms(1) by (simp add: par_inv_def frames_ok_def)
qed

lemma par_inv_ask:
  assumes "par_inv C ps0 s" "chain_step (par_chain s) ch" "length (ch_threads ch) = length (ch_threads (par_chain s))"
  shows "par_inv C ps0 (s\<lparr>par_chain := ch\<rparr>)"
proof -
  note th = chain_step_threads [OF assms(2)]
  have "requests_ok C (s\<lparr>par_chain := ch\<rparr>)"
    using assms(1,3) th unfolding par_inv_def requests_ok_def by (auto simp: in_set_conv_nth) (metis nth_mem)
  moreover have "busy_ok C (s\<lparr>par_chain := ch\<rparr>)"
    using assms(1,3) unfolding par_inv_def busy_ok_def by (simp add: waits_def th)
  moreover have "log_ok C (s\<lparr>par_chain := ch\<rparr>)"
    using assms(1,3) th unfolding par_inv_def log_ok_def by (fastforce simp: th)
  ultimately show ?thesis using assms(1,2) by (auto simp: par_inv_def frames_ok_def intro: chain_next)
qed

lemma par_inv_decided:
  assumes "par_inv C ps0 s" "k < length (par_conns s)" "par_busy s k = Some t"
    and "th_result (ch_threads (par_chain s) ! t) = Some d"
    and "client_turn C answer clk (par_conns s ! k) ((par_shared s)\<lparr>policies := [d]\<rparr>) = (c', sh')"
  shows "par_inv C ps0 (s\<lparr>par_conns := (par_conns s)[k := c'], par_shared := sh', par_busy := (par_busy s)(k := None),
       par_log := par_log s @ map (\<lambda>f. (k, t, f)) (newly_admitted (par_conns s ! k) c')\<rparr>)"
    (is "par_inv C ps0 ?s")
proof -
  from assms(1,3) obtain f where f: "next_request C (par_conns s ! k) = Some (f, th_action (ch_threads (par_chain s) ! t), th_ctx (ch_threads (par_chain s) ! t))"
    and t: "t < length (ch_threads (par_chain s))" "\<forall>e \<in> set (par_log s). fst (snd e) \<noteq> t" using that unfolding par_inv_def busy_ok_def waits_def by blast
  have adm: "admitted_frames c' = admitted_frames (par_conns s ! k) @ (if d = Allow then [f] else [])"
    by (rule client_turn_decided [OF f assms(5)])
  then have new: "newly_admitted (par_conns s ! k) c' = (if d = Allow then [f] else [])" by (simp add: newly_admitted_def)
  have "waits C ?s k' t'" if "par_busy s k' = Some t'" "k' \<noteq> k" for k' t'
  proof -
    have "waits C s k' t'" "t' \<noteq> t" using assms(1,3) that by (auto simp: par_inv_def busy_ok_def)
    with that(2) show ?thesis by (auto simp: waits_def new)
  qed
  then have "busy_ok C ?s" using assms(1) by (auto simp: par_inv_def busy_ok_def)
  moreover have "log_ok C ?s"
    using assms(1,2,4) t next_request_decode [OF f] by (auto simp: par_inv_def log_ok_def new)
  moreover have "frames_ok ?s"
    using assms(1,2) adm by (auto simp: par_inv_def frames_ok_def new nth_list_update)
  ultimately show ?thesis using assms(1) by (simp add: par_inv_def requests_ok_def)
qed

lemma par_inv_reach: "par_reach C io_to ps0 s \<Longrightarrow> par_inv C ps0 s"
proof (induction rule: par_reach.induct)
  case (par_begin r)
  show ?case by (simp add: par_inv_defs par_start_def chain_begin)
next
  case (par_next s s')
  from par_next(2) show ?case
  proof cases
    case (par_enter k f a ctx)
    with par_inv_enter [OF par_next.IH] show ?thesis by simp
  next
    case (par_ask ch)
    with par_inv_ask [OF par_next.IH] show ?thesis by simp
  next
    case (par_decided k t d clk c' sh')
    with par_inv_decided [OF par_next.IH] show ?thesis by simp
  next
    case (par_other k c')
    with par_next.IH conn_step_quiet [OF par_other(4)] show ?thesis
      unfolding par_inv_defs by (auto simp: nth_list_update)
  next
    case (par_accept addr first ci ui)
    have "admitted_frames (conn_start addr first ci ui) = []" by (simp add: admitted_frames_def conn_start_def)
    moreover have "filter (\<lambda>e. fst e = length (par_conns s)) (par_log s) = []"
      using par_next.IH by (fastforce simp: par_inv_def log_ok_def filter_empty_conv)
    ultimately have "frames_ok s'"
      using par_next.IH by (auto simp: par_accept par_inv_def frames_ok_def nth_append less_Suc_eq)
    moreover have "busy_ok C s'" "log_ok C s'"
      using par_next.IH by (fastforce simp: par_accept par_inv_def busy_ok_def waits_def log_ok_def nth_append)+
    ultimately show ?thesis using par_next.IH by (simp add: par_accept par_inv_def requests_ok_def)
  qed
qed

text \<open>Whatever is shown of a single relayed connection holds of each of them.\<close>

definition relayed :: "connector \<Rightarrow> duration \<Rightarrow> conn \<Rightarrow> bool" where
  "relayed C io_to c \<longleftrightarrow> (\<exists>addr first ci ui. conn_reach C answer io_to (conn_start addr first ci ui) c)"

lemma relayed_step: "relayed C io_to c \<Longrightarrow> conn_step C answer io_to (c, sh) (c', sh') \<Longrightarrow> relayed C io_to c'"
  unfolding relayed_def by (blast intro: conn_reach_step)

lemma par_connection:
  assumes "par_reach C io_to ps0 s" "k < length (par_conns s)"
  shows "relayed C io_to (par_conns s ! k)"
  using assms
proof (induction arbitrary: k rule: par_reach.induct)
  case (par_begin r)
  then show ?case by (simp add: par_start_def)
next
  case (par_next s s')
  from par_next(2) show ?case
  proof cases
    case (par_decided k' t d clk c' sh')
    have "outcome (par_conns s ! k') = None \<and> client_pending (par_conns s ! k') = None"
      using par_inv_reach [OF par_next(1)] par_decided(3) by (auto simp: par_inv_def busy_ok_def waits_def)
    then have "conn_step C answer io_to (par_conns s ! k', (par_shared s)\<lparr>policies := [d]\<rparr>) (c', sh')"
      using par_decided(5) by (auto intro: step_client_turn)
    with par_next par_decided show ?thesis by (cases "k = k'") (auto intro: relayed_step)
  next
    case (par_other k' c')
    with par_next show ?thesis by (cases "k = k'") (auto intro: relayed_step)
  next
    case (par_accept addr first ci ui)
    have "relayed C io_to (conn_start addr first ci ui)" unfolding relayed_def by (blast intro: conn_reach_start)
    with par_accept par_next show ?thesis by (auto simp: nth_append less_Suc_eq)
  qed (use par_next in auto)
qed

subsection \<open>The budget\<close>

definition charge_in :: "threshold_config \<Rightarrow> instant \<Rightarrow> request \<times> decision \<Rightarrow> nat" where
  "charge_in c t = (\<lambda>((now, a, ctx), d). if d = Allow \<and> policed c a \<and> in_window (window c) t now then blast_radius a else 0)"

text \<open>The blast radius of what all connections got past the policy at position \<open>g\<close> in the window that ends
  at \<open>t\<close>.\<close>

definition passed_radius :: "threshold_config \<Rightarrow> nat \<Rightarrow> instant \<Rightarrow> 's par_system \<Rightarrow> nat" where
  "passed_radius c g t s =
     sum_list (map (\<lambda>e. sum_list (map (charge_in c t) (seen_by (par_chain s) (fst (snd e)) g))) (par_log s))"

lemma admitted_radius_seen:
  "admitted_radius c t (requests_at s g) (decisions_at s g) = sum_list (map (charge_in c t \<circ> snd) (ch_seen s g))"
proof -
  have "admitted_radius c t (map (fst \<circ> snd) es) (map (snd \<circ> snd) es) = sum_list (map (charge_in c t \<circ> snd) es)"
    for es :: "(nat \<times> request \<times> decision) list"
    by (induction es) (auto simp: charge_in_def)
  then show ?thesis by (simp add: requests_at_def decisions_at_def)
qed

lemma sum_threads_le:
  fixes h :: "nat \<times> 'e \<Rightarrow> nat"
  assumes "distinct ts"
  shows "sum_list (map (\<lambda>t. sum_list (map h (filter (\<lambda>e. fst e = t) xs))) ts) \<le> sum_list (map h xs)"
proof (induction xs)
  case (Cons x xs)
  have "fst x \<notin> set us \<Longrightarrow> sum_list (map (\<lambda>t. if fst x = t then h x else 0) us) = 0" for us by (induction us) auto
  with assms have "sum_list (map (\<lambda>t. if fst x = t then h x else 0) ts) \<le> h x" by (induction ts) auto
  moreover have "sum_list (map (\<lambda>t. sum_list (map h (filter (\<lambda>e. fst e = t) (x # xs)))) ts)
      = sum_list (map (\<lambda>t. if fst x = t then h x else 0) ts)
        + sum_list (map (\<lambda>t. sum_list (map h (filter (\<lambda>e. fst e = t) xs))) ts)"
    by (induction ts) auto
  ultimately show ?case using Cons.IH by simp
qed simp

lemma passed_radius_le:
  assumes "log_ok C s"
  shows "passed_radius c g t s \<le> admitted_radius c t (requests_at (par_chain s) g) (decisions_at (par_chain s) g)"
proof -
  let ?ts = "map (fst \<circ> snd) (par_log s)" and ?h = "charge_in c t \<circ> snd"
  have "passed_radius c g t s = sum_list (map (\<lambda>th. sum_list (map ?h (filter (\<lambda>e. fst e = th) (ch_seen (par_chain s) g)))) ?ts)"
    by (simp add: passed_radius_def seen_by_def comp_def)
  also have "\<dots> \<le> sum_list (map ?h (ch_seen (par_chain s) g))"
    using assms by (intro sum_threads_le) (simp add: log_ok_def)
  finally show ?thesis by (simp add: admitted_radius_seen)
qed

text \<open>Every request that has reached a policy was a frame of a connection.\<close>

lemma requests_decoded:
  assumes "par_inv C ps0 s" "(now, a, ctx) \<in> set (requests_at (par_chain s) g)"
  shows "\<exists>f. decode C f = Inr (Some a)"
proof -
  let ?ch = "par_chain s"
  from assms(2) obtain k d where e: "(k, (now, a, ctx), d) \<in> set (ch_seen ?ch g)" by (auto simp: requests_at_def)
  then have in_k: "((now, a, ctx), d) \<in> set (seen_by ?ch k g)" by (force simp: seen_by_def)
  have "threads_trace (length ps0) ?ch" using assms(1) chain_reach_traces by (auto simp: par_inv_def)
  with e have k: "k < length (ch_threads ?ch)" and tr: "thread_trace (length ps0) (seen_by ?ch k) (ch_threads ?ch ! k)"
    by (fastforce simp: threads_trace_def)+
  consider "g < th_next (ch_threads ?ch ! k)" | "g = th_next (ch_threads ?ch ! k)" | "g > th_next (ch_threads ?ch ! k)" by linarith
  then have "a = th_action (ch_threads ?ch ! k)"
    using tr in_k by cases (fastforce simp: thread_trace_def split: option.splits decision.splits)+
  with assms(1) k show ?thesis by (auto simp: par_inv_def requests_ok_def)
qed

lemma ldap_no_overflow:
  assumes "ldap_decode env f = Inr (Some a)" "max_per_window c + 1 < 2 ^ 64"
  shows "no_overflow c a"
proof -
  from assms(1) obtain m where "ldap_decode env f = Inr (Some a)" "ber_decode env f = Some m"
    by (auto simp: res_simps ldap_decode_def decode_with_def split: option.splits)
  then have "blast_radius a = 1"
    by (cases "protocol_op m") (auto simp: res_simps ldap_decode_def decode_with_def ldap_action_def split: option.splits if_splits)
  with assms(2) show ?thesis by (simp add: no_overflow_def)
qed

subsection \<open>Two connections that each delete an entry under a limit of one\<close>

definition demo_par_chain :: "unit threshold_policy list" where
  "demo_par_chain = [demo_policy (demo_config Global 1 0)]"

definition demo_request_of :: "conn \<Rightarrow> octets \<times> action \<times> policy_context" where
  "demo_request_of c = the (next_request (ldap_connector demo_ldap) c)"

definition demo_enter :: "nat \<Rightarrow> unit par_system \<Rightarrow> unit par_system" where
  "demo_enter k s = (case demo_request_of (par_conns s ! k) of (f, a, ctx) \<Rightarrow>
     s\<lparr>par_busy := (par_busy s)(k \<mapsto> length (ch_threads (par_chain s))),
       par_chain := (par_chain s)\<lparr>ch_threads := ch_threads (par_chain s) @ [thread_start a ctx]\<rparr>\<rparr>)"

definition demo_decided :: "nat \<Rightarrow> nat \<Rightarrow> unit par_system \<Rightarrow> unit par_system" where
  "demo_decided k t s =
     (let d = the (th_result (ch_threads (par_chain s) ! t));
          (c', sh') = client_turn (ldap_connector demo_ldap) answer (\<lambda>_. 0) (par_conns s ! k) ((par_shared s)\<lparr>policies := [d]\<rparr>)
      in s\<lparr>par_conns := (par_conns s)[k := c'], par_shared := sh', par_busy := (par_busy s)(k := None),
           par_log := par_log s @ map (\<lambda>f. (k, t, f)) (newly_admitted (par_conns s ! k) c')\<rparr>)"

definition demo_return :: "nat \<Rightarrow> unit chain_state \<Rightarrow> unit chain_state" where
  "demo_return k s = s\<lparr>ch_threads := (ch_threads s)[k := (ch_threads s ! k)\<lparr>th_result := Some Allow\<rparr>]\<rparr>"

text \<open>Both connections enter before either is answered; the second to enter asks first.\<close>

definition demo_par1 :: "unit par_system" where
  "demo_par1 = demo_enter 1 (demo_enter 0
     ((par_start demo_par_chain zero_metrics)\<lparr>par_conns := [demo_conn del_frame [], demo_conn del_frame []]\<rparr>))"

definition demo_par2 :: "unit par_system" where
  "demo_par2 = demo_par1\<lparr>par_chain := demo_return 1 (thread_asks 0 2 (thread_asks 1 1 (par_chain demo_par1)))\<rparr>"

definition demo_par :: "unit par_system" where
  "demo_par = demo_decided 0 0 (demo_decided 1 1 demo_par2)"

lemma demo_enter_step:
  assumes "k < length (par_conns s)" "par_busy s k = None" "outcome (par_conns s ! k) = None" "client_pending (par_conns s ! k) = None"
    and "next_request (ldap_connector demo_ldap) (par_conns s ! k) \<noteq> None"
  shows "par_step (ldap_connector demo_ldap) io_to s (demo_enter k s)"
proof -
  obtain f a ctx where n: "next_request (ldap_connector demo_ldap) (par_conns s ! k) = Some (f, a, ctx)" using assms(5) by auto
  show ?thesis using par_enter [OF assms(1-4) n] n by (simp add: demo_enter_def demo_request_of_def)
qed

lemma demo_decided_step:
  assumes "k < length (par_conns s)" "par_busy s k = Some t" "th_result (ch_threads (par_chain s) ! t) \<noteq> None"
  shows "par_step (ldap_connector demo_ldap) io_to s (demo_decided k t s)"
proof -
  obtain d where d: "th_result (ch_threads (par_chain s) ! t) = Some d" using assms(3) by auto
  obtain c' sh' where c: "client_turn (ldap_connector demo_ldap) answer (\<lambda>_. 0) (par_conns s ! k) ((par_shared s)\<lparr>policies := [d]\<rparr>) = (c', sh')"
    by fastforce
  show ?thesis using par_decided [OF assms(1,2) d c] d c by (simp add: demo_decided_def)
qed

lemma demo_par1_reach: "par_reach (ldap_connector demo_ldap) io_to demo_par_chain demo_par1"
proof -
  let ?C = "ldap_connector demo_ldap" and ?c = "demo_conn del_frame []"
  let ?s0 = "par_start demo_par_chain zero_metrics"
  let ?s2 = "?s0\<lparr>par_conns := [?c, ?c]\<rparr>"
  have acc: "par_step ?C io_to s (s\<lparr>par_conns := par_conns s @ [?c]\<rparr>)" for s :: "unit par_system"
    unfolding demo_conn_def by (rule par_accept)
  have "par_reach ?C io_to demo_par_chain ?s2"
    using par_next [OF par_next [OF par_begin [of ?C io_to demo_par_chain zero_metrics] acc] acc] by (simp add: par_start_def)
  moreover have "par_step ?C io_to ?s2 (demo_enter 0 ?s2)" by (rule demo_enter_step) code_simp+
  moreover have "par_step ?C io_to (demo_enter 0 ?s2) (demo_enter 1 (demo_enter 0 ?s2))" by (rule demo_enter_step) code_simp+
  ultimately show ?thesis unfolding demo_par1_def by (blast intro: par_next)
qed

lemma demo_par_reach: "par_reach (ldap_connector demo_ldap) io_to demo_par_chain demo_par"
proof -
  let ?C = "ldap_connector demo_ldap" and ?ch = "par_chain demo_par1"
  have ask: "par_reach ?C io_to demo_par_chain (s\<lparr>par_chain := ch\<rparr>)"
    if "par_reach ?C io_to demo_par_chain s" "chain_step (par_chain s) ch" "length (ch_threads ch) = length (ch_threads (par_chain s))" for s ch
    using that by (blast intro: par_next par_ask)
  have "chain_step ?ch (thread_asks 1 1 ?ch)" by (rule ch_ask) code_simp+
  moreover have "chain_step (thread_asks 1 1 ?ch) (thread_asks 0 2 (thread_asks 1 1 ?ch))" by (rule ch_ask) code_simp+
  moreover have "chain_step (thread_asks 0 2 (thread_asks 1 1 ?ch)) (demo_return 1 (thread_asks 0 2 (thread_asks 1 1 ?ch)))"
    unfolding demo_return_def by (rule ch_return) code_simp+
  moreover have "length (ch_threads (thread_asks k now c)) = length (ch_threads c)" for k now and c :: "unit chain_state"
    by (simp add: thread_asks_def Let_def split: prod.split)
  moreover have "length (ch_threads (demo_return k c)) = length (ch_threads c)" for k c by (simp add: demo_return_def)
  ultimately have "par_reach ?C io_to demo_par_chain demo_par2"
    using ask [OF ask [OF ask [OF demo_par1_reach]]] by (simp add: demo_par2_def)
  moreover have "par_step ?C io_to demo_par2 (demo_decided 1 1 demo_par2)" by (rule demo_decided_step) code_simp+
  moreover have "par_step ?C io_to (demo_decided 1 1 demo_par2) demo_par" unfolding demo_par_def by (rule demo_decided_step) code_simp+
  ultimately show ?thesis by (blast intro: par_next)
qed

subsection \<open>Properties\<close>

text \<open>C2 The blast radius of the whole proxy: however many connections there are, whatever names they bind
  as, and however their steps and their ways through the chain of policies interleave, the policed actions
  that all of them together get past a chain with a policy of global scope never exceed that policy's
  \<open>max_per_window\<close> in any window of time; every frame a connection passed as admitted is accounted for, and
  was admitted by that policy exactly once.\<close>

theorem system_global_budget:
  assumes "par_reach (ldap_connector env) io_to ps0 s" "g < length ps0" "fresh c (ps0 ! g)"
    and "scope c = Global" "max_per_window c + 1 < 2 ^ 64"
  shows "passed_radius c g t s \<le> max_per_window c
    \<and> (\<forall>k < length (par_conns s). map (snd \<circ> snd) (filter (\<lambda>e. fst e = k) (par_log s)) = admitted_frames (par_conns s ! k))
    \<and> (\<forall>(k, th, f) \<in> set (par_log s). \<exists>now a ctx. ldap_decode env f = Inr (Some a)
         \<and> seen_by (par_chain s) th g = [((now, a, ctx), Allow)])"
proof -
  note inv = par_inv_reach [OF assms(1)]
  let ?rs = "requests_at (par_chain s) g" and ?ds = "decisions_at (par_chain s) g"
  have tr: "policy_trace ps0 (par_chain s)" "threads_trace (length ps0) (par_chain s)"
    using inv chain_reach_traces by (auto simp: par_inv_def)
  have "\<forall>(now, a, ctx) \<in> set ?rs. no_overflow c a"
    using requests_decoded [OF inv] ldap_no_overflow assms(5) by (fastforce simp: ldap_connector_def)
  from fresh_run [OF assms(3) _ keys_fit_global [OF assms(4)] this] tr(1) assms(2)
  have "admitted_radius c t ?rs ?ds \<le> max_per_window c"
    by (simp add: policy_trace_def admitted_radius_global [OF assms(4)]) (metis fst_conv log_budget_def)
  with passed_radius_le have "passed_radius c g t s \<le> max_per_window c"
    using inv by (meson order_trans par_inv_def)
  moreover have "\<exists>now a ctx. ldap_decode env f = Inr (Some a) \<and> seen_by (par_chain s) th g = [((now, a, ctx), Allow)]"
    if "(k, th, f) \<in> set (par_log s)" for k th f
    using inv tr(2) that assms(2) by (fastforce simp: par_inv_def log_ok_def threads_trace_def thread_trace_def ldap_connector_def)
  ultimately show ?thesis using inv by (auto simp: par_inv_def frames_ok_def)
qed

theorem system_global_budget_witness:
  "passed_radius (demo_config Global 1 0) 0 2 demo_par \<le> 1
   \<and> admitted_frames (par_conns demo_par ! 0) = [] \<and> admitted_frames (par_conns demo_par ! 1) = [del_frame]
   \<and> map (snd \<circ> snd) (filter (\<lambda>e. fst e = 1) (par_log demo_par)) = [del_frame]"
proof -
  have g: "0 < length demo_par_chain" "fresh (demo_config Global 1 0) (demo_par_chain ! 0)"
    "scope (demo_config Global 1 0) = Global" by code_simp+
  have "max_per_window (demo_config Global 1 0) + 1 < 2 ^ 64" by (simp add: demo_config_def)
  note budget = system_global_budget [OF demo_par_reach [of 60] g this, of 2]
  have "length (par_conns demo_par) = 2" "admitted_frames (par_conns demo_par ! 0) = []"
    "admitted_frames (par_conns demo_par ! 1) = [del_frame]" "max_per_window (demo_config Global 1 0) = 1" by code_simp+
  with budget show ?thesis by simp
qed

end
