(* ===== verification/Upstream_Timing.thy ===== *)
theory Upstream_Timing
  imports Ldap_Upstream Proxy_Conn
begin

text \<open>
  Dialling under the deadline of a connection. \<open>handle_connection\<close> (proxy.rs) puts one deadline, the
  \<open>io_timeout\<close>, around the whole of \<open>connect_upstream\<close> (connector/ldap.rs); a single dial has none of its
  own. A dial that neither succeeds nor fails therefore uses up what is left of the deadline, and the
  future of the loop is dropped at that dial: nothing after it runs.

  Shown: when every dial is fast enough for all targets to fit into the deadline, the loop behaves as
  without one and fails over; a target that hangs at the head of the candidates is never marked as failed,
  so that least connections picks it again for every later connection.
\<close>

subsection \<open>The loop under a deadline\<close>

text \<open>\<open>d k addr\<close> is the \<open>k\<close>-th dial: how long it takes and its outcome, or \<^const>\<open>None\<close> if it never
  completes. The panics of the loop are \<^const>\<open>None\<close> as before.\<close>

type_synonym 's slow_dial = "nat \<Rightarrow> socket_addr \<Rightarrow> (duration \<times> (conn_error + 's)) option"

fun connect_loop_within ::
  "'s slow_dial \<Rightarrow> (nat \<Rightarrow> instant) \<Rightarrow> nat \<Rightarrow> duration \<Rightarrow> candidate list \<Rightarrow> conn_error option
     \<Rightarrow> upstream_pool \<Rightarrow> ((conn_error + 's counted_stream) timed \<times> upstream_pool) option" where
  "connect_loop_within d clk k left [] last_err p =
     (case last_err of None \<Rightarrow> None | Some e \<Rightarrow> Some (Done (Inl e), p))"
| "connect_loop_within d clk k left (c # cs) last_err p =
     (case d k (c_addr c) of
        None \<Rightarrow> Some (Expired, p)
      | Some (t, r) \<Rightarrow>
          if t > left then Some (Expired, p)
          else (case r of
             Inr s \<Rightarrow>
               (case mark_connected (clk (2 * k)) (index c) p of
                  None \<Rightarrow> None
                | Some (_, _, p') \<Rightarrow> Some (Done (Inr \<lparr>inner = s, guard = index c\<rparr>), p'))
           | Inl e \<Rightarrow>
               (case mark_failed (clk (2 * k)) (clk (2 * k + 1)) (index c) p of
                  None \<Rightarrow> None
                | Some (_, p') \<Rightarrow> connect_loop_within d clk (Suc k) (left - t) cs (Some e) p')))"

definition dial_upstream ::
  "duration \<Rightarrow> 's slow_dial \<Rightarrow> (nat \<Rightarrow> instant) \<Rightarrow> (nat list \<Rightarrow> nat list) \<Rightarrow> (nat \<Rightarrow> instant)
     \<Rightarrow> 'c ldap_connector_state \<Rightarrow> ((conn_error + 's counted_stream) \<times> 'c ldap_connector_state) option" where
  "dial_upstream io_to d clk0 shuffle clk c =
     (case candidates clk0 shuffle (pool c) of
        (cs, p) \<Rightarrow> map_option (\<lambda>(r, p'). (with_timeout io_to r, c\<lparr>pool := p'\<rparr>))
                     (connect_loop_within d clk 0 io_to cs None p))"

text \<open>Connections one after the other, each with its own dials and clock readings.\<close>

record 's attempt =
  at_dial :: "'s slow_dial"
  at_health :: "nat \<Rightarrow> instant"
  at_clock :: "nat \<Rightarrow> instant"

fun dial_attempts ::
  "duration \<Rightarrow> (nat list \<Rightarrow> nat list) \<Rightarrow> 's attempt list \<Rightarrow> 'c ldap_connector_state
     \<Rightarrow> ((conn_error + 's counted_stream) list \<times> 'c ldap_connector_state) option" where
  "dial_attempts io_to shuffle [] c = Some ([], c)"
| "dial_attempts io_to shuffle (a # as) c =
     (case dial_upstream io_to (at_dial a) (at_health a) shuffle (at_clock a) c of
        None \<Rightarrow> None
      | Some (r, c1) \<Rightarrow> map_option (\<lambda>(rs, c2). (r # rs, c2)) (dial_attempts io_to shuffle as c1))"

subsection \<open>Dials that complete\<close>

text \<open>Every dial completes within \<open>t\<close>.\<close>

definition completes_within :: "duration \<Rightarrow> 's slow_dial \<Rightarrow> bool" where
  "completes_within t d \<longleftrightarrow> (\<forall>k addr. case d k addr of None \<Rightarrow> False | Some (u, _) \<Rightarrow> u \<le> t)"

definition outcome_of :: "'s slow_dial \<Rightarrow> nat \<Rightarrow> socket_addr \<Rightarrow> conn_error + 's" where
  "outcome_of d k addr = (case d k addr of None \<Rightarrow> Inl TlsError | Some (_, r) \<Rightarrow> r)"

lemma completes_withinE:
  assumes "completes_within t d"
  obtains u where "d k addr = Some (u, outcome_of d k addr)" "u \<le> t"
proof -
  have "case d k addr of None \<Rightarrow> False | Some (u, _) \<Rightarrow> u \<le> t" using assms by (simp add: completes_within_def)
  then show ?thesis using that by (auto simp: outcome_of_def split: option.splits)
qed

lemma connect_loop_within_eq:
  assumes "completes_within t d" "length cs * t \<le> left"
  shows "connect_loop_within d clk k left cs last_err p
    = map_option (\<lambda>(r, p'). (Done r, p')) (connect_loop (outcome_of d) clk k cs last_err p)"
  using assms(2)
proof (induction cs arbitrary: k left last_err p)
  case Nil
  then show ?case by (simp split: option.splits)
next
  case (Cons c cs)
  obtain u where u: "d k (c_addr c) = Some (u, outcome_of d k (c_addr c))" "u \<le> t"
    by (rule completes_withinE [OF assms(1)])
  have "u \<le> left" "length cs * t \<le> left - u" using Cons.prems u(2) by simp_all
  with u(1) Cons.IH [of "left - u"] show ?case by (simp split: option.split sum.split prod.split)
qed

lemma candidates_length:
  assumes "permutes_lists shuffle"
  shows "length (fst (candidates clk shuffle p)) = length (targets p)"
  using pool.cands_length [of "(clk, shuffle)" p] assms by simp

subsection \<open>A target that hangs\<close>

text \<open>\<open>h\<close> is healthy and comes before every other healthy target: fewer connections, or as many and an
  earlier place in the configuration.\<close>

definition least_loaded :: "(nat \<Rightarrow> instant) \<Rightarrow> upstream_pool \<Rightarrow> nat \<Rightarrow> bool" where
  "least_loaded clk p h \<longleftrightarrow> strategy p = LeastConnections \<and> h \<in> set (healthy_ids clk p)
     \<and> (\<forall>i \<in> set (healthy_ids clk p). i \<noteq> h \<longrightarrow>
          active_connections (targets p ! h) < active_connections (targets p ! i)
          \<or> (active_connections (targets p ! h) = active_connections (targets p ! i) \<and> h < i))"

lemma hd_sort_key:
  fixes f :: "nat \<Rightarrow> nat"
  assumes "sorted xs" "distinct xs" "h \<in> set xs" "\<forall>i \<in> set xs. i \<noteq> h \<longrightarrow> f h < f i \<or> (f h = f i \<and> h < i)"
  shows "hd (sort_key f xs) = h"
proof -
  let ?ys = "sort_key f xs" and ?same = "filter (\<lambda>i. f i = f h) (sort_key f xs)"
  have min: "\<forall>i \<in> set ?ys. f h \<le> f i" using assms(4) by fastforce
  have ne: "?ys \<noteq> []" using assms(3) by (metis set_sort empty_iff list.set(1))
  have "f (hd ?ys) \<le> f i" if "i \<in> set ?ys" for i
    using that sorted_sort_key [of f xs] by (cases ?ys) auto
  then have "f (hd ?ys) = f h" using min ne assms(3) by (metis dual_order.antisym list.set_sel(1) set_sort)
  then have "hd ?same = hd ?ys" using ne by (cases ?ys) simp_all
  moreover have "?same = filter (\<lambda>i. f i = f h) xs" by (rule sort_key_stable)
  moreover have "hd (filter (\<lambda>i. f i = f h) xs) = h"
  proof -
    have "sorted (filter (\<lambda>i. f i = f h) xs)" using assms(1) by (simp add: sorted_wrt_filter)
    moreover have "h \<in> set (filter (\<lambda>i. f i = f h) xs)" "\<forall>i \<in> set (filter (\<lambda>i. f i = f h) xs). h \<le> i"
      using assms(3,4) by auto
    ultimately show ?thesis by (cases "filter (\<lambda>i. f i = f h) xs") auto
  qed
  ultimately show ?thesis by simp
qed

lemma least_loaded_first:
  assumes "least_loaded clk p h"
  shows "\<exists>cs. candidates clk shuffle p = (\<lparr>index = h, c_addr = t_addr (targets p ! h)\<rparr> # cs, p)"
proof -
  let ?f = "\<lambda>i. unat (active_connections (targets p ! i))" and ?hs = "healthy_ids clk p"
  have lc: "strategy p = LeastConnections" and h: "h \<in> set ?hs" using assms by (simp_all add: least_loaded_def)
  have "sorted ?hs" "distinct ?hs" by (simp_all add: healthy_ids_def sorted_wrt_filter)
  moreover have "\<forall>i \<in> set ?hs. i \<noteq> h \<longrightarrow> ?f h < ?f i \<or> (?f h = ?f i \<and> h < i)"
    using assms unfolding least_loaded_def by (auto simp: word_less_nat_alt)
  ultimately have "hd (sort_key ?f ?hs) = h" using h by (intro hd_sort_key)
  moreover have "sort_key ?f ?hs \<noteq> []" using h by (metis set_sort empty_iff list.set(1))
  ultimately obtain js where "sort_key ?f ?hs = h # js" by (metis list.collapse)
  with lc show ?thesis by (simp add: candidates_def Let_def healthy_ids_def)
qed

lemma hung_dial:
  assumes "least_loaded clk0 (pool c) h" "d 0 (t_addr (targets (pool c) ! h)) = None"
  shows "dial_upstream io_to d clk0 shuffle clk c = Some (Inl (TimedOut io_to), c)"
proof -
  from least_loaded_first [OF assms(1), of shuffle] obtain cs
    where "candidates clk0 shuffle (pool c) = (\<lparr>index = h, c_addr = t_addr (targets (pool c) ! h)\<rparr> # cs, pool c)" ..
  with assms(2) show ?thesis by (simp add: dial_upstream_def with_timeout_def)
qed

subsection \<open>Properties\<close>

text \<open>C9 Failover within the deadline: when every dial completes within \<open>t\<close> and the deadline has room for
  one dial per target, a connection under its deadline gets an upstream stream exactly when some
  configured target can be dialled, counted on the target it was made to, and is never timed out.\<close>

theorem failover_within_deadline:
  assumes "permutes_lists shuffle" "targets (pool c) \<noteq> []" "clock_fits clk (cooldown (pool c))"
    and "completes_within t d" "length (targets (pool c)) * t \<le> io_to"
    and "\<forall>j addr. is_ok (outcome_of d j addr) = up addr"
  shows "\<exists>r c'. dial_upstream io_to d clk0 shuffle clk c = Some (r, c')
    \<and> connect_upstream (outcome_of d) clk0 shuffle clk c = Some (r, c')
    \<and> is_ok r = (\<exists>t \<in> set (targets (pool c)). up (t_addr t))
    \<and> (\<forall>s. r = Inr s \<longrightarrow> guard s < length (targets (pool c)) \<and> up (t_addr (targets (pool c) ! guard s)))"
proof -
  let ?cs = "fst (candidates clk0 shuffle (pool c))" and ?p = "snd (candidates clk0 shuffle (pool c))"
  have "length ?cs * t \<le> io_to" using assms(5) candidates_length [OF assms(1)] by simp
  from connect_loop_within_eq [OF assms(4) this]
  have "dial_upstream io_to d clk0 shuffle clk c = connect_upstream (outcome_of d) clk0 shuffle clk c"
    by (simp add: dial_upstream_def connect_upstream_def split_def option.map_comp comp_def with_timeout_def)
  with connect_upstream_connects [OF assms(1,2,3,6)] show ?thesis by simp
qed

theorem failover_within_deadline_witness:
  "\<exists>s c'. dial_upstream 10 (\<lambda>_ addr. Some (3, if addr = demo_addr 3 then Inr () else Inl TlsError)) (\<lambda>_. 20) rev (\<lambda>_. 21)
      \<lparr>pool = demo_pool Random, upstream_tls = None :: unit option, upstream_starttls = False\<rparr> = Some (Inr s, c')"
proof -
  let ?d = "\<lambda>(_ :: nat) addr. Some (3 :: nat, if addr = demo_addr 3 then Inr () else Inl TlsError)"
  let ?c = "\<lparr>pool = demo_pool Random, upstream_tls = None :: unit option, upstream_starttls = False\<rparr>"
  have h: "permutes_lists rev" "targets (pool ?c) \<noteq> []" "completes_within 3 ?d" "length (targets (pool ?c)) * 3 \<le> 10"
    by (simp_all add: permutes_lists_def demo_pool_def completes_within_def)
  have clk: "clock_fits (\<lambda>_. 21) (cooldown (pool ?c))"
    by (simp add: clock_fits_def demo_pool_def instant_range_def i64_range_def)
  have "\<forall>j addr. is_ok (outcome_of ?d j addr) = (addr = demo_addr 3)" by (simp add: outcome_of_def)
  from failover_within_deadline [OF h(1,2) clk h(3,4) this, of "\<lambda>_. 20"] obtain r c'
    where r: "dial_upstream 10 ?d (\<lambda>_. 20) rev (\<lambda>_. 21) ?c = Some (r, c')"
      and ok: "is_ok r = (\<exists>t \<in> set (targets (pool ?c)). t_addr t = demo_addr 3)" by blast
  have "\<exists>t \<in> set (targets (pool ?c)). t_addr t = demo_addr 3" by (simp add: demo_pool_def)
  with ok obtain s where "r = Inr s" by (cases r) auto
  with r show ?thesis by blast
qed

text \<open>C23 A target that hangs is not failed over: with least connections, once the least loaded target
  neither accepts nor refuses connections, every connection from then on times out, however many are
  made and although the other targets would answer; the target is never marked as failed and the pool is
  left as it was.\<close>

theorem hung_target_blocks:
  assumes "\<forall>a \<in> set as. least_loaded (at_health a) (pool c) h \<and> at_dial a 0 (t_addr (targets (pool c) ! h)) = None"
  shows "dial_attempts io_to shuffle as c = Some (replicate (length as) (Inl (TimedOut io_to)), c)"
  using assms
proof (induction as)
  case (Cons a as)
  have "dial_upstream io_to (at_dial a) (at_health a) shuffle (at_clock a) c = Some (Inl (TimedOut io_to), c)"
    using Cons.prems by (intro hung_dial [where h = h]) simp_all
  with Cons show ?case by simp
qed simp

theorem hung_target_blocks_witness:
  "let d = (\<lambda>(_ :: nat) addr. if addr = demo_addr 3 then None else Some (3 :: nat, Inr ()));
       c = \<lparr>pool = (demo_pool LeastConnections), upstream_tls = None :: unit option, upstream_starttls = False\<rparr>
   in dial_attempts 60 rev (replicate 1000 \<lparr>at_dial = d, at_health = \<lambda>_. 20, at_clock = \<lambda>_. 21\<rparr>) c
      = Some (replicate 1000 (Inl (TimedOut 60)), c)"
proof -
  let ?d = "\<lambda>(_ :: nat) addr. if addr = demo_addr 3 then None else Some (3 :: nat, Inr ())"
  let ?c = "\<lparr>pool = (demo_pool LeastConnections), upstream_tls = None :: unit option, upstream_starttls = False\<rparr>"
  let ?a = "\<lparr>at_dial = ?d, at_health = \<lambda>_. 20, at_clock = \<lambda>_. 21\<rparr>"
  have "\<forall>a \<in> set (replicate 1000 ?a). least_loaded (at_health a) (pool ?c) 2 \<and> at_dial a 0 (t_addr (targets (pool ?c) ! 2)) = None"
    by (auto simp: least_loaded_def healthy_ids_def is_healthy_def demo_pool_def)
  from hung_target_blocks [OF this, of 60 rev] show ?thesis by simp
qed

end
