(* ===== verification/Pool_Gauge.thy ===== *)
theory Pool_Gauge
  imports Observe
begin

text \<open>
  The pool of upstream targets and the gauge it publishes (core/upstream_pool.rs with core/metrics.rs).
  A connection is counted by one atomic addition or subtraction, and the number it left is written to the
  gauge of the target afterwards, by a call that other threads may overtake. The step relation
  \<open>gauge_step\<close> has the two as separate steps.

  Shown: while no two calls for one target are between the two at the same time, the gauge of every target
  at rest is the number of its live connections; without that the gauge can stay wrong when everything
  has come to rest.
\<close>

subsection \<open>Steps\<close>

text \<open>\<open>unset_counts\<close>: the calls that have counted and not yet written the gauge, with the number each will
  write.\<close>

record gauge_state =
  g_pool :: upstream_pool
  live_guards :: "nat multiset"
  unset_counts :: "(nat \<times> usize) list"
  g_metrics :: registry

definition gauge_start :: "upstream_pool \<Rightarrow> registry \<Rightarrow> gauge_state" where
  "gauge_start p r = \<lparr>g_pool = p, live_guards = {#}, unset_counts = [], g_metrics = r\<rparr>"

definition publish_count :: "nat \<Rightarrow> usize \<Rightarrow> gauge_state \<Rightarrow> gauge_state" where
  "publish_count i n s =
     s\<lparr>unset_counts := remove1 (i, n) (unset_counts s),
       g_metrics := set_upstream_target_active_connections (t_addr (targets (g_pool s) ! i)) n (g_metrics s)\<rparr>"

text \<open>With \<open>serial\<close> no call for a target starts to count while another for it has not written its gauge.\<close>

inductive gauge_step :: "bool \<Rightarrow> gauge_state \<Rightarrow> gauge_state \<Rightarrow> bool" for serial where
  gs_connect: "serial \<longrightarrow> i \<notin> fst ` set (unset_counts s) \<Longrightarrow> mark_connected now i (g_pool s) = Some (logged, n, p') \<Longrightarrow>
     gauge_step serial s (s\<lparr>g_pool := p', live_guards := add_mset i (live_guards s), unset_counts := unset_counts s @ [(i, n)]\<rparr>)"
| gs_close: "serial \<longrightarrow> i \<notin> fst ` set (unset_counts s) \<Longrightarrow> i \<in># live_guards s \<Longrightarrow> guard_drop i (g_pool s) = Some (n, p') \<Longrightarrow>
     gauge_step serial s (s\<lparr>g_pool := p', live_guards := live_guards s - {#i#}, unset_counts := unset_counts s @ [(i, n)]\<rparr>)"
| gs_publish: "(i, n) \<in> set (unset_counts s) \<Longrightarrow> gauge_step serial s (publish_count i n s)"
| gs_failed: "mark_failed now1 now2 i (g_pool s) = Some (logged, p') \<Longrightarrow>
     gauge_step serial s (s\<lparr>g_pool := p', g_metrics := record_upstream_target_failure (t_addr (targets p' ! i)) (g_metrics s)\<rparr>)"
| gs_select: "gauge_step serial s (s\<lparr>g_pool := snd (candidates clk shuffle (g_pool s))\<rparr>)"

inductive gauge_reach :: "bool \<Rightarrow> gauge_state \<Rightarrow> gauge_state \<Rightarrow> bool" for serial s0 where
  gs_start: "gauge_reach serial s0 s0"
| gs_step: "gauge_reach serial s0 s \<Longrightarrow> gauge_step serial s s' \<Longrightarrow> gauge_reach serial s0 s'"

definition target_gauge :: "socket_addr \<Rightarrow> registry \<Rightarrow> int" where
  "target_gauge a r = gauges r (UPSTREAM_TARGET_ACTIVE_CONNECTIONS, [(''target'', show_socket_addr a)])"

subsection \<open>The invariant\<close>

text \<open>At most one call per target is under way, and a target's count is what its gauge shows or what the
  call under way will write.\<close>

definition gauge_inv :: "socket_addr list \<Rightarrow> gauge_state \<Rightarrow> bool" where
  "gauge_inv addrs s \<longleftrightarrow> counts_live addrs (g_pool s) (live_guards s) \<and> distinct (map fst (unset_counts s))
     \<and> (\<forall>i < length addrs.
          case map_of (unset_counts s) i of
            None \<Rightarrow> target_gauge (addrs ! i) (g_metrics s) = int (unat (active_connections (targets (g_pool s) ! i)))
          | Some n \<Rightarrow> n = active_connections (targets (g_pool s) ! i))"

lemma gauge_inv_addr: "gauge_inv addrs s \<Longrightarrow> i < length addrs \<Longrightarrow> t_addr (targets (g_pool s) ! i) = addrs ! i"
  by (auto simp: gauge_inv_def counts_live_def)

lemma target_gauge_set:
  "target_gauge a (set_upstream_target_active_connections b n r)
     = (if show_socket_addr a = show_socket_addr b then int (unat n) else target_gauge a r)"
  by (simp add: target_gauge_def set_upstream_target_active_connections_def gauge_set_def)

lemma target_gauge_failure [simp]: "target_gauge a (record_upstream_target_failure b r) = target_gauge a r"
  by (simp add: target_gauge_def record_upstream_target_failure_def counter_inc_def)

lemma map_of_snoc: "i \<notin> fst ` set xs \<Longrightarrow> map_of (xs @ [(i, n)]) = (map_of xs)(i \<mapsto> n)"
  by (induction xs) (auto simp: fun_upd_twist)

lemma map_of_remove1:
  assumes "distinct (map fst xs)" "(i, n) \<in> set xs"
  shows "map_of (remove1 (i, n) xs) = (map_of xs)(i := None)" "distinct (map fst (remove1 (i, n) xs))"
proof -
  show "map_of (remove1 (i, n) xs) = (map_of xs)(i := None)"
    using assms by (induction xs) (force simp: map_of_eq_None_iff fun_upd_twist)+
  show "distinct (map fst (remove1 (i, n) xs))"
    using assms(1) by (metis distinct_map distinct_remove1 inj_on_subset set_remove1_subset)
qed

lemma count_updates:
  "mark_connected now i p = Some (logged, n, p') \<Longrightarrow>
     i < length (targets p) \<and> active_connections (targets p' ! i) = n \<and> (\<forall>j. j \<noteq> i \<longrightarrow> targets p' ! j = targets p ! j)"
  "guard_drop i p = Some (n, p') \<Longrightarrow>
     i < length (targets p) \<and> active_connections (targets p' ! i) = n \<and> (\<forall>j. j \<noteq> i \<longrightarrow> targets p' ! j = targets p ! j)"
  by (auto simp: mark_connected_def guard_drop_def Let_def split: if_splits)

lemma mark_failed_counts:
  "mark_failed now1 now2 i p = Some (logged, p') \<Longrightarrow> active_connections (targets p' ! j) = active_connections (targets p ! j)"
  by (cases "i = j") (auto simp: mark_failed_def Let_def split: if_splits option.splits)

text \<open>A call that counts and leaves its number to be written.\<close>

lemma gauge_inv_count:
  assumes "gauge_inv addrs s" "i \<notin> fst ` set (unset_counts s)" "counts_live addrs p' G"
    and "active_connections (targets p' ! i) = n" "\<forall>j. j \<noteq> i \<longrightarrow> targets p' ! j = targets (g_pool s) ! j"
  shows "gauge_inv addrs (s\<lparr>g_pool := p', live_guards := G, unset_counts := unset_counts s @ [(i, n)]\<rparr>)"
  using assms by (auto simp: gauge_inv_def map_of_snoc split: option.splits dest!: weak_map_of_SomeI intro: rev_image_eqI)

lemma gauge_inv_publish:
  assumes "gauge_inv addrs s" "(i, n) \<in> set (unset_counts s)" "distinct (map show_socket_addr addrs)" "i < length addrs"
  shows "gauge_inv addrs (publish_count i n s)"
proof -
  have d: "distinct (map fst (unset_counts s))" using assms(1) by (simp add: gauge_inv_def)
  have n: "n = active_connections (targets (g_pool s) ! i)"
    using assms(1,2,4) d by (auto simp: gauge_inv_def split: option.splits dest: map_of_is_SomeI)
  have label: "show_socket_addr (addrs ! j) = show_socket_addr (addrs ! i) \<longleftrightarrow> j = i" if "j < length addrs" for j
    using assms(3,4) that by (metis length_map nth_eq_iff_index_eq nth_map)
  show ?thesis
    using assms(1) n label map_of_remove1 [OF d assms(2)] gauge_inv_addr [OF assms(1,4)]
    by (auto simp: gauge_inv_def publish_count_def target_gauge_set split: option.splits if_splits)
qed

lemma unset_in_range:
  "gauge_step serial s s' \<Longrightarrow> length (targets (g_pool s)) = m \<Longrightarrow> fst ` set (unset_counts s) \<subseteq> {..<m} \<Longrightarrow>
     length (targets (g_pool s')) = m \<and> fst ` set (unset_counts s') \<subseteq> {..<m}"
proof (induction rule: gauge_step.induct)
  case (gs_publish i n s)
  then show ?case by (auto simp: publish_count_def dest: set_remove1_subset [THEN subsetD])
qed (auto simp: mark_connected_def guard_drop_def mark_failed_def Let_def split: if_splits option.splits)

lemma gauge_inv_step:
  assumes "gauge_step True s s'" "gauge_inv addrs s" "distinct (map show_socket_addr addrs)"
    and "fst ` set (unset_counts s) \<subseteq> {..<length addrs}"
  shows "gauge_inv addrs s'"
  using assms
proof (induction rule: gauge_step.induct)
  case (gs_connect i s now logged n p')
  then show ?case
    using count_updates(1) [OF gs_connect.hyps(2)] counts_live_connect [OF _ gs_connect.hyps(2)]
    by (intro gauge_inv_count) (auto simp: gauge_inv_def)
next
  case (gs_close i s n p')
  then show ?case
    using count_updates(2) [OF gs_close.hyps(3)] counts_live_close [OF _ gs_close.hyps(2,3)]
    by (intro gauge_inv_count) (auto simp: gauge_inv_def)
next
  case (gs_publish i n s)
  then have "i < length addrs" by force
  with gs_publish show ?case by (intro gauge_inv_publish)
next
  case (gs_failed now1 now2 i s logged p')
  then show ?case
    using counts_live_fail [OF _ gs_failed.hyps] mark_failed_counts [OF gs_failed.hyps] by (auto simp: gauge_inv_def split: option.splits)
next
  case (gs_select s clk shuffle)
  then show ?case by (auto simp: gauge_inv_def counts_live_def split: option.splits)
qed

lemma gauge_reach_inv:
  assumes "gauge_reach True (gauge_start p r) s" "pool_new addrs st cd = Some p" "distinct (map show_socket_addr addrs)"
    and "\<forall>a \<in> set addrs. target_gauge a r = 0"
  shows "gauge_inv addrs s \<and> length (targets (g_pool s)) = length addrs \<and> fst ` set (unset_counts s) \<subseteq> {..<length addrs}"
  using assms
proof (induction rule: gauge_reach.induct)
  case gs_start
  moreover have "counts_live addrs p {#}" using pool_reach_counts [OF pool_start [OF gs_start(1)]] .
  ultimately show ?case by (auto simp: gauge_start_def gauge_inv_def counts_live_def)
next
  case (gs_step s s')
  then show ?case using unset_in_range [of True s s' "length addrs"] gauge_inv_step [of s s' addrs] by simp
qed

subsection \<open>Properties\<close>

text \<open>The gauge of a target is the number of its live connections whenever none of its calls is under way,
  as long as no two calls for a target overlap and the configured addresses have different labels.\<close>

theorem gauge_shows_live_connections:
  assumes "gauge_reach True (gauge_start p r) s" "pool_new addrs st cd = Some p" "distinct (map show_socket_addr addrs)"
    and "\<forall>a \<in> set addrs. target_gauge a r = 0"
    and "i < length addrs" "i \<notin> fst ` set (unset_counts s)" "count (live_guards s) i < 2 ^ 64"
  shows "target_gauge (addrs ! i) (g_metrics s) = int (count (live_guards s) i)"
proof -
  have inv: "gauge_inv addrs s" using gauge_reach_inv [OF assms(1-4)] by blast
  have "map_of (unset_counts s) i = None" using assms(6) by (simp add: map_of_eq_None_iff)
  then have "target_gauge (addrs ! i) (g_metrics s) = int (unat (active_connections (targets (g_pool s) ! i)))"
    using inv assms(5) unfolding gauge_inv_def by (metis option.simps(4))
  moreover have "active_connections (targets (g_pool s) ! i) = of_nat (count (live_guards s) i)"
    using inv assms(5) by (simp add: gauge_inv_def counts_live_def)
  ultimately show ?thesis using assms(7) by (simp add: unat_of_nat)
qed

definition gauge_demo_pool :: upstream_pool where
  "gauge_demo_pool = \<lparr>targets = [\<lparr>t_addr = demo_addr 1, active_connections = 0, down_until = None\<rparr>],
     strategy = RoundRobin, cooldown = 30, round_robin_counter = 0\<rparr>"

definition no_metrics :: registry where
  "no_metrics = \<lparr>counters = \<lambda>_. 0, gauges = \<lambda>_. 0, histograms = \<lambda>_. []\<rparr>"

definition counted_pool :: "usize \<Rightarrow> upstream_pool" where
  "counted_pool n = gauge_demo_pool\<lparr>targets := [\<lparr>t_addr = demo_addr 1, active_connections = n, down_until = None\<rparr>]\<rparr>"

lemma gauge_demo_connect: "mark_connected 5 0 (counted_pool n) = Some (False, n + 1, counted_pool (n + 1))"
  by (simp add: mark_connected_def counted_pool_def gauge_demo_pool_def Let_def)

theorem gauge_shows_live_connections_witness:
  "\<exists>s. gauge_reach True (gauge_start (counted_pool 0) no_metrics) s \<and> live_guards s = {#0#}
     \<and> target_gauge (demo_addr 1) (g_metrics s) = 1"
proof -
  let ?s0 = "gauge_start (counted_pool 0) no_metrics"
  let ?s1 = "?s0\<lparr>g_pool := counted_pool 1, live_guards := {#0#}, unset_counts := [(0, 1)]\<rparr>"
  have "gauge_step True ?s0 ?s1"
    using gs_connect [of True 0 ?s0 5 False 1 "counted_pool 1"] gauge_demo_connect [of 0] by (simp add: gauge_start_def)
  moreover have "gauge_step True ?s1 (publish_count 0 1 ?s1)" by (intro gs_publish) simp
  ultimately have r: "gauge_reach True ?s0 (publish_count 0 1 ?s1)" using gs_start gs_step by blast
  have new: "pool_new [demo_addr 1] RoundRobin 30 = Some (counted_pool 0)"
    by (simp add: pool_new_def counted_pool_def gauge_demo_pool_def)
  have "target_gauge ([demo_addr 1] ! 0) (g_metrics (publish_count 0 1 ?s1)) = int (count (live_guards (publish_count 0 1 ?s1)) 0)"
    by (rule gauge_shows_live_connections [OF r new]) (simp_all add: target_gauge_def no_metrics_def publish_count_def)
  with r show ?thesis by (intro exI [of _ "publish_count 0 1 ?s1"]) (simp add: publish_count_def)
qed

text \<open>Two calls that overlap can leave the gauge wrong for good: two connections are open, nothing is under
  way, and the gauge shows one.\<close>

theorem gauge_can_stay_wrong:
  "\<exists>s. gauge_reach False (gauge_start (counted_pool 0) no_metrics) s \<and> unset_counts s = []
     \<and> live_guards s = {#0, 0#} \<and> target_gauge (demo_addr 1) (g_metrics s) = 1"
proof -
  let ?s0 = "gauge_start (counted_pool 0) no_metrics"
  let ?s1 = "?s0\<lparr>g_pool := counted_pool 1, live_guards := {#0#}, unset_counts := [(0, 1)]\<rparr>"
  let ?s2 = "?s0\<lparr>g_pool := counted_pool 2, live_guards := {#0, 0#}, unset_counts := [(0, 1), (0, 2)]\<rparr>"
  have "gauge_step False ?s0 ?s1"
    using gs_connect [of False 0 ?s0 5 False 1 "counted_pool 1"] gauge_demo_connect [of 0] by (simp add: gauge_start_def)
  moreover have "gauge_step False ?s1 ?s2"
    using gs_connect [of False 0 ?s1 5 False 2 "counted_pool 2"] gauge_demo_connect [of 1] by (simp add: gauge_start_def)
  moreover have "gauge_step False ?s2 (publish_count 0 2 ?s2)" by (intro gs_publish) simp
  moreover have "gauge_step False (publish_count 0 2 ?s2) (publish_count 0 1 (publish_count 0 2 ?s2))"
    by (intro gs_publish) (simp add: publish_count_def)
  ultimately have "gauge_reach False ?s0 (publish_count 0 1 (publish_count 0 2 ?s2))"
    using gs_start gs_step by blast
  then show ?thesis
    by (intro exI [of _ "publish_count 0 1 (publish_count 0 2 ?s2)"])
      (simp add: publish_count_def target_gauge_set counted_pool_def gauge_demo_pool_def)
qed

end
