(* ===== verification/Spec2Isabelle.thy ===== *)
theory Spec2Isabelle
  imports Process Proxy_System Upstream_Timing Pool_Gauge
begin

text \<open>
  ai-protect is a proxy in front of a directory server. It reads the LDAP traffic of agents frame by
  frame, turns the frames that change something into actions, puts each action to a chain of policies
  and either passes the frame on or answers it with a rejection. This is a verification of its
  sources, \<open>src/src\<close>; the root theory imports the others and adds nothing.

  \<^bold>\<open>Parts and theories.\<close>

  \<^item> \<open>Prelude\<close>: results as sums (\<open>Inl\<close> the error, \<open>res_bind\<close> the question mark operator), instants
    and durations in nanoseconds, \<open>usize\<close> arithmetic, association lists, collections of simplification
    rules. \<open>Rust_Text\<close>: strings, UTF-8, number formats.
  \<^item> \<open>Policy_Core\<close>: core/action.rs, core/identity.rs, core/policy.rs. A policy is an evaluator on an
    explicit state; locale \<open>policy_interface\<close> is the contract of the trait.
  \<^item> \<open>History\<close>, \<open>Threshold\<close>, \<open>Threshold_Budget\<close>: core/policy/threshold.rs, the sliding windows with
    their activity index, \<open>evaluate\<close>, and the specification it refines, a full log of admissions.
    \<open>Threshold\<close> interprets \<open>policy_interface\<close>.
  \<^item> \<open>Policy_Threads\<close>: the chain when requests of several threads are in it at once, one policy at a
    time.
  \<^item> \<open>History_Store\<close>: core/policy/store/mod.rs, the wall-clock anchor and the \<open>HistoryStore\<close> trait as
    the locale \<open>history_store\<close>. \<open>Sqlite_Store\<close> (store/sqlite.rs) and \<open>Valkey_Store\<close> (store/valkey.rs)
    model the two backends and interpret it. \<open>Threshold_Sync\<close>: building a policy on a store and the
    background sync, in steps that interleave with \<open>evaluate\<close> and with other instances on the store.
  \<^item> \<open>Connector\<close>: core/connector.rs and core/net.rs, with the contract of a connector as the locale
    \<open>frame_connector\<close>. \<open>Ldap_Frame\<close>, \<open>Ldap\<close>, \<open>Ldap_Properties\<close>: the framing and the hooks of
    connector/ldap.rs; \<open>Ldap\<close> interprets \<open>frame_connector\<close>.
  \<^item> \<open>Upstream_Pool\<close>: core/upstream_pool.rs, its contract as the locale \<open>target_pool\<close>;
    \<open>Ldap_Upstream\<close>: dialling, StartTLS towards the directory and failover. \<open>Upstream_Timing\<close>: dialling
    under the deadline \<open>handle_connection\<close> puts around it. \<open>Pool_Gauge\<close>: the pool with the gauge it writes.
  \<^item> \<open>Observe\<close>: core/audit.rs and core/metrics.rs.
  \<^item> \<open>Proxy_Conn\<close>: one relayed connection of proxy.rs, its two directions as the step relation
    \<open>conn_step\<close>; locale \<open>relayed_connector\<close> extends \<open>frame_connector\<close> with what a relay over it
    guarantees. \<open>Proxy_Serve\<close>: the start of a connection and the accept loop, the step relation
    \<open>serve_step\<close>. \<open>Proxy_Properties\<close>: the relay of LDAP connections. \<open>Proxy_System\<close>: many
    connections over one chain of threshold policies.
  \<^item> \<open>Config\<close> (config.rs), \<open>Policy_Config\<close> (core/policy/config.rs), \<open>Tls\<close> (core/tls.rs), \<open>Health\<close>
    (core/health.rs), \<open>Builder\<close> (builder.rs), \<open>Process\<close> (lib.rs, error.rs, main.rs): from the
    configuration file to the running process, its reloads and its end.

  \<^bold>\<open>What is shown.\<close>

  \<^item> The limits. While the keys fit \<open>max_tracked_identities\<close>, so that nothing is evicted, \<open>evaluate\<close> takes
    the decisions of the sliding-window specification, alone and for the threads of a chain. No window of
    time holds more than \<open>max_per_window\<close>: for an identity that has not been evicted, while the
    background sync runs; under global scope, for all connections of the proxy together. The history
    stays well formed and bounded; a blocked action costs nothing; an admission is queued once and passed
    to the store once.
  \<^item> The relay. The directory gets the client's bytes less the blocked frames, the client gets whole
    frames in order, and every rejection; a claimed name counts only after a successful bind response under its message id;
    a relay on finite input ends; StartTLS hands over either all bytes or none of the plain ones.
  \<^item> LDAP. The frame reader accepts exactly the well-formed frames and reads back what is encoded; no
    spelling of a lock attribute escapes; a rejection is the response that RFC 4511 has for its request.
  \<^item> Upstream. Candidates are a permutation with the healthy first, counts are exact, a configured TLS
    is never given up, a connection is made whenever one target can be dialled and the deadline has room
    for a dial per target.
  \<^item> Stores. Both backends meet one contract, Valkey on conditions that its theorem spells out; a restart
    counts what the database still holds, unless it cannot be read or holds too many identities.
  \<^item> Process. Configurations and policies are what their files say, an entry runs as configured, the
    panics of starting up are exactly known, connection limits hold, a clean end leaves nothing running; an end with an error leaves no accept loop, its
    connections are aborted without being waited for.

  Where the code does not do what it means to, the theorem states what it does: the activity index
  keeps stale entries and misdirects eviction, a message id used twice confirms a foreign claim, the
  merge counts an event twice or several as one, a failed sync loses events, two Valkey instances
  overwrite each other, a flush interval of zero stops the sync for good, a number of connections that no
  semaphore can have takes the process down, a reload forgets the windows, a password with a slash is logged, finished
  connections stay in the task set, a target that hangs is neither failed over nor marked as failed, and
  the gauge of a target can stay wrong.

  \<^bold>\<open>Bounds, fuel and totality.\<close> Loops are recursive functions with a termination proof; the \<open>SCAN\<close>
  loop of the Valkey store, which the server could keep going, is a partial function whose result \<open>None\<close>
  is not returning, and it is shown to return on a server whose cursor makes progress. There is no
  fuel. \<open>usize\<close> and \<open>u64\<close> values are natural numbers with the wrap-around written out
  (\<open>usize_add\<close>) or 64-bit words (the counters of the pool); \<open>i64\<close> milliseconds are integers with their
  wrap-around and casts written out; instants do not overflow. Panics of functions are \<open>None\<close>, those of
  tasks a state of the task, which unwinds the process when it is joined (\<open>Process\<close>).

  \<^bold>\<open>Parameters.\<close> What is not in the repository is an argument of the definitions: the BER codec, the
  keyed hash and Unicode lower casing, TCP and the TLS library, PEM files, the TOML reader, SQL as a
  table of rows whose statements may fail, the Valkey client and server, the file system, the clocks
  (each reading is an argument). Where a theorem relies on one of them the law is a named hypothesis
  with a concrete instance in its witness.

  \<^bold>\<open>Not modelled.\<close> The text of log lines other than the audit line, starting the tokio runtime and the
  thread of the log writer, installing the tracing subscriber and the Prometheus exporter, the system calls that install signal handlers (a signal, or a handler that
  cannot be installed, is a step), the module files core.rs and connector.rs, panics inside the task of a
  connection, and the tests and fuzz targets.
  A stream is the finite sequence of bytes it will deliver and how it ends; the deadlines of reads, writes
  and handshakes are outcomes a step may have and not a matter of elapsed time, that of dialling is
  measured (\<open>Upstream_Timing\<close>).
\<close>

end
